(* ===== verification/Prelude.thy ===== *)
theory Prelude
  imports Main "HOL-Library.Word"
begin

text \<open>
  Shared vocabulary of the development: the C integer types, the outcome type of kernel code
  with its sequencing operator and its predicate transformer, the theory of singly linked
  lists threaded through a \<open>next\<close> field that the process table and the free-page list use, and a
  fact about signed words.
\<close>

unbundle bit_operations_syntax

type_synonym uchar = "8 word"
type_synonym ushort = "16 word"
type_synonym uint = "32 word"

section \<open>Outcomes of kernel code\<close>

text \<open>
  A kernel routine either returns (\<open>Ok\<close>), stops the machine in \<open>panic\<close>, does something the C
  standard leaves undefined (a null dereference, an array index out of range), or never returns
  by itself: it spins on a lock another core holds or follows a cyclic list for ever (\<open>Hang\<close>).
\<close>

datatype 'a res = Ok 'a | Panic string | Undef | Hang

definition rbind :: "'a res \<Rightarrow> ('a \<Rightarrow> 'b res) \<Rightarrow> 'b res" where
  "rbind m f = (case m of Ok x \<Rightarrow> f x | Panic e \<Rightarrow> Panic e | Undef \<Rightarrow> Undef | Hang \<Rightarrow> Hang)"

lemma rbind_simps [simp]:
  "rbind (Ok x) f = f x"
  "rbind (Panic e) f = Panic e"
  "rbind Undef f = Undef"
  "rbind Hang f = Hang"
  by (simp_all add: rbind_def)

lemma rbind_Ok_iff: "rbind m f = Ok y \<longleftrightarrow> (\<exists>x. m = Ok x \<and> f x = Ok y)"
  by (cases m) auto

lemma rbind_Ok_right [simp]: "rbind m Ok = m"
  by (cases m) auto

lemma rbind_assoc: "rbind (rbind m f) g = rbind m (\<lambda>x. rbind (f x) g)"
  by (cases m) auto

text \<open>
  \<open>wp r Q\<close>: the routine returns and its result satisfies \<open>Q\<close> (total correctness: a panic, an
  undefined step or a hang makes it false).
\<close>

definition wp :: "'a res \<Rightarrow> ('a \<Rightarrow> bool) \<Rightarrow> bool" where
  "wp r Q = (case r of Ok x \<Rightarrow> Q x | _ \<Rightarrow> False)"

lemma wp_simps [simp]:
  "wp (Ok x) Q = Q x"
  "wp (Panic e) Q = False"
  "wp Undef Q = False"
  "wp Hang Q = False"
  by (simp_all add: wp_def)

lemma wp_rbind [simp]: "wp (rbind m f) Q = wp m (\<lambda>x. wp (f x) Q)"
  by (cases m) auto

lemma wp_bindI: "wp m P \<Longrightarrow> (\<And>x. P x \<Longrightarrow> wp (f x) Q) \<Longrightarrow> wp (rbind m f) Q"
  by (cases m) auto

lemma wp_iff: "wp r Q \<longleftrightarrow> (\<exists>x. r = Ok x \<and> Q x)"
  by (cases r) auto

lemma wp_mono: "wp r Q \<Longrightarrow> (\<And>x. Q x \<Longrightarrow> R x) \<Longrightarrow> wp r R"
  by (cases r) auto

lemma wp_returns: "wp r Q \<Longrightarrow> \<exists>x. r = Ok x"
  by (cases r) auto

lemma wp_OkD: "wp r Q \<Longrightarrow> r = Ok x \<Longrightarrow> Q x"
  by simp

lemma wp_conj: "wp r Q \<Longrightarrow> wp r R \<Longrightarrow> wp r (\<lambda>x. Q x \<and> R x)"
  by (cases r) auto

section \<open>Linked lists through a next field\<close>

type_synonym ptr = "nat option"

fun linked :: "(nat \<Rightarrow> ptr) \<Rightarrow> ptr \<Rightarrow> nat list \<Rightarrow> bool" where
  "linked nx a [] = (a = None)"
| "linked nx a (x # xs) = (a = Some x \<and> linked nx (nx x) xs)"

text \<open>\<open>walk k nx a\<close> follows at most \<open>k\<close> links: the executable reading of a list in memory.\<close>

fun walk :: "nat \<Rightarrow> (nat \<Rightarrow> ptr) \<Rightarrow> ptr \<Rightarrow> nat list" where
  "walk 0 nx a = []"
| "walk (Suc k) nx a = (case a of None \<Rightarrow> [] | Some x \<Rightarrow> x # walk k nx (nx x))"

lemma linked_None [simp]: "linked nx None xs = (xs = [])"
  by (cases xs) auto

lemma linked_Some: "linked nx (Some a) xs = (\<exists>ys. xs = a # ys \<and> linked nx (nx a) ys)"
  by (cases xs) auto

lemma linked_unique: "linked nx a xs \<Longrightarrow> linked nx a ys \<Longrightarrow> xs = ys"
  by (induction xs arbitrary: a ys) (auto simp: linked_Some)

lemma linked_suffix: "linked nx a (xs @ y # ys) \<Longrightarrow> linked nx (nx y) ys"
  by (induction xs arbitrary: a) auto

lemma linked_head_notin:
  assumes "linked nx (nx x) xs"
  shows "x \<notin> set xs"
proof
  assume "x \<in> set xs"
  then obtain us vs where xs: "xs = us @ x # vs" by (auto simp: in_set_conv_decomp)
  with assms have "linked nx (nx x) vs" by (auto dest: linked_suffix)
  with assms have "xs = vs" by (rule linked_unique)
  with xs show False by simp
qed

lemma linked_distinct: "linked nx a xs \<Longrightarrow> distinct xs"
  by (induction xs arbitrary: a) (auto dest: linked_head_notin)

lemma linked_cong: "(\<And>x. x \<in> set xs \<Longrightarrow> nx x = nx' x) \<Longrightarrow> linked nx a xs = linked nx' a xs"
  by (induction xs arbitrary: a) auto

lemma linked_upd [simp]: "x \<notin> set xs \<Longrightarrow> linked (nx(x := v)) a xs = linked nx a xs"
  by (rule linked_cong) auto

lemma linked_nx_last: "linked nx a xs \<Longrightarrow> xs \<noteq> [] \<Longrightarrow> nx (last xs) = None"
  by (induction xs arbitrary: a) (auto simp: neq_Nil_conv)

lemma linked_snoc:
  assumes "linked nx a xs" "xs \<noteq> []" "p \<notin> set xs"
  shows "linked (nx(last xs := Some p, p := None)) a (xs @ [p])"
  using assms
proof (induction xs arbitrary: a)
  case (Cons x xs)
  show ?case
  proof (cases "xs = []")
    case False
    from Cons.prems(1) have "x \<notin> set xs" by (auto dest: linked_head_notin)
    with False have "x \<noteq> last xs" by auto
    with Cons False show ?thesis by auto
  qed (use Cons in auto)
qed simp

text \<open>Unlinking an inner element: its predecessor takes over its successor.\<close>

lemma linked_unlink:
  assumes "linked nx a (us @ v # p # ws)"
  shows "linked (nx(v := nx p)) a (us @ v # ws)"
  using assms
proof (induction us arbitrary: a)
  case Nil
  from linked_distinct [OF Nil] have "v \<notin> set ws" by simp
  with Nil have "linked (nx(v := nx p)) (nx p) ws" by simp
  with Nil show ?case by (simp add: fun_upd_same del: fun_upd_apply)
next
  case (Cons u us)
  from linked_distinct [OF Cons.prems] have "u \<noteq> v" by simp
  with Cons show ?case by auto
qed

lemma walk_linked: "linked nx a xs \<Longrightarrow> length xs \<le> k \<Longrightarrow> walk k nx a = xs"
proof (induction k arbitrary: a xs)
  case (Suc k)
  then show ?case by (cases xs) auto
qed auto

lemma length_bounded: "distinct xs \<Longrightarrow> set xs \<subseteq> {..<n} \<Longrightarrow> length xs \<le> (n :: nat)"
  using card_mono [of "{..<n}" "set xs"] by (simp add: distinct_card)

section \<open>Machine words\<close>

text \<open>A word below \<open>2^31\<close> is the same number signed and unsigned.\<close>

lemma sint_small_word:
  fixes w :: uint
  assumes "unat w < 2 ^ 31"
  shows "sint w = int (unat w)"
proof -
  have "int (unat w) < int (2 ^ 31)" using assms by (simp only: of_nat_less_iff)
  then have "uint w < 2 ^ 31" by simp
  then have "signed_take_bit 31 (uint w) = uint w"
    using uint_ge_0 [of w] by (intro signed_take_bit_int_eq_self) (auto intro: order.trans [of _ 0])
  then show ?thesis by (simp add: sint_uint)
qed

end
