(* ===== verification/Spinlock.thy ===== *)
theory Spinlock
  imports Prelude
begin

text \<open>
  Cores, interrupt nesting and spin locks: \<open>spinlock.c\<close> with \<open>cpuid\<close>, \<open>mycpu\<close> and \<open>myproc\<close> of
  \<open>proc.c\<close>, and \<open>struct cpu\<close>, \<open>struct spinlock\<close>. A routine takes the number of the core it runs
  on. \<open>eflags_if\<close> and \<open>lapic_id\<close> are hardware: the interrupt flag and the APIC id of each core;
  \<open>c_esp0\<close> is \<open>ts.esp0\<close> of the core's task state and \<open>c_cr3\<close> its page-table register.
  The debugging fields of a lock (its name and call stack) carry no behaviour and are left out;
  \<open>getcallerpcs\<close>, which fills the call stack, is modelled on its own over a word memory.
\<close>

section \<open>State\<close>

record cpu =
  c_apicid :: uchar
  c_ncli :: int
  c_intena :: bool
  c_proc :: "nat option"
  c_esp0 :: uint
  c_cr3 :: uint

record spinlock =
  lk_locked :: bool
  lk_cpu :: "nat option"

text \<open>One name per spin lock of the kernel; pipes and sleep locks have one lock per object.\<close>

datatype lockid = Lk_ptable | Lk_cons | Lk_log | Lk_ide | Lk_bcache | Lk_icache | Lk_ftable
  | Lk_kmem | Lk_pipe uint | Lk_sleep uint

record machine =
  cpus :: "nat \<Rightarrow> cpu"
  ncpu :: nat
  lapic_id :: "nat \<Rightarrow> uchar"
  eflags_if :: "nat \<Rightarrow> bool"
  locks :: "lockid \<Rightarrow> spinlock"
  ticks :: uint

section \<open>Which core is this\<close>

definition mycpu :: "nat \<Rightarrow> 'a machine_scheme \<Rightarrow> nat res" where
  "mycpu c s =
     (if eflags_if s c then Panic ''mycpu called with interrupts enabled''
      else case find (\<lambda>i. c_apicid (cpus s i) = lapic_id s c) [0..<ncpu s] of
        Some i \<Rightarrow> Ok i
      | None \<Rightarrow> Panic ''unknown apicid'')"

definition cpuid :: "nat \<Rightarrow> 'a machine_scheme \<Rightarrow> nat res" where
  "cpuid c s = mycpu c s"

section \<open>Interrupt nesting\<close>

definition cli :: "nat \<Rightarrow> 'a machine_scheme \<Rightarrow> 'a machine_scheme" where
  "cli c s = s\<lparr>eflags_if := (eflags_if s)(c := False)\<rparr>"

definition sti :: "nat \<Rightarrow> 'a machine_scheme \<Rightarrow> 'a machine_scheme" where
  "sti c s = s\<lparr>eflags_if := (eflags_if s)(c := True)\<rparr>"

definition upd_cpu :: "nat \<Rightarrow> (cpu \<Rightarrow> cpu) \<Rightarrow> 'a machine_scheme \<Rightarrow> 'a machine_scheme" where
  "upd_cpu i f s = s\<lparr>cpus := (cpus s)(i := f (cpus s i))\<rparr>"

definition pushcli :: "nat \<Rightarrow> 'a machine_scheme \<Rightarrow> 'a machine_scheme res" where
  "pushcli c s =
     (let eflags = eflags_if s c; s = cli c s
      in rbind (mycpu c s) (\<lambda>i.
         let s = (if c_ncli (cpus s i) = 0 then upd_cpu i (c_intena_update (\<lambda>_. eflags)) s else s)
         in Ok (upd_cpu i (\<lambda>k. k\<lparr>c_ncli := c_ncli k + 1\<rparr>) s)))"

definition popcli :: "nat \<Rightarrow> 'a machine_scheme \<Rightarrow> 'a machine_scheme res" where
  "popcli c s =
     (if eflags_if s c then Panic ''popcli - interruptible''
      else rbind (mycpu c s) (\<lambda>i.
        let s = upd_cpu i (\<lambda>k. k\<lparr>c_ncli := c_ncli k - 1\<rparr>) s
        in if c_ncli (cpus s i) < 0 then Panic ''popcli''
           else if c_ncli (cpus s i) = 0 \<and> c_intena (cpus s i) then Ok (sti c s)
           else Ok s))"

definition myproc :: "nat \<Rightarrow> 'a machine_scheme \<Rightarrow> (nat option \<times> 'a machine_scheme) res" where
  "myproc c s =
     rbind (pushcli c s) (\<lambda>s.
     rbind (mycpu c s) (\<lambda>i.
     let p = c_proc (cpus s i)
     in rbind (popcli c s) (\<lambda>s. Ok (p, s))))"

section \<open>Locks\<close>

definition initlock :: "lockid \<Rightarrow> 'a machine_scheme \<Rightarrow> 'a machine_scheme" where
  "initlock lk s = s\<lparr>locks := (locks s)(lk := \<lparr>lk_locked = False, lk_cpu = None\<rparr>)\<rparr>"

definition holding :: "nat \<Rightarrow> lockid \<Rightarrow> 'a machine_scheme \<Rightarrow> (bool \<times> 'a machine_scheme) res" where
  "holding c lk s =
     rbind (pushcli c s) (\<lambda>s.
     rbind (mycpu c s) (\<lambda>i.
     let r = (lk_locked (locks s lk) \<and> lk_cpu (locks s lk) = Some i)
     in rbind (popcli c s) (\<lambda>s. Ok (r, s))))"

text \<open>\<open>xchg\<close> on a held lock gives 1 and the loop goes round: it hangs until another core acts.\<close>

definition acquire :: "nat \<Rightarrow> lockid \<Rightarrow> 'a machine_scheme \<Rightarrow> 'a machine_scheme res" where
  "acquire c lk s =
     rbind (pushcli c s) (\<lambda>s.
     rbind (holding c lk s) (\<lambda>(h, s).
     if h then Panic ''acquire''
     else if lk_locked (locks s lk) then Hang
     else
       let s = s\<lparr>locks := (locks s)(lk := (locks s lk)\<lparr>lk_locked := True\<rparr>)\<rparr>
       in rbind (mycpu c s) (\<lambda>i.
          Ok (s\<lparr>locks := (locks s)(lk := (locks s lk)\<lparr>lk_cpu := Some i\<rparr>)\<rparr>))))"

definition release :: "nat \<Rightarrow> lockid \<Rightarrow> 'a machine_scheme \<Rightarrow> 'a machine_scheme res" where
  "release c lk s =
     rbind (holding c lk s) (\<lambda>(h, s).
     if \<not> h then Panic ''release''
     else
       let s = s\<lparr>locks := (locks s)(lk := (locks s lk)\<lparr>lk_cpu := None\<rparr>)\<rparr>;
           s = s\<lparr>locks := (locks s)(lk := (locks s lk)\<lparr>lk_locked := False\<rparr>)\<rparr>
       in popcli c s)"

section \<open>Call stacks\<close>

text \<open>\<open>getcallerpcs\<close> follows saved frame pointers: word \<open>ebp + 4\<close> is the return address.\<close>

definition KERNBASE :: uint where "KERNBASE = 0x80000000"

fun getcallerpcs_loop :: "(uint \<Rightarrow> uint) \<Rightarrow> nat \<Rightarrow> uint \<Rightarrow> uint list" where
  "getcallerpcs_loop mem 0 ebp = []"
| "getcallerpcs_loop mem (Suc k) ebp =
     (if ebp = 0 \<or> ebp < KERNBASE \<or> ebp = 0xffffffff then replicate (Suc k) 0
      else mem (ebp + 4) # getcallerpcs_loop mem k (mem ebp))"

definition getcallerpcs :: "(uint \<Rightarrow> uint) \<Rightarrow> uint \<Rightarrow> uint list" where
  "getcallerpcs mem v = getcallerpcs_loop mem 10 (v - 8)"

section \<open>Closed forms\<close>

definition machine_ok :: "'a machine_scheme \<Rightarrow> bool" where
  "machine_ok s \<longleftrightarrow> inj_on (lapic_id s) {..<ncpu s} \<and>
     (\<forall>i<ncpu s. c_apicid (cpus s i) = lapic_id s i \<and> 0 \<le> c_ncli (cpus s i) \<and>
        (0 < c_ncli (cpus s i) \<longrightarrow> \<not> eflags_if s i))"

definition pushed :: "nat \<Rightarrow> 'a machine_scheme \<Rightarrow> 'a machine_scheme" where
  "pushed c s = s\<lparr>eflags_if := (eflags_if s)(c := False),
     cpus := (cpus s)(c := (cpus s c)
       \<lparr>c_intena := (if c_ncli (cpus s c) = 0 then eflags_if s c else c_intena (cpus s c)),
        c_ncli := c_ncli (cpus s c) + 1\<rparr>)\<rparr>"

definition popped :: "nat \<Rightarrow> 'a machine_scheme \<Rightarrow> 'a machine_scheme" where
  "popped c s = s\<lparr>eflags_if := (eflags_if s)(c := c_ncli (cpus s c) = 1 \<and> c_intena (cpus s c)),
     cpus := (cpus s)(c := (cpus s c)\<lparr>c_ncli := c_ncli (cpus s c) - 1\<rparr>)\<rparr>"

text \<open>A matched pair leaves the core as it was, but for \<open>intena\<close> when the nesting was zero.\<close>

definition touched :: "nat \<Rightarrow> 'a machine_scheme \<Rightarrow> 'a machine_scheme" where
  "touched c s = s\<lparr>cpus := (cpus s)(c := (cpus s c)
     \<lparr>c_intena := (if c_ncli (cpus s c) = 0 then eflags_if s c else c_intena (cpus s c))\<rparr>)\<rparr>"

definition set_lock :: "lockid \<Rightarrow> nat option \<Rightarrow> 'a machine_scheme \<Rightarrow> 'a machine_scheme" where
  "set_lock lk h s =
     s\<lparr>locks := (locks s)(lk := \<lparr>lk_locked = (h \<noteq> None), lk_cpu = h\<rparr>)\<rparr>"

definition held_by :: "lockid \<Rightarrow> 'a machine_scheme \<Rightarrow> nat option" where
  "held_by lk s = (if lk_locked (locks s lk) then lk_cpu (locks s lk) else None)"

definition lock_free :: "lockid \<Rightarrow> 'a machine_scheme \<Rightarrow> bool" where
  "lock_free lk s \<longleftrightarrow> \<not> lk_locked (locks s lk)"

lemma cpu_intena_triv [simp]: "k\<lparr>c_intena := c_intena k\<rparr> = k"
  by (cases k) simp

lemma machine_okD:
  assumes "machine_ok s" "c < ncpu s"
  shows "c_apicid (cpus s c) = lapic_id s c" "0 \<le> c_ncli (cpus s c)"
    "0 < c_ncli (cpus s c) \<Longrightarrow> \<not> eflags_if s c"
  using assms by (auto simp: machine_ok_def)

lemma find_append: "find P (xs @ ys) = (case find P xs of None \<Rightarrow> find P ys | Some x \<Rightarrow> Some x)"
  by (induction xs) auto

lemma find_core:
  assumes "inj_on f {..<n}" "c < n" "\<And>i. i < n \<Longrightarrow> g i = f i"
  shows "find (\<lambda>i. g i = f c) [0..<n] = Some c"
proof -
  have "[0..<n] = [0..<c] @ c # [Suc c..<n]"
    using assms(2) upt_add_eq_append [of 0 c "n - c"] by (simp add: upt_conv_Cons)
  moreover have "find (\<lambda>i. g i = f c) [0..<c] = None"
    using assms by (auto simp: find_None_iff inj_on_def)
  ultimately show ?thesis
    using assms by (simp add: find_append)
qed

lemma mycpu_eq [simp]:
  assumes "machine_ok s" "c < ncpu s" "\<not> eflags_if s c"
  shows "mycpu c s = Ok c"
proof -
  have "find (\<lambda>i. c_apicid (cpus s i) = lapic_id s c) [0..<ncpu s] = Some c"
    by (rule find_core) (use assms in \<open>auto simp: machine_ok_def\<close>)
  then show ?thesis using assms(3) by (simp add: mycpu_def)
qed

lemma cli_triv: "\<not> eflags_if s c \<Longrightarrow> s\<lparr>eflags_if := (eflags_if s)(c := False)\<rparr> = s"
  by (simp add: fun_upd_idem)

lemma cli_simps [simp]:
  "cpus (cli c s) = cpus s" "ncpu (cli c s) = ncpu s" "\<not> eflags_if (cli c s) c"
  by (simp_all add: cli_def)

lemma machine_ok_cli [simp]: "machine_ok s \<Longrightarrow> machine_ok (cli c s)"
  by (auto simp: machine_ok_def cli_def)

lemma pushcli_eq: "machine_ok s \<Longrightarrow> c < ncpu s \<Longrightarrow> pushcli c s = Ok (pushed c s)"
  by (simp add: pushcli_def Let_def) (simp add: pushed_def cli_def upd_cpu_def)

lemma popcli_eq:
  assumes "machine_ok s" "c < ncpu s" "0 < c_ncli (cpus s c)"
  shows "popcli c s = Ok (popped c s)"
proof -
  have "\<not> eflags_if s c" using assms by (simp add: machine_okD)
  then have "(eflags_if s)(c := False) = eflags_if s" by (simp add: fun_upd_idem)
  then show ?thesis
    using assms \<open>\<not> eflags_if s c\<close> by (auto simp: popcli_def popped_def sti_def upd_cpu_def Let_def)
qed

lemma machine_ok_pushed [simp]: "machine_ok s \<Longrightarrow> machine_ok (pushed c s)"
  by (auto simp: machine_ok_def pushed_def)

lemma popped_pushed [simp]:
  assumes "machine_ok s" "c < ncpu s"
  shows "popped c (pushed c s) = touched c s"
proof -
  have "0 < c_ncli (cpus s c) \<Longrightarrow> (eflags_if s)(c := False) = eflags_if s"
    using assms by (simp add: machine_okD fun_upd_idem)
  then show ?thesis
    using machine_okD(2) [OF assms] by (auto simp: popped_def pushed_def touched_def)
qed

lemma pushed_simps [simp]:
  "locks (pushed c s) = locks s" "ncpu (pushed c s) = ncpu s" "ticks (pushed c s) = ticks s"
  "\<not> eflags_if (pushed c s) c" "c_ncli (cpus (pushed c s) c) = c_ncli (cpus s c) + 1"
  "c_proc (cpus (pushed c s) d) = c_proc (cpus s d)"
  "lapic_id (pushed c s) = lapic_id s"
  by (simp_all add: pushed_def)

lemma touched_simps [simp]:
  "locks (touched c s) = locks s" "ncpu (touched c s) = ncpu s" "ticks (touched c s) = ticks s"
  "eflags_if (touched c s) = eflags_if s" "c_ncli (cpus (touched c s) d) = c_ncli (cpus s d)"
  "c_proc (cpus (touched c s) d) = c_proc (cpus s d)"
  "lapic_id (touched c s) = lapic_id s"
  by (simp_all add: touched_def)

lemma popped_simps [simp]:
  "locks (popped c s) = locks s" "ncpu (popped c s) = ncpu s" "ticks (popped c s) = ticks s"
  "c_ncli (cpus (popped c s) c) = c_ncli (cpus s c) - 1"
  "c_proc (cpus (popped c s) d) = c_proc (cpus s d)"
  "lapic_id (popped c s) = lapic_id s"
  by (simp_all add: popped_def)

lemma set_lock_simps [simp]:
  "cpus (set_lock lk h s) = cpus s" "ncpu (set_lock lk h s) = ncpu s"
  "ticks (set_lock lk h s) = ticks s" "eflags_if (set_lock lk h s) = eflags_if s"
  "lapic_id (set_lock lk h s) = lapic_id s"
  by (simp_all add: set_lock_def)

lemma held_by_set_lock [simp]: "held_by l (set_lock lk h s) = (if l = lk then h else held_by l s)"
  by (auto simp: held_by_def set_lock_def)

lemma held_by_cong [simp]:
  "held_by l (pushed c s) = held_by l s" "held_by l (popped c s) = held_by l s"
  "held_by l (touched c s) = held_by l s"
  by (simp_all add: held_by_def)

lemma lock_free_simps [simp]:
  "lock_free l (set_lock lk h s) = (if l = lk then h = None else lock_free l s)"
  "lock_free l (pushed c s) = lock_free l s" "lock_free l (popped c s) = lock_free l s"
  "lock_free l (touched c s) = lock_free l s"
  by (auto simp: lock_free_def set_lock_def)

lemma machine_ok_touched [simp]: "machine_ok s \<Longrightarrow> machine_ok (touched c s)"
  by (auto simp: machine_ok_def touched_def)

lemma machine_ok_set_lock [simp]: "machine_ok (set_lock lk h s) = machine_ok s"
  by (simp add: machine_ok_def)

lemma machine_ok_popped [simp]:
  "machine_ok s \<Longrightarrow> 0 < c_ncli (cpus s c) \<Longrightarrow> machine_ok (popped c s)"
  by (auto simp: machine_ok_def popped_def)

lemma touched_nested: "0 < c_ncli (cpus s c) \<Longrightarrow> touched c s = s"
  by (simp add: touched_def)

lemma touched_pushed [simp]:
  "machine_ok s \<Longrightarrow> c < ncpu s \<Longrightarrow> touched c (pushed c s) = pushed c s"
  using machine_okD(2) [of s c] by (simp add: touched_nested)

lemma ncli_pushed_pos:
  "machine_ok s \<Longrightarrow> c < ncpu s \<Longrightarrow> 0 < c_ncli (cpus (pushed c s) c)"
  using machine_okD(2) [of s c] by simp

text \<open>The bodies between \<open>pushcli\<close> and \<open>popcli\<close> of \<open>holding\<close> and \<open>myproc\<close>.\<close>

lemma holding_eq:
  assumes "machine_ok s" "c < ncpu s"
  shows "holding c lk s = Ok (lk_locked (locks s lk) \<and> lk_cpu (locks s lk) = Some c, touched c s)"
  using assms ncli_pushed_pos [OF assms] by (simp add: holding_def pushcli_eq popcli_eq Let_def)

lemma myproc_eq:
  assumes "machine_ok s" "c < ncpu s"
  shows "myproc c s = Ok (c_proc (cpus s c), touched c s)"
  using assms ncli_pushed_pos [OF assms] by (simp add: myproc_def pushcli_eq popcli_eq Let_def)

definition acquired :: "nat \<Rightarrow> lockid \<Rightarrow> 'a machine_scheme \<Rightarrow> 'a machine_scheme" where
  "acquired c lk s = set_lock lk (Some c) (pushed c s)"

definition released :: "nat \<Rightarrow> lockid \<Rightarrow> 'a machine_scheme \<Rightarrow> 'a machine_scheme" where
  "released c lk s = popped c (set_lock lk None (touched c s))"

lemma spinlock_upd_eq [simp]:
  "(k :: spinlock)\<lparr>lk_locked := b, lk_cpu := h\<rparr> = \<lparr>lk_locked = b, lk_cpu = h\<rparr>"
  "(k :: spinlock)\<lparr>lk_cpu := h, lk_locked := b\<rparr> = \<lparr>lk_locked = b, lk_cpu = h\<rparr>"
  by (cases k; simp)+

lemma acquire_eq:
  assumes "machine_ok s" "c < ncpu s" "lock_free lk s"
  shows "acquire c lk s = Ok (acquired c lk s)"
proof -
  let ?s = "pushed c s"
  have m: "machine_ok (?s\<lparr>locks := x\<rparr>)" for x
    using machine_ok_pushed [OF assms(1), of c] by (simp add: machine_ok_def)
  show ?thesis
    using assms m ncli_pushed_pos [OF assms(1,2)]
    by (simp add: acquire_def acquired_def pushcli_eq holding_eq Let_def set_lock_def lock_free_def)
qed

lemma acquire_mine:
  assumes "machine_ok s" "c < ncpu s" "held_by lk s = Some c"
  shows "acquire c lk s = Panic ''acquire''"
  using assms by (simp add: acquire_def pushcli_eq holding_eq held_by_def split: if_splits)

lemma acquire_other:
  assumes "machine_ok s" "c < ncpu s" "held_by lk s = Some d" "d \<noteq> c"
  shows "acquire c lk s = Hang"
  using assms by (simp add: acquire_def pushcli_eq holding_eq held_by_def split: if_splits)

lemma release_eq:
  assumes "machine_ok s" "c < ncpu s" "held_by lk s = Some c" "0 < c_ncli (cpus s c)"
  shows "release c lk s = Ok (released c lk s)"
proof -
  have m: "machine_ok (touched c s\<lparr>locks := x\<rparr>)" for x
    using machine_ok_touched [OF assms(1), of c] by (simp add: machine_ok_def)
  show ?thesis
    using assms m
    by (simp add: release_def released_def holding_eq held_by_def popcli_eq Let_def set_lock_def
        split: if_splits)
qed

lemma release_not_held:
  assumes "machine_ok s" "c < ncpu s" "held_by lk s \<noteq> Some c"
  shows "release c lk s = Panic ''release''"
  using assms by (simp add: release_def holding_eq held_by_def split: if_splits)

lemma released_nested:
  "0 < c_ncli (cpus s c) \<Longrightarrow> released c lk s = popped c (set_lock lk None s)"
  by (simp add: released_def touched_nested)

lemma popped_set_lock: "popped c (set_lock lk h s) = set_lock lk h (popped c s)"
  by (simp add: popped_def set_lock_def)

lemma set_lock_set_lock [simp]: "set_lock lk h (set_lock lk h' s) = set_lock lk h s"
  by (simp add: set_lock_def)

section \<open>Nested critical sections\<close>

definition unlocked :: "lockid \<Rightarrow> 'a machine_scheme \<Rightarrow> bool" where
  "unlocked lk s \<longleftrightarrow> locks s lk = \<lparr>lk_locked = False, lk_cpu = None\<rparr>"

text \<open>The same machine, but for \<open>intena\<close> of cores outside every critical section.\<close>

definition mach_eq :: "'a machine_scheme \<Rightarrow> 'b machine_scheme \<Rightarrow> bool" where
  "mach_eq s t \<longleftrightarrow> ticks t = ticks s \<and> eflags_if t = eflags_if s \<and> ncpu t = ncpu s \<and> locks t = locks s \<and>
     lapic_id t = lapic_id s \<and>
     (\<forall>d. c_ncli (cpus t d) = c_ncli (cpus s d) \<and> c_apicid (cpus t d) = c_apicid (cpus s d) \<and>
          c_proc (cpus t d) = c_proc (cpus s d) \<and>
          (0 < c_ncli (cpus s d) \<longrightarrow> c_intena (cpus t d) = c_intena (cpus s d)))"

lemma mach_eq_refl [simp]: "mach_eq s s"
  by (simp add: mach_eq_def)

lemma mach_eq_trans: "mach_eq s t \<Longrightarrow> mach_eq t u \<Longrightarrow> mach_eq s u"
  by (auto simp: mach_eq_def)

lemma mach_eqD:
  assumes "mach_eq s t"
  shows "machine_ok t = machine_ok s" "ncpu t = ncpu s" "held_by lk t = held_by lk s" "lock_free lk t = lock_free lk s"
    "unlocked lk t = unlocked lk s" "c_ncli (cpus t d) = c_ncli (cpus s d)" "c_proc (cpus t d) = c_proc (cpus s d)"
    "ticks t = ticks s" "eflags_if t = eflags_if s"
  using assms by (simp_all add: mach_eq_def machine_ok_def held_by_def lock_free_def unlocked_def)

lemma mach_eq_touched: "mach_eq s (touched c s)"
  by (simp add: mach_eq_def touched_def)

lemma mach_section:
  assumes "machine_ok s" "c < ncpu s" "unlocked lk s" "mach_eq (acquired c lk s) t"
  shows "release c lk t = Ok (released c lk t)" "mach_eq s (released c lk t)"
proof -
  let ?a = "acquired c lk s"
  have pos: "0 < c_ncli (cpus ?a c)" using machine_okD(2) [OF assms(1,2)] by (simp add: acquired_def)
  have m: "machine_ok ?a" "held_by lk ?a = Some c" "c < ncpu ?a" using assms(1,2) by (simp_all add: acquired_def)
  have t: "machine_ok t" "held_by lk t = Some c" "c < ncpu t" "0 < c_ncli (cpus t c)"
    using m pos mach_eqD [OF assms(4)] by simp_all
  show "release c lk t = Ok (released c lk t)" by (rule release_eq [OF t(1,3,2,4)])
  have e: "released c lk t = popped c (set_lock lk None t)" by (rule released_nested [OF t(4)])
  have ncli: "c_ncli (cpus t d) = c_ncli (cpus ?a d)" "c_apicid (cpus t d) = c_apicid (cpus ?a d)"
    "c_proc (cpus t d) = c_proc (cpus ?a d)"
    "0 < c_ncli (cpus ?a d) \<Longrightarrow> c_intena (cpus t d) = c_intena (cpus ?a d)" for d
    using assms(4) by (simp_all add: mach_eq_def)
  have fields: "ticks t = ticks s" "ncpu t = ncpu s" "lapic_id t = lapic_id s"
    "locks t = (locks s)(lk := \<lparr>lk_locked = True, lk_cpu = Some c\<rparr>)" "eflags_if t = (eflags_if s)(c := False)"
    using assms(4) by (simp_all add: mach_eq_def acquired_def set_lock_def pushed_def)
  have locks: "locks (released c lk t) = locks s"
    using assms(3) unfolding e by (simp add: popped_def set_lock_def fields(4) unlocked_def fun_upd_idem)
  have ie: "c_intena (cpus t c) = (if c_ncli (cpus s c) = 0 then eflags_if s c else c_intena (cpus s c))"
    using ncli(4) [OF pos] by (simp add: acquired_def pushed_def)
  have flag: "eflags_if (released c lk t) = eflags_if s"
  proof
    fix d
    have "c_ncli (cpus t c) = c_ncli (cpus s c) + 1" using ncli(1) [of c] by (simp add: acquired_def)
    moreover have "c_ncli (cpus s c) \<noteq> 0 \<Longrightarrow> \<not> eflags_if s c"
      using machine_okD(2,3) [OF assms(1,2)] by auto
    ultimately show "eflags_if (released c lk t) d = eflags_if s d"
      unfolding e using ie by (auto simp: popped_def set_lock_def fields(5))
  qed
  have cpu: "c_ncli (cpus (released c lk t) d) = c_ncli (cpus s d) \<and> c_apicid (cpus (released c lk t) d) = c_apicid (cpus s d) \<and>
      c_proc (cpus (released c lk t) d) = c_proc (cpus s d) \<and>
      (0 < c_ncli (cpus s d) \<longrightarrow> c_intena (cpus (released c lk t) d) = c_intena (cpus s d))" for d
    using ncli [of d] ie unfolding e
    by (cases "d = c") (auto simp: popped_def set_lock_def acquired_def pushed_def)
  have "ticks (released c lk t) = ticks s" "ncpu (released c lk t) = ncpu s" "lapic_id (released c lk t) = lapic_id s"
    unfolding e by (simp_all add: popped_def set_lock_def fields)
  then show "mach_eq s (released c lk t)" using locks flag cpu by (simp add: mach_eq_def)
qed

section \<open>The lock discipline over whole runs\<close>

text \<open>Any core may acquire or release any lock; a step that panics or spins gives no next state.\<close>

inductive lock_step :: "machine \<Rightarrow> machine \<Rightarrow> bool" where
  lock_acquire: "c < ncpu s \<Longrightarrow> acquire c lk s = Ok t \<Longrightarrow> lock_step s t"
| lock_release: "c < ncpu s \<Longrightarrow> release c lk s = Ok t \<Longrightarrow> lock_step s t"

definition locks_of :: "nat \<Rightarrow> 'a machine_scheme \<Rightarrow> lockid set" where
  "locks_of c s = {lk. held_by lk s = Some c}"

definition lock_inv :: "'a machine_scheme \<Rightarrow> bool" where
  "lock_inv s \<longleftrightarrow> machine_ok s \<and> (\<forall>lk. lk_locked (locks s lk) = (lk_cpu (locks s lk) \<noteq> None)) \<and>
     (\<forall>c<ncpu s. finite (locks_of c s) \<and> c_ncli (cpus s c) = int (card (locks_of c s)))"

lemma locks_of_set_lock:
  "locks_of c (set_lock lk h s) =
     (if h = Some c then insert lk (locks_of c s) else locks_of c s - {lk})"
  by (auto simp: locks_of_def split: if_splits)

lemma locks_of_cong [simp]:
  "locks_of d (pushed c s) = locks_of d s" "locks_of d (popped c s) = locks_of d s"
  "locks_of d (touched c s) = locks_of d s"
  by (simp_all add: locks_of_def)

lemma lock_free_held: "lock_free lk s \<Longrightarrow> held_by lk s = None"
  by (simp add: lock_free_def held_by_def)

lemma ncli_upd [simp]:
  "c_ncli (cpus (pushed c s) d) = c_ncli (cpus s d) + (if d = c then 1 else 0)"
  "c_ncli (cpus (popped c s) d) = c_ncli (cpus s d) - (if d = c then 1 else 0)"
  by (auto simp: pushed_def popped_def)

lemma lock_inv_acquired:
  assumes "lock_inv s" "c < ncpu s" "lock_free lk s"
  shows "lock_inv (acquired c lk s)"
proof -
  have "lk \<notin> locks_of d s" for d
    using assms(3) by (simp add: locks_of_def lock_free_held)
  moreover have "\<forall>l. lk_locked (locks (acquired c lk s) l) = (lk_cpu (locks (acquired c lk s) l) \<noteq> None)"
    using assms(1) by (simp add: lock_inv_def acquired_def set_lock_def)
  ultimately show ?thesis
    using assms by (auto simp: lock_inv_def acquired_def locks_of_set_lock)
qed

lemma held_ncli_pos:
  assumes "lock_inv s" "c < ncpu s" "held_by lk s = Some c"
  shows "0 < c_ncli (cpus s c)"
proof -
  have "lk \<in> locks_of c s" using assms(3) by (simp add: locks_of_def)
  with assms show ?thesis by (auto simp: lock_inv_def card_gt_0_iff)
qed

lemma lock_inv_released:
  assumes "lock_inv s" "c < ncpu s" "held_by lk s = Some c"
  shows "lock_inv (released c lk s)"
proof -
  have pos: "0 < c_ncli (cpus s c)" using assms by (rule held_ncli_pos)
  have m: "lk \<in> locks_of c s" and "\<And>d. d \<noteq> c \<Longrightarrow> lk \<notin> locks_of d s"
    using assms(3) by (simp_all add: locks_of_def)
  moreover have "\<forall>l. lk_locked (locks (released c lk s) l) = (lk_cpu (locks (released c lk s) l) \<noteq> None)"
    using assms(1) by (simp add: lock_inv_def released_def set_lock_def)
  ultimately show ?thesis
    using assms pos by (auto simp: lock_inv_def released_nested locks_of_set_lock card_Diff_singleton
        card_gt_0_iff of_nat_diff Suc_leI)
qed

lemma lock_step_inv:
  assumes "lock_step s t" "lock_inv s"
  shows "lock_inv t"
  using assms
proof (induction rule: lock_step.induct)
  case (lock_acquire c s lk t)
  then have m: "machine_ok s" by (simp add: lock_inv_def)
  show ?case
  proof (cases "held_by lk s")
    case None
    with lock_acquire have "lock_free lk s"
      by (auto simp: lock_inv_def held_by_def lock_free_def split: if_splits)
    with lock_acquire m show ?thesis by (auto simp: acquire_eq intro: lock_inv_acquired)
  next
    case (Some d)
    with lock_acquire m show ?thesis
      by (cases "d = c") (auto simp: acquire_mine acquire_other)
  qed
next
  case (lock_release c s lk t)
  then have m: "machine_ok s" by (simp add: lock_inv_def)
  with lock_release have h: "held_by lk s = Some c"
    by (cases "held_by lk s = Some c") (auto simp: release_not_held)
  with lock_release m show ?case
    by (auto simp: release_eq held_ncli_pos intro: lock_inv_released)
qed

definition boot_machine :: "nat \<Rightarrow> machine" where
  "boot_machine n = \<lparr>cpus = (\<lambda>i. \<lparr>c_apicid = of_nat i, c_ncli = 0, c_intena = False, c_proc = None,
       c_esp0 = 0, c_cr3 = 0\<rparr>),
     ncpu = n, lapic_id = of_nat, eflags_if = (\<lambda>_. True),
     locks = (\<lambda>_. \<lparr>lk_locked = False, lk_cpu = None\<rparr>), ticks = 0\<rparr>"

lemma machine_ok_boot: "n \<le> 8 \<Longrightarrow> machine_ok (boot_machine n)"
  by (auto simp: machine_ok_def boot_machine_def inj_on_def word_of_nat_eq_iff take_bit_nat_eq_self)

lemma lock_inv_boot: "n \<le> 8 \<Longrightarrow> lock_inv (boot_machine n)"
  by (simp add: lock_inv_def machine_ok_boot) (simp add: boot_machine_def locks_of_def held_by_def)

lemma ncpu_lock_step: "lock_step s t \<Longrightarrow> lock_inv s \<Longrightarrow> ncpu t = ncpu s"
proof (induction rule: lock_step.induct)
  case (lock_acquire c s lk t)
  then show ?case
    by (cases "held_by lk s = None"; cases "held_by lk s = Some c")
      (auto simp: acquire_eq acquire_mine acquire_other lock_inv_def held_by_def lock_free_def
        acquired_def split: if_splits)
next
  case (lock_release c s lk t)
  then have "machine_ok s" by (simp add: lock_inv_def)
  with lock_release show ?case
    by (cases "held_by lk s = Some c")
      (auto simp: release_eq release_not_held held_ncli_pos released_def)
qed

lemma lock_run_inv:
  "lock_step\<^sup>*\<^sup>* s t \<Longrightarrow> lock_inv s \<Longrightarrow> lock_inv t \<and> ncpu t = ncpu s"
  by (induction rule: rtranclp_induct) (auto simp: ncpu_lock_step intro: lock_step_inv)

text \<open>
  Property C9. From the boot state, whatever the cores acquire and release in whatever order, a
  core that holds a spin lock has its interrupts off and its \<open>ncli\<close> counts the locks it holds.
\<close>

theorem interrupts_off_while_locked:
  assumes "n \<le> 8" "lock_step\<^sup>*\<^sup>* (boot_machine n) t" "c < n" "held_by lk t = Some c"
  shows "\<not> eflags_if t c \<and> c_ncli (cpus t c) = int (card (locks_of c t))"
proof -
  from lock_run_inv [OF assms(2) lock_inv_boot [OF assms(1)]]
  have "lock_inv t" and c: "c < ncpu t" using assms(3) by (auto simp: boot_machine_def)
  then show ?thesis
    using held_ncli_pos [OF _ c assms(4)] machine_okD(3) [OF _ c] c by (auto simp: lock_inv_def)
qed

lemma boot_acquire: "acquire 0 Lk_ptable (boot_machine 1) = Ok (acquired 0 Lk_ptable (boot_machine 1))"
  by (rule acquire_eq) (simp_all add: machine_ok_boot, simp_all add: boot_machine_def lock_free_def)

theorem interrupts_off_while_locked_witness:
  "lock_step\<^sup>*\<^sup>* (boot_machine 1) (acquired 0 Lk_ptable (boot_machine 1)) \<and>
   \<not> eflags_if (acquired 0 Lk_ptable (boot_machine 1)) 0"
proof -
  let ?t = "acquired 0 Lk_ptable (boot_machine 1)"
  have step: "lock_step\<^sup>*\<^sup>* (boot_machine 1) ?t"
    by (rule r_into_rtranclp) (rule lock_step.lock_acquire [OF _ boot_acquire], simp add: boot_machine_def)
  moreover have "held_by Lk_ptable ?t = Some 0" by (simp add: acquired_def)
  ultimately show ?thesis
    using interrupts_off_while_locked [OF _ step, of 0 Lk_ptable] by simp
qed

text \<open>
  Property C15. Taking and giving back a free lock leaves the core with the interrupt flag, the
  nesting depth and the current process it had, and the lock free.
\<close>

theorem acquire_release_restores:
  assumes "machine_ok s" "c < ncpu s" "lock_free lk s"
  shows "wp (rbind (acquire c lk s) (release c lk)) (\<lambda>t. lock_free lk t \<and> eflags_if t = eflags_if s \<and>
    (\<forall>d. c_ncli (cpus t d) = c_ncli (cpus s d) \<and> c_proc (cpus t d) = c_proc (cpus s d)))"
proof -
  let ?a = "acquired c lk s"
  have pos: "0 < c_ncli (cpus ?a c)"
    using machine_okD(2) [OF assms(1,2)] by (simp add: acquired_def)
  have "release c lk ?a = Ok (released c lk ?a)"
    by (rule release_eq) (use assms pos in \<open>simp_all add: acquired_def\<close>)
  moreover have "released c lk ?a = set_lock lk None (touched c s)"
    using pos assms by (simp add: released_nested) (simp add: acquired_def popped_set_lock)
  ultimately show ?thesis
    using assms by (simp add: acquire_eq)
qed

theorem acquire_release_restores_witness:
  "lock_free Lk_cons (boot_machine 2) \<and>
   wp (rbind (acquire 1 Lk_cons (boot_machine 2)) (release 1 Lk_cons)) (lock_free Lk_cons)"
proof -
  have f: "lock_free Lk_cons (boot_machine 2)" by (simp add: boot_machine_def lock_free_def)
  have "machine_ok (boot_machine 2)" by (simp add: machine_ok_boot)
  then show ?thesis
    using f wp_mono [OF acquire_release_restores [of "boot_machine 2" 1 Lk_cons]]
    by (simp add: boot_machine_def)
qed

text \<open>
  Property C16. \<open>acquire\<close> succeeds exactly on a free lock; on a lock the core already holds it
  panics, on a lock of another core it spins, and \<open>release\<close> of a lock not held panics.
\<close>

theorem acquire_outcomes:
  assumes "lock_inv s" "c < ncpu s"
  shows "(held_by lk s = None \<longrightarrow> acquire c lk s = Ok (acquired c lk s)) \<and>
    (held_by lk s = Some c \<longrightarrow> acquire c lk s = Panic ''acquire'') \<and>
    (\<forall>d. held_by lk s = Some d \<and> d \<noteq> c \<longrightarrow> acquire c lk s = Hang) \<and>
    (held_by lk s \<noteq> Some c \<longrightarrow> release c lk s = Panic ''release'')"
proof -
  have m: "machine_ok s" using assms(1) by (simp add: lock_inv_def)
  have "held_by lk s = None \<Longrightarrow> lock_free lk s"
    using assms(1) by (auto simp: lock_inv_def held_by_def lock_free_def split: if_splits)
  with m assms(2) show ?thesis
    by (auto simp: acquire_eq acquire_mine acquire_other release_not_held)
qed

theorem acquire_outcomes_witness:
  "acquire 0 Lk_log (boot_machine 1) = Ok (acquired 0 Lk_log (boot_machine 1)) \<and>
   release 0 Lk_log (boot_machine 1) = Panic ''release''"
  using acquire_outcomes [OF lock_inv_boot, of 1 0 Lk_log]
  by (simp add: boot_machine_def held_by_def)

lemma length_getcallerpcs_loop: "length (getcallerpcs_loop mem k ebp) = k"
  by (induction mem k ebp rule: getcallerpcs_loop.induct) auto

text \<open>The call stack always has ten entries, and a frame pointer below the kernel ends it.\<close>

lemma getcallerpcs_spec:
  "length (getcallerpcs mem v) = 10"
  "v - 8 < KERNBASE \<Longrightarrow> getcallerpcs mem v = replicate 10 0"
  by (simp_all add: getcallerpcs_def length_getcallerpcs_loop eval_nat_numeral)

end
