(* ===== verification/Proc_Lists.thy ===== *)
theory Proc_Lists
  imports Spinlock
begin

text \<open>
  The process table of \<open>proc.c\<close> (\<open>struct proc\<close> of \<open>proc.h\<close>, \<open>ptable\<close>) and its state lists:
  \<open>stateListAdd\<close>, \<open>stateListRemove\<close>, \<open>initProcessLists\<close>, \<open>initFreeList\<close>, \<open>assertState\<close>.
  A \<open>struct proc *\<close> is the index of the slot in \<open>ptable.proc\<close> (\<open>None\<close> is NULL). The lists are
  threaded through \<open>p_next\<close> as in the code; \<open>view\<close> reads a list off the memory, and the lemmas show
  that the two operations are \<open>append\<close> and \<open>remove\<close> on it.
\<close>

section \<open>Data\<close>

definition NPROC :: nat where "NPROC = 64"
definition MAXPRIO :: int where "MAXPRIO = 6"
definition DEFAULTPRIO :: int where "DEFAULTPRIO = 0"
definition BUDGET :: uint where "BUDGET = 1000000"
definition TICKS_TO_PROMOTE :: uint where "TICKS_TO_PROMOTE = 3000"
definition NOFILE :: nat where "NOFILE = 16"

datatype procstate = UNUSED | EMBRYO | SLEEPING | RUNNABLE | RUNNING | ZOMBIE

text \<open>What a process can sleep on: a process slot, \<open>&ticks\<close>, \<open>&input.r\<close>, \<open>&log\<close>, or another kernel object at its address.\<close>

datatype chan = Ch_proc nat | Ch_ticks | Ch_input | Ch_log | Ch_addr uint

text \<open>
  The saved kernel context of a process is the point where \<open>swtch\<close> comes back: the start of
  \<open>forkret\<close>, or the rest of \<open>sched\<close> (which restores \<open>intena\<close>) inside \<open>yield\<close>, \<open>sleep\<close> or \<open>exit\<close>.
\<close>

datatype kcont = K_none | K_forkret | K_yield bool | K_sleep bool "lockid option" | K_exit bool

record trapframe =
  tf_edi :: uint
  tf_esi :: uint
  tf_ebp :: uint
  tf_oesp :: uint
  tf_ebx :: uint
  tf_edx :: uint
  tf_ecx :: uint
  tf_eax :: uint
  tf_gs :: ushort
  tf_fs :: ushort
  tf_es :: ushort
  tf_ds :: ushort
  tf_trapno :: uint
  tf_err :: uint
  tf_eip :: uint
  tf_cs :: ushort
  tf_eflags :: uint
  tf_esp :: uint
  tf_ss :: ushort

record proc =
  p_sz :: uint
  p_pgdir :: uint
  p_kstack :: uint
  p_state :: procstate
  p_pid :: uint
  p_parent :: ptr
  p_tf :: trapframe
  p_context :: kcont
  p_chan :: "chan option"
  p_killed :: bool
  p_ofile :: "nat \<Rightarrow> nat option"
  p_cwd :: "nat option"
  p_name :: string
  p_start_ticks :: uint
  p_uid :: uint
  p_gid :: uint
  p_cpu_ticks_total :: uint
  p_cpu_ticks_in :: uint
  p_next :: ptr
  p_priority :: int
  p_budget :: uint

record ptrs =
  q_head :: ptr
  q_tail :: ptr

record kstate = machine +
  procs :: "nat \<Rightarrow> proc"
  plist :: "procstate \<Rightarrow> ptrs"
  ready :: "nat \<Rightarrow> ptrs"
  PromoteAtTime :: uint
  initproc :: ptr
  nextpid :: uint
  kpgdir :: uint
  first :: bool

text \<open>\<open>&ptable.list[st]\<close> and \<open>&ptable.ready[i]\<close>.\<close>

datatype listref = SL procstate | RL nat

definition get_ptrs :: "listref \<Rightarrow> 'a kstate_scheme \<Rightarrow> ptrs" where
  "get_ptrs l s = (case l of SL st \<Rightarrow> plist s st | RL i \<Rightarrow> ready s i)"

definition set_ptrs :: "listref \<Rightarrow> ptrs \<Rightarrow> 'a kstate_scheme \<Rightarrow> 'a kstate_scheme" where
  "set_ptrs l q s = (case l of SL st \<Rightarrow> s\<lparr>plist := (plist s)(st := q)\<rparr>
                             | RL i \<Rightarrow> s\<lparr>ready := (ready s)(i := q)\<rparr>)"

text \<open>An index outside \<open>ready[MAXPRIO+1]\<close> is undefined behaviour.\<close>

definition ready_at :: "int \<Rightarrow> listref res" where
  "ready_at prio = (if 0 \<le> prio \<and> prio \<le> MAXPRIO then Ok (RL (nat prio)) else Undef)"

definition upd_proc :: "nat \<Rightarrow> (proc \<Rightarrow> proc) \<Rightarrow> 'a kstate_scheme \<Rightarrow> 'a kstate_scheme" where
  "upd_proc p f s = s\<lparr>procs := (procs s)(p := f (procs s p))\<rparr>"

section \<open>List operations\<close>

definition stateListAdd :: "listref \<Rightarrow> nat \<Rightarrow> 'a kstate_scheme \<Rightarrow> 'a kstate_scheme res" where
  "stateListAdd l p s =
     (case q_head (get_ptrs l s) of
        None \<Rightarrow> Ok (upd_proc p (p_next_update (\<lambda>_. None))
                  (set_ptrs l \<lparr>q_head = Some p, q_tail = Some p\<rparr> s))
      | Some h \<Rightarrow>
         (case q_tail (get_ptrs l s) of
            None \<Rightarrow> Undef
          | Some t \<Rightarrow>
             let s = upd_proc t (p_next_update (\<lambda>_. Some p)) s;
                 s = set_ptrs l \<lparr>q_head = Some h, q_tail = p_next (procs s t)\<rparr> s
             in case q_tail (get_ptrs l s) of
                  None \<Rightarrow> Undef
                | Some t' \<Rightarrow> Ok (upd_proc t' (p_next_update (\<lambda>_. None)) s)))"

text \<open>
  The search loop. All list nodes are slots of the table, so a search that has looked at
  \<open>NPROC + 1\<close> nodes without meeting \<open>p\<close> or NULL is on a cycle and never ends.
\<close>

fun slr_find :: "nat \<Rightarrow> (nat \<Rightarrow> ptr) \<Rightarrow> ptr \<Rightarrow> ptr \<Rightarrow> nat \<Rightarrow> (ptr \<times> ptr) res" where
  "slr_find 0 nx previous current p = Hang"
| "slr_find (Suc k) nx previous current p =
     (case current of
        None \<Rightarrow> Ok (previous, None)
      | Some x \<Rightarrow> if x = p then Ok (previous, Some x) else slr_find k nx (Some x) (nx x) p)"

definition stateListRemove :: "listref \<Rightarrow> ptr \<Rightarrow> 'a kstate_scheme \<Rightarrow> (int \<times> 'a kstate_scheme) res" where
  "stateListRemove l pp s =
     (case (q_head (get_ptrs l s), q_tail (get_ptrs l s), pp) of
        (Some h, Some t, Some p) \<Rightarrow>
          if h = p then
            Ok (0, set_ptrs l \<lparr>q_head = p_next (procs s h), q_tail = (if t = p then None else Some t)\<rparr> s)
          else
            rbind (slr_find (Suc NPROC) (\<lambda>i. p_next (procs s i)) None (Some h) p) (\<lambda>(previous, current).
            case current of
              None \<Rightarrow> Ok (-1, s)
            | Some x \<Rightarrow>
               (case previous of
                  None \<Rightarrow> Undef
                | Some v \<Rightarrow>
                   let s = (if x = t
                            then upd_proc v (p_next_update (\<lambda>_. None)) (set_ptrs l \<lparr>q_head = Some h, q_tail = Some v\<rparr> s)
                            else upd_proc v (p_next_update (\<lambda>_. p_next (procs s x))) s)
                   in Ok (0, upd_proc p (p_next_update (\<lambda>_. None)) s)))
      | _ \<Rightarrow> Ok (-1, s))"

definition assertState :: "nat \<Rightarrow> procstate \<Rightarrow> 'a kstate_scheme \<Rightarrow> unit res" where
  "assertState p st s =
     (if p_state (procs s p) = st then Ok ()
      else Panic ''Error: Process state incorrect in assertState()'')"

definition initProcessLists :: "'a kstate_scheme \<Rightarrow> 'a kstate_scheme" where
  "initProcessLists s =
     s\<lparr>plist := (\<lambda>_. \<lparr>q_head = None, q_tail = None\<rparr>),
       ready := (\<lambda>i. if int i \<le> MAXPRIO then \<lparr>q_head = None, q_tail = None\<rparr> else ready s i)\<rparr>"

fun initFreeList_from :: "nat list \<Rightarrow> 'a kstate_scheme \<Rightarrow> 'a kstate_scheme res" where
  "initFreeList_from [] s = Ok s"
| "initFreeList_from (p # ps) s =
     rbind (stateListAdd (SL UNUSED) p (upd_proc p (p_state_update (\<lambda>_. UNUSED)) s)) (initFreeList_from ps)"

definition initFreeList :: "'a kstate_scheme \<Rightarrow> 'a kstate_scheme res" where
  "initFreeList s = initFreeList_from [0..<NPROC] s"

section \<open>Lists read off the memory\<close>

definition nx :: "'a kstate_scheme \<Rightarrow> nat \<Rightarrow> ptr" where
  "nx s = (\<lambda>i. p_next (procs s i))"

definition view :: "'a kstate_scheme \<Rightarrow> listref \<Rightarrow> nat list" where
  "view s l = walk NPROC (nx s) (q_head (get_ptrs l s))"

definition last_ptr :: "nat list \<Rightarrow> ptr" where
  "last_ptr xs = (if xs = [] then None else Some (last xs))"

text \<open>\<open>is_queue s l xs\<close>: the list \<open>l\<close> in memory holds exactly \<open>xs\<close>, head and tail included.\<close>

definition is_queue :: "'a kstate_scheme \<Rightarrow> listref \<Rightarrow> nat list \<Rightarrow> bool" where
  "is_queue s l xs \<longleftrightarrow> linked (nx s) (q_head (get_ptrs l s)) xs \<and> q_tail (get_ptrs l s) = last_ptr xs"

text \<open>A slot without its link: what the list operations leave alone.\<close>

definition core :: "'a kstate_scheme \<Rightarrow> nat \<Rightarrow> proc" where
  "core s p = (procs s p)\<lparr>p_next := None\<rparr>"

definition same_rest :: "'a kstate_scheme \<Rightarrow> 'a kstate_scheme \<Rightarrow> bool" where
  "same_rest s t \<longleftrightarrow> cpus t = cpus s \<and> ncpu t = ncpu s \<and> lapic_id t = lapic_id s \<and>
     eflags_if t = eflags_if s \<and> locks t = locks s \<and> ticks t = ticks s \<and>
     PromoteAtTime t = PromoteAtTime s \<and> initproc t = initproc s \<and> nextpid t = nextpid s \<and>
     kpgdir t = kpgdir s \<and> first t = first s \<and> kstate.more t = kstate.more s"

section \<open>Basic facts\<close>

lemma ptrs_get_set [simp]:
  "get_ptrs l (set_ptrs m q s) = (if l = m then q else get_ptrs l s)"
  "procs (set_ptrs m q s) = procs s" "nx (set_ptrs m q s) = nx s"
  by (auto simp: get_ptrs_def set_ptrs_def nx_def split: listref.splits)

lemma upd_proc_simps [simp]:
  "get_ptrs l (upd_proc p f s) = get_ptrs l s"
  "procs (upd_proc p f s) = (procs s)(p := f (procs s p))"
  by (simp_all add: get_ptrs_def upd_proc_def cong: listref.case_cong)

lemma nx_upd_next [simp]: "nx (upd_proc p (p_next_update (\<lambda>_. v)) s) = (nx s)(p := v)"
  by (auto simp: nx_def)

lemma nx_upd_other: "(\<And>k. p_next (f k) = p_next k) \<Longrightarrow> nx (upd_proc p f s) = nx s"
  by (auto simp: nx_def)

lemma core_set_ptrs [simp]: "core (set_ptrs l q s) = core s"
  by (auto simp: core_def)

lemma core_upd_next [simp]: "core (upd_proc p (p_next_update g) s) = core s"
  by (auto simp: core_def)

lemma core_upd_proc:
  assumes "\<And>k g. f (p_next_update g k) = p_next_update g (f k)"
  shows "core (upd_proc p f s) = (core s)(p := f (core s p))"
  using assms [of "\<lambda>_. None" "procs s p"] by (auto simp: core_def)

lemma core_sel [simp]:
  "p_sz (core s p) = p_sz (procs s p)" "p_pgdir (core s p) = p_pgdir (procs s p)"
  "p_kstack (core s p) = p_kstack (procs s p)" "p_state (core s p) = p_state (procs s p)"
  "p_pid (core s p) = p_pid (procs s p)" "p_parent (core s p) = p_parent (procs s p)"
  "p_context (core s p) = p_context (procs s p)" "p_chan (core s p) = p_chan (procs s p)"
  "p_killed (core s p) = p_killed (procs s p)" "p_name (core s p) = p_name (procs s p)"
  "p_uid (core s p) = p_uid (procs s p)" "p_gid (core s p) = p_gid (procs s p)"
  "p_cpu_ticks_total (core s p) = p_cpu_ticks_total (procs s p)"
  "p_cpu_ticks_in (core s p) = p_cpu_ticks_in (procs s p)"
  "p_priority (core s p) = p_priority (procs s p)" "p_budget (core s p) = p_budget (procs s p)"
  "p_tf (core s p) = p_tf (procs s p)" "p_ofile (core s p) = p_ofile (procs s p)"
  "p_cwd (core s p) = p_cwd (procs s p)" "p_start_ticks (core s p) = p_start_ticks (procs s p)"
  by (simp_all add: core_def)

lemma core_eqD:
  assumes "core t = core s"
  shows "p_state (procs t p) = p_state (procs s p)" "p_priority (procs t p) = p_priority (procs s p)"
    "p_parent (procs t p) = p_parent (procs s p)" "p_pid (procs t p) = p_pid (procs s p)"
    "p_chan (procs t p) = p_chan (procs s p)" "p_killed (procs t p) = p_killed (procs s p)"
    "p_budget (procs t p) = p_budget (procs s p)" "p_context (procs t p) = p_context (procs s p)"
  using fun_cong [OF assms, of p] by (simp_all flip: core_sel)

lemma same_rest_refl [simp]: "same_rest s s"
  by (simp add: same_rest_def)

lemma same_rest_upd [simp]:
  "same_rest s (set_ptrs l q t) = same_rest s t" "same_rest s (upd_proc p f t) = same_rest s t"
  by (simp_all add: same_rest_def set_ptrs_def upd_proc_def split: listref.splits)

lemma same_rest_trans: "same_rest s t \<Longrightarrow> same_rest t u \<Longrightarrow> same_rest s u"
  by (simp add: same_rest_def)

lemma same_rest_sel:
  assumes "same_rest s t"
  shows "cpus t = cpus s" "ncpu t = ncpu s" "lapic_id t = lapic_id s" "eflags_if t = eflags_if s"
    "locks t = locks s" "ticks t = ticks s" "PromoteAtTime t = PromoteAtTime s"
    "initproc t = initproc s" "nextpid t = nextpid s" "kpgdir t = kpgdir s" "first t = first s"
  using assms by (simp_all add: same_rest_def)

lemma last_ptr_simps [simp]:
  "last_ptr [] = None" "last_ptr (xs @ [p]) = Some p" "last_ptr [p] = Some p"
  "xs \<noteq> [] \<Longrightarrow> last_ptr xs = Some (last xs)"
  by (simp_all add: last_ptr_def)

lemma is_queue_empty: "is_queue s l [] \<longleftrightarrow> get_ptrs l s = \<lparr>q_head = None, q_tail = None\<rparr>"
  by (cases "get_ptrs l s") (auto simp: is_queue_def)

lemma is_queue_head: "is_queue s l (x # xs) \<Longrightarrow> q_head (get_ptrs l s) = Some x"
  by (simp add: is_queue_def)

lemma is_queue_unique: "is_queue s l xs \<Longrightarrow> is_queue s l ys \<Longrightarrow> xs = ys"
  by (auto simp: is_queue_def dest: linked_unique)

lemma is_queue_distinct: "is_queue s l xs \<Longrightarrow> distinct xs"
  by (auto simp: is_queue_def dest: linked_distinct)

lemma is_queue_view:
  "is_queue s l xs \<Longrightarrow> set xs \<subseteq> {..<NPROC} \<Longrightarrow> view s l = xs"
  using length_bounded [of xs NPROC] walk_linked [of "nx s" _ xs NPROC]
  by (simp add: is_queue_def view_def linked_distinct)

lemma is_queue_cong:
  "get_ptrs l t = get_ptrs l s \<Longrightarrow> (\<And>x. x \<in> set xs \<Longrightarrow> nx t x = nx s x) \<Longrightarrow>
   is_queue t l xs = is_queue s l xs"
  using linked_cong [of xs "nx t" "nx s"] by (auto simp: is_queue_def)

section \<open>The operations on memory are list operations\<close>

lemma stateListAdd_spec:
  assumes "is_queue s l xs" "p \<notin> set xs"
  shows "wp (stateListAdd l p s) (\<lambda>t. is_queue t l (xs @ [p]) \<and> core t = core s \<and> same_rest s t \<and>
    (\<forall>m ys. m \<noteq> l \<longrightarrow> set ys \<inter> insert p (set xs) = {} \<longrightarrow> is_queue t m ys = is_queue s m ys))"
proof (cases "xs = []")
  case True
  with assms have e: "get_ptrs l s = \<lparr>q_head = None, q_tail = None\<rparr>" by (simp add: is_queue_empty)
  have "is_queue (upd_proc p (p_next_update (\<lambda>_. None)) (set_ptrs l \<lparr>q_head = Some p, q_tail = Some p\<rparr> s)) m ys
      = is_queue s m ys" if "m \<noteq> l" "set ys \<inter> insert p (set xs) = {}" for m ys
    using that by (intro is_queue_cong) auto
  with True e show ?thesis
    by (auto simp: stateListAdd_def is_queue_def)
next
  case False
  then obtain h ys where xs: "xs = h # ys" by (cases xs) auto
  let ?t = "last xs"
  have q: "q_head (get_ptrs l s) = Some h" "q_tail (get_ptrs l s) = Some ?t"
    using assms(1) False by (auto simp: is_queue_def xs)
  define t where "t = upd_proc p (p_next_update (\<lambda>_. None))
    (set_ptrs l \<lparr>q_head = Some h, q_tail = Some p\<rparr> (upd_proc ?t (p_next_update (\<lambda>_. Some p)) s))"
  have add: "stateListAdd l p s = Ok t"
    using q by (simp add: stateListAdd_def Let_def t_def)
  have nt: "nx t = (nx s)(?t := Some p, p := None)"
    by (simp add: t_def)
  have "linked (nx t) (Some h) (xs @ [p])"
    using linked_snoc [of "nx s" "Some h" xs p] assms q False by (simp add: nt is_queue_def)
  moreover have "get_ptrs l t = \<lparr>q_head = Some h, q_tail = Some p\<rparr>"
    by (simp add: t_def)
  ultimately have "is_queue t l (xs @ [p])" by (simp add: is_queue_def)
  moreover have "is_queue t m ys = is_queue s m ys"
    if "m \<noteq> l" "set ys \<inter> insert p (set xs) = {}" for m ys
  proof (rule is_queue_cong)
    show "get_ptrs m t = get_ptrs m s" using that by (simp add: t_def)
    show "nx t x = nx s x" if "x \<in> set ys" for x
      using that \<open>set ys \<inter> _ = {}\<close> False by (auto simp: nt)
  qed
  moreover have "core t = core s" by (simp add: t_def)
  moreover have "same_rest s t" by (simp add: t_def)
  ultimately show ?thesis by (simp add: add)
qed

lemma slr_find_spec:
  assumes "linked n cur xs" "length xs < k" "p \<in> set xs"
  shows "\<exists>us ws. xs = us @ p # ws \<and> p \<notin> set us \<and>
     slr_find k n prev cur p = Ok (if us = [] then prev else Some (last us), Some p)"
  using assms
proof (induction k arbitrary: prev cur xs)
  case (Suc k)
  then obtain x ys where xs: "xs = x # ys" by (cases xs) auto
  with Suc.prems have c: "cur = Some x" and l: "linked n (n x) ys" by auto
  show ?case
  proof (cases "x = p")
    case True
    then show ?thesis using xs c by (auto intro!: exI [of _ "[]"])
  next
    case False
    with Suc.prems xs have "p \<in> set ys" "length ys < k" by auto
    from Suc.IH [OF l this(2,1), of "Some x"] obtain us ws where
      "ys = us @ p # ws" "p \<notin> set us"
      "slr_find k n (Some x) (n x) p = Ok (if us = [] then Some x else Some (last us), Some p)" by auto
    with False xs c show ?thesis
      by (intro exI [of _ "x # us"] exI [of _ ws]) auto
  qed
qed simp

lemma slr_find_none:
  assumes "linked n cur xs" "length xs < k" "p \<notin> set xs"
  shows "\<exists>v. slr_find k n prev cur p = Ok (v, None)"
  using assms
proof (induction k arbitrary: prev cur xs)
  case (Suc k)
  then show ?case by (cases xs) auto
qed simp


lemma linked_tl:
  assumes "linked n a (x # xs)"
  shows "linked n (n x) xs" "x \<notin> set xs" "(last (x # xs) = x) = (xs = [])"
proof -
  show "linked n (n x) xs" using assms by simp
  then show "x \<notin> set xs" by (rule linked_head_notin)
  then show "(last (x # xs) = x) = (xs = [])" by auto
qed

lemma stateListRemove_head:
  assumes "is_queue s l (p # xs)"
  shows "wp (stateListRemove l (Some p) s) (\<lambda>(r, t). r = 0 \<and> is_queue t l xs \<and> core t = core s \<and>
    same_rest s t \<and> (\<forall>m ys. m \<noteq> l \<longrightarrow> is_queue t m ys = is_queue s m ys))"
proof -
  have lk: "linked (nx s) (q_head (get_ptrs l s)) (p # xs)"
    and q: "q_head (get_ptrs l s) = Some p" "q_tail (get_ptrs l s) = Some (last (p # xs))"
    using assms by (auto simp: is_queue_def)
  have "is_queue (set_ptrs l q' s) m ys = is_queue s m ys" if "m \<noteq> l" for q' m ys
    using that by (intro is_queue_cong) auto
  with linked_tl [OF lk] q show ?thesis
    by (auto simp: stateListRemove_def is_queue_def nx_def last_ptr_def)
qed

lemma stateListRemove_inner:
  assumes q: "is_queue s l (us @ v # p # ws)" and len: "length (us @ v # p # ws) \<le> NPROC"
  shows "wp (stateListRemove l (Some p) s) (\<lambda>(r, t). r = 0 \<and> is_queue t l (us @ v # ws) \<and>
    core t = core s \<and> same_rest s t \<and>
    (\<forall>m ys. m \<noteq> l \<longrightarrow> set ys \<inter> {v, p} = {} \<longrightarrow> is_queue t m ys = is_queue s m ys))"
proof -
  let ?xs = "us @ v # p # ws"
  have lk: "linked (nx s) (q_head (get_ptrs l s)) ?xs" and tl: "q_tail (get_ptrs l s) = Some (last ?xs)"
    using q by (auto simp: is_queue_def)
  have d: "distinct ?xs" using lk by (rule linked_distinct)
  obtain h ys where hx: "?xs = h # ys" by (cases ?xs) auto
  have hd: "q_head (get_ptrs l s) = Some h" using lk hx by simp
  have hp: "h \<noteq> p" using d hx by (cases us) auto
  have np: "p \<notin> set (us @ [v])" "p \<notin> set ws" using d by auto
  obtain us' ws' where e: "?xs = us' @ p # ws'" and nu: "p \<notin> set us'"
    and f: "slr_find (Suc NPROC) (nx s) None (Some h) p = Ok (if us' = [] then None else Some (last us'), Some p)"
    using slr_find_spec [of "nx s" "Some h" ?xs "Suc NPROC" p None] lk hd len by auto
  have "us' = us @ [v] \<and> ws' = ws"
    using append_Cons_eq_iff [of p "us @ [v]" ws us' ws'] np nu e by simp
  with f have f: "slr_find (Suc NPROC) (\<lambda>i. p_next (procs s i)) None (Some h) p = Ok (Some v, Some p)"
    by (simp add: nx_def)
  have nxp: "nx s p = None" if "ws = []"
    using that linked_nx_last [OF lk] by simp
  have pl: "p \<noteq> last ?xs" if "ws \<noteq> []"
    using that d by auto
  define t where "t = upd_proc p (p_next_update (\<lambda>_. None))
     (if ws = [] then upd_proc v (p_next_update (\<lambda>_. None)) (set_ptrs l \<lparr>q_head = Some h, q_tail = Some v\<rparr> s)
      else upd_proc v (p_next_update (\<lambda>_. p_next (procs s p))) s)"
  have rem: "stateListRemove l (Some p) s = Ok (0, t)"
    using hd tl hp f pl by (cases "ws = []") (simp_all add: stateListRemove_def t_def Let_def del: slr_find.simps)
  have nt: "nx t = (nx s)(v := nx s p, p := None)"
    using nxp by (cases "ws = []") (simp_all add: t_def nx_def fun_eq_iff)
  have "linked ((nx s)(v := nx s p)) (Some h) (us @ v # ws)"
    using linked_unlink [OF lk] hd by simp
  then have "linked (nx t) (Some h) (us @ v # ws)"
    using d by (simp add: nt)
  moreover have "get_ptrs l t = \<lparr>q_head = Some h, q_tail = last_ptr (us @ v # ws)\<rparr>"
    using hd tl by (cases "get_ptrs l s") (auto simp: t_def)
  ultimately have "is_queue t l (us @ v # ws)" by (simp add: is_queue_def)
  moreover have "is_queue t m ys = is_queue s m ys" if "m \<noteq> l" "set ys \<inter> {v, p} = {}" for m ys
    using that by (intro is_queue_cong) (auto simp: nt, simp add: t_def)
  moreover have "core t = core s" "same_rest s t" by (simp_all add: t_def)
  ultimately show ?thesis by (simp add: rem)
qed

lemma stateListRemove_spec:
  assumes q: "is_queue s l xs" and b: "set xs \<subseteq> {..<NPROC}" and p: "p \<in> set xs"
  shows "wp (stateListRemove l (Some p) s) (\<lambda>(r, t). r = 0 \<and> is_queue t l (remove1 p xs) \<and>
    core t = core s \<and> same_rest s t \<and>
    (\<forall>m ys. m \<noteq> l \<longrightarrow> set ys \<inter> set xs = {} \<longrightarrow> is_queue t m ys = is_queue s m ys))"
proof -
  have d: "distinct xs" using q by (rule is_queue_distinct)
  then have len: "length xs \<le> NPROC" using b by (rule length_bounded)
  obtain zs ws where xs: "xs = zs @ p # ws" "p \<notin> set zs"
    using split_list_first [OF p] by auto
  show ?thesis
  proof (cases zs rule: rev_cases)
    case Nil
    then show ?thesis using stateListRemove_head [of s l p ws] q xs by (auto elim!: wp_mono)
  next
    case (snoc us v)
    then have xs': "xs = us @ v # p # ws" "remove1 p xs = us @ v # ws" using xs by (auto simp: remove1_append)
    show ?thesis
      using stateListRemove_inner [OF q [unfolded xs'(1)] len [unfolded xs'(1)]]
      by (rule wp_mono) (clarsimp simp: xs'(2), simp add: xs'(1))
  qed
qed

lemma stateListRemove_absent:
  assumes q: "is_queue s l xs" and b: "set xs \<subseteq> {..<NPROC}" and p: "p \<notin> set xs"
  shows "stateListRemove l (Some p) s = Ok (-1, s)"
proof (cases xs)
  case Nil
  then show ?thesis using q by (simp add: is_queue_empty stateListRemove_def)
next
  case (Cons h ys)
  have "length xs \<le> NPROC" using b is_queue_distinct [OF q] by (rule length_bounded [rotated])
  then obtain v where "slr_find (Suc NPROC) (\<lambda>i. p_next (procs s i)) None (Some h) p = Ok (v, None)"
    using slr_find_none [of "nx s" "Some h" xs "Suc NPROC" p None] q Cons p
    by (auto simp: is_queue_def nx_def simp del: slr_find.simps)
  with Cons q p show ?thesis
    by (simp add: stateListRemove_def is_queue_def del: slr_find.simps)
qed

section \<open>The table of lists\<close>

definition qinv :: "'a kstate_scheme \<Rightarrow> bool" where
  "qinv s \<longleftrightarrow> (\<forall>l. is_queue s l (view s l) \<and> set (view s l) \<subseteq> {..<NPROC}) \<and>
     (\<forall>l m. l \<noteq> m \<longrightarrow> set (view s l) \<inter> set (view s m) = {})"

definition unlisted :: "nat \<Rightarrow> 'a kstate_scheme \<Rightarrow> bool" where
  "unlisted p s \<longleftrightarrow> (\<forall>l. p \<notin> set (view s l))"

lemma qinvI:
  assumes "\<And>l. is_queue s l (L l)" "\<And>l. set (L l) \<subseteq> {..<NPROC}"
    "\<And>l m. l \<noteq> m \<Longrightarrow> set (L l) \<inter> set (L m) = {}"
  shows "qinv s \<and> view s = L"
proof -
  have "view s = L" using assms(1,2) by (auto simp: is_queue_view)
  with assms show ?thesis by (simp add: qinv_def)
qed

lemma qinvD:
  assumes "qinv s"
  shows "is_queue s l (view s l)" "set (view s l) \<subseteq> {..<NPROC}" "distinct (view s l)"
    "l \<noteq> m \<Longrightarrow> set (view s l) \<inter> set (view s m) = {}"
  using assms by (auto simp: qinv_def intro: is_queue_distinct)

lemma stateListAdd_view:
  assumes "qinv s" "p < NPROC" "unlisted p s"
  shows "wp (stateListAdd l p s) (\<lambda>t. qinv t \<and> view t = (view s)(l := view s l @ [p]) \<and>
    core t = core s \<and> same_rest s t)"
proof -
  have u: "p \<notin> set (view s m)" for m using assms(3) by (simp add: unlisted_def)
  have "wp (stateListAdd l p s) (\<lambda>t. is_queue t l (view s l @ [p]) \<and> core t = core s \<and> same_rest s t \<and>
      (\<forall>m ys. m \<noteq> l \<longrightarrow> set ys \<inter> insert p (set (view s l)) = {} \<longrightarrow> is_queue t m ys = is_queue s m ys))"
    by (rule stateListAdd_spec) (use qinvD(1) [OF assms(1)] u in auto)
  then show ?thesis
  proof (rule wp_mono, elim conjE, intro conjI)
    fix t
    assume l: "is_queue t l (view s l @ [p])"
      and o: "\<forall>m ys. m \<noteq> l \<longrightarrow> set ys \<inter> insert p (set (view s l)) = {} \<longrightarrow> is_queue t m ys = is_queue s m ys"
    have "qinv t \<and> view t = (view s)(l := view s l @ [p])"
    proof (rule qinvI)
      show "is_queue t m (((view s)(l := view s l @ [p])) m)" for m
        using l o u qinvD(1) [OF assms(1), of m] qinvD(4) [OF assms(1), of m l] by (cases "m = l") auto
      show "set (((view s)(l := view s l @ [p])) m) \<subseteq> {..<NPROC}" for m
        using assms(2) qinvD(2) [OF assms(1), of m] by (cases "m = l") auto
      show "set (((view s)(l := view s l @ [p])) m) \<inter> set (((view s)(l := view s l @ [p])) n) = {}"
        if "m \<noteq> n" for m n
        using that u qinvD(4) [OF assms(1) that] by auto
    qed
    then show "qinv t" "view t = (view s)(l := view s l @ [p])" by auto
  qed auto
qed

lemma stateListRemove_view:
  assumes "qinv s" "p \<in> set (view s l)"
  shows "wp (stateListRemove l (Some p) s) (\<lambda>(r, t). r = 0 \<and> qinv t \<and>
    view t = (view s)(l := remove1 p (view s l)) \<and> core t = core s \<and> same_rest s t)"
proof -
  have "wp (stateListRemove l (Some p) s) (\<lambda>(r, t). r = 0 \<and> is_queue t l (remove1 p (view s l)) \<and>
      core t = core s \<and> same_rest s t \<and>
      (\<forall>m ys. m \<noteq> l \<longrightarrow> set ys \<inter> set (view s l) = {} \<longrightarrow> is_queue t m ys = is_queue s m ys))"
    by (rule stateListRemove_spec) (use qinvD [OF assms(1)] assms(2) in auto)
  then show ?thesis
  proof (rule wp_mono, clarify, intro conjI)
    fix t
    assume l: "is_queue t l (remove1 p (view s l))"
      and o: "\<forall>m ys. m \<noteq> l \<longrightarrow> set ys \<inter> set (view s l) = {} \<longrightarrow> is_queue t m ys = is_queue s m ys"
    let ?L = "(view s)(l := remove1 p (view s l))"
    have sub: "set (?L m) \<subseteq> set (view s m)" for m
      using set_remove1_subset [of p "view s l"] by auto
    have "qinv t \<and> view t = ?L"
    proof (rule qinvI)
      show "is_queue t m (?L m)" for m
        using l o qinvD(1) [OF assms(1), of m] qinvD(4) [OF assms(1), of m l] by (cases "m = l") auto
      show "set (?L m) \<subseteq> {..<NPROC}" for m
        using sub [of m] qinvD(2) [OF assms(1), of m] by blast
      show "set (?L m) \<inter> set (?L n) = {}" if "m \<noteq> n" for m n
        using sub [of m] sub [of n] qinvD(4) [OF assms(1) that] by blast
    qed
    then show "qinv t" "view t = ?L" by auto
  qed auto
qed

lemma stateListRemove_absent_view:
  assumes "qinv s" "p \<notin> set (view s l)"
  shows "stateListRemove l (Some p) s = Ok (-1, s)"
  by (rule stateListRemove_absent [OF qinvD(1,2) [OF assms(1)] assms(2)])

section \<open>The interface the process code relies on\<close>

text \<open>
  What \<open>proc.c\<close> needs of its lists: queues of slots, pairwise disjoint, with an append and a
  removal that report what they did and touch nothing but the links (\<open>frame\<close>).
\<close>

locale state_queues =
  fixes add :: "'l \<Rightarrow> nat \<Rightarrow> 's \<Rightarrow> 's res"
    and rem :: "'l \<Rightarrow> nat \<Rightarrow> 's \<Rightarrow> (int \<times> 's) res"
    and queue :: "'s \<Rightarrow> 'l \<Rightarrow> nat list"
    and inv :: "'s \<Rightarrow> bool"
    and frame :: "'s \<Rightarrow> 's \<Rightarrow> bool"
    and bound :: nat
  assumes queue_distinct: "inv s \<Longrightarrow> distinct (queue s l)"
    and queue_disjoint: "inv s \<Longrightarrow> l \<noteq> m \<Longrightarrow> set (queue s l) \<inter> set (queue s m) = {}"
    and queue_bound: "inv s \<Longrightarrow> set (queue s l) \<subseteq> {..<bound}"
    and add_law: "inv s \<Longrightarrow> p < bound \<Longrightarrow> (\<And>m. p \<notin> set (queue s m)) \<Longrightarrow>
      wp (add l p s) (\<lambda>t. inv t \<and> queue t = (queue s)(l := queue s l @ [p]) \<and> frame s t)"
    and rem_law: "inv s \<Longrightarrow> p \<in> set (queue s l) \<Longrightarrow>
      wp (rem l p s) (\<lambda>(r, t). r = 0 \<and> inv t \<and> queue t = (queue s)(l := remove1 p (queue s l)) \<and> frame s t)"
    and rem_absent: "inv s \<Longrightarrow> p \<notin> set (queue s l) \<Longrightarrow> rem l p s = Ok (-1, s)"
    and frame_trans: "frame s t \<Longrightarrow> frame t u \<Longrightarrow> frame s u"
begin

lemma removed_unlisted:
  assumes "inv s" "p \<in> set (queue s l)"
  shows "p \<notin> set (((queue s)(l := remove1 p (queue s l))) m)"
  using assms queue_distinct [OF assms(1), of l] queue_disjoint [OF assms(1), of m l]
  by (cases "m = l") auto

lemma rem_iff:
  assumes "inv s"
  shows "wp (rem l p s) (\<lambda>(r, t). (r = 0) = (p \<in> set (queue s l)) \<and> (r = -1) = (p \<notin> set (queue s l)))"
  using assms rem_law [of s p l] rem_absent [of s p l] by (cases "p \<in> set (queue s l)") (auto elim: wp_mono)

text \<open>Moving a slot: remove it (a failure would panic), then append it elsewhere.\<close>

lemma transfer:
  assumes "inv s" "p \<in> set (queue s a)" "a \<noteq> b"
  shows "wp (rbind (rem a p s) (\<lambda>(r, t). if r = -1 then Panic msg else add b p t))
    (\<lambda>t. inv t \<and> queue t = (queue s)(a := remove1 p (queue s a), b := queue s b @ [p]) \<and> frame s t)"
proof -
  have pb: "p < bound" using queue_bound [OF assms(1)] assms(2) by blast
  have "wp (rem a p s) (\<lambda>(r, t). r = 0 \<and> inv t \<and>
      queue t = (queue s)(a := remove1 p (queue s a)) \<and> frame s t)"
    using assms by (intro rem_law)
  then show ?thesis unfolding wp_rbind
  proof (rule wp_mono, clarsimp)
    fix t
    assume t: "inv t" "queue t = (queue s)(a := remove1 p (queue s a))" "frame s t"
    have "wp (add b p t) (\<lambda>u. inv u \<and> queue u = (queue t)(b := queue t b @ [p]) \<and> frame t u)"
      using t(1) pb removed_unlisted [OF assms(1,2)] t(2) by (intro add_law) auto
    then show "wp (add b p t) (\<lambda>u. inv u \<and>
        queue u = (queue s)(a := remove1 p (queue s a), b := queue s b @ [p]) \<and> frame s u)"
      by (rule wp_mono) (use t assms(3) frame_trans in auto)
  qed
qed

lemma transfer_conserves:
  assumes "inv s" "p \<in> set (queue s a)" "a \<noteq> b"
  shows "wp (rbind (rem a p s) (\<lambda>(r, t). if r = -1 then Panic msg else add b p t))
    (\<lambda>t. (\<Union>l. set (queue t l)) = (\<Union>l. set (queue s l)))"
  using transfer [OF assms]
proof (rule wp_mono, elim conjE)
  fix t
  assume q: "queue t = (queue s)(a := remove1 p (queue s a), b := queue s b @ [p])"
  have "x \<in> (\<Union>l. set (queue t l))" if "x \<in> set (queue s l)" for x l
  proof (cases "l = a \<and> x = p")
    case True
    then have "x \<in> set (queue t b)" by (simp add: q)
    then show ?thesis by blast
  next
    case False
    with that have "x \<in> set (queue t l)" using assms(3) by (auto simp: q in_set_remove1)
    then show ?thesis by blast
  qed
  moreover have "x \<in> (\<Union>l. set (queue s l))" if "x \<in> set (queue t l)" for x l
    using that assms(2) set_remove1_subset [of p "queue s a"]
    by (fastforce simp: q split: if_splits)
  ultimately show "(\<Union>l. set (queue t l)) = (\<Union>l. set (queue s l))" by blast
qed

end

interpretation sq: state_queues stateListAdd "\<lambda>l p. stateListRemove l (Some p)" view qinv
  "\<lambda>s t. core t = core s \<and> same_rest s t" NPROC
proof unfold_locales
  show "distinct (view s l)" if "qinv s" for s :: "'a kstate_scheme" and l
    using that by (rule qinvD)
  show "set (view s l) \<inter> set (view s m) = {}" if "qinv s" "l \<noteq> m" for s :: "'a kstate_scheme" and l m
    using that by (rule qinvD)
  show "set (view s l) \<subseteq> {..<NPROC}" if "qinv s" for s :: "'a kstate_scheme" and l
    using that by (rule qinvD)
  show "wp (stateListAdd l p s) (\<lambda>t. qinv t \<and> view t = (view s)(l := view s l @ [p]) \<and>
      core t = core s \<and> same_rest s t)"
    if "qinv s" "p < NPROC" "\<And>m. p \<notin> set (view s m)" for s :: "'a kstate_scheme" and p l
    using that by (intro stateListAdd_view) (auto simp: unlisted_def)
  show "wp (stateListRemove l (Some p) s) (\<lambda>(r, t). r = 0 \<and> qinv t \<and>
      view t = (view s)(l := remove1 p (view s l)) \<and> core t = core s \<and> same_rest s t)"
    if "qinv s" "p \<in> set (view s l)" for s :: "'a kstate_scheme" and p l
    using that by (rule stateListRemove_view)
  show "stateListRemove l (Some p) s = Ok (-1, s)"
    if "qinv s" "p \<notin> set (view s l)" for s :: "'a kstate_scheme" and p l
    using that by (rule stateListRemove_absent_view)
qed (auto intro: same_rest_trans)

section \<open>The lists at boot\<close>

lemma is_queue_initProcessLists:
  "is_queue (initProcessLists s) (SL st) []" "int i \<le> MAXPRIO \<Longrightarrow> is_queue (initProcessLists s) (RL i) []"
  by (simp_all add: is_queue_empty get_ptrs_def initProcessLists_def)

lemma initFreeList_from_spec:
  assumes "is_queue s (SL UNUSED) xs" "distinct (xs @ ps)"
  shows "wp (initFreeList_from ps s) (\<lambda>t. is_queue t (SL UNUSED) (xs @ ps) \<and> same_rest s t \<and>
    (\<forall>p. core t p = (if p \<in> set ps then (core s p)\<lparr>p_state := UNUSED\<rparr> else core s p)) \<and>
    (\<forall>m. m \<noteq> SL UNUSED \<longrightarrow> is_queue t m [] = is_queue s m []))"
  using assms
proof (induction ps arbitrary: s xs)
  case (Cons p ps)
  let ?u = "upd_proc p (p_state_update (\<lambda>_. UNUSED)) s"
  have nx: "nx ?u = nx s" by (rule nx_upd_other) simp
  have q: "is_queue ?u m ys = is_queue s m ys" for m ys by (simp add: is_queue_def nx)
  have core: "core ?u = (core s)(p := (core s p)\<lparr>p_state := UNUSED\<rparr>)"
    by (rule core_upd_proc) simp
  have "wp (stateListAdd (SL UNUSED) p ?u) (\<lambda>t. is_queue t (SL UNUSED) (xs @ [p]) \<and> core t = core ?u \<and>
      same_rest ?u t \<and> (\<forall>m ys. m \<noteq> SL UNUSED \<longrightarrow> set ys \<inter> insert p (set xs) = {} \<longrightarrow>
        is_queue t m ys = is_queue ?u m ys))"
    by (rule stateListAdd_spec) (use Cons.prems q in auto)
  then show ?case
    unfolding initFreeList_from.simps wp_rbind
  proof (rule wp_mono, elim conjE)
    fix t
    assume t: "is_queue t (SL UNUSED) (xs @ [p])" "core t = core ?u" "same_rest ?u t"
      "\<forall>m ys. m \<noteq> SL UNUSED \<longrightarrow> set ys \<inter> insert p (set xs) = {} \<longrightarrow> is_queue t m ys = is_queue ?u m ys"
    have e: "is_queue t m [] = is_queue s m []" if "m \<noteq> SL UNUSED" for m
      using t(4) that by (auto simp: q)
    have r: "same_rest s t" using same_rest_trans [OF _ t(3), of s] by simp
    show "wp (initFreeList_from ps t) (\<lambda>t. is_queue t (SL UNUSED) (xs @ p # ps) \<and> same_rest s t \<and>
        (\<forall>q. core t q = (if q \<in> set (p # ps) then (core s q)\<lparr>p_state := UNUSED\<rparr> else core s q)) \<and>
        (\<forall>m. m \<noteq> SL UNUSED \<longrightarrow> is_queue t m [] = is_queue s m []))"
      by (rule wp_mono [OF Cons.IH [OF t(1)]])
        (use Cons.prems t(2) e same_rest_trans [OF r] in \<open>auto simp: core\<close>)
  qed
qed simp

text \<open>
  \<open>userinit\<close>'s set-up of the lists: after \<open>initProcessLists\<close> and \<open>initFreeList\<close> the
  free list holds the 64 slots in order, every other list is empty, and every slot is \<open>UNUSED\<close>.
\<close>

lemma initFreeList_spec:
  assumes "\<forall>i. MAXPRIO < int i \<longrightarrow> ready s i = \<lparr>q_head = None, q_tail = None\<rparr>"
  shows "wp (initFreeList (initProcessLists s)) (\<lambda>t. qinv t \<and> view t (SL UNUSED) = [0..<NPROC] \<and>
    (\<forall>l. l \<noteq> SL UNUSED \<longrightarrow> view t l = []) \<and> (\<forall>p<NPROC. p_state (procs t p) = UNUSED))"
proof -
  have empty: "is_queue (initProcessLists s) m []" for m
    using assms by (cases m) (auto simp: is_queue_empty get_ptrs_def initProcessLists_def)
  show ?thesis
    unfolding initFreeList_def
  proof (rule wp_mono [OF initFreeList_from_spec [OF empty]])
    fix t
    assume t: "is_queue t (SL UNUSED) ([] @ [0..<NPROC]) \<and> same_rest (initProcessLists s) t \<and>
        (\<forall>p. core t p = (if p \<in> set [0..<NPROC] then (core (initProcessLists s) p)\<lparr>p_state := UNUSED\<rparr>
          else core (initProcessLists s) p)) \<and>
        (\<forall>m. m \<noteq> SL UNUSED \<longrightarrow> is_queue t m [] = is_queue (initProcessLists s) m [])"
    have "qinv t \<and> view t = (\<lambda>l. if l = SL UNUSED then [0..<NPROC] else [])"
      by (rule qinvI) (use t empty in auto)
    moreover have "p_state (procs t p) = UNUSED" if "p < NPROC" for p
      using t that by (simp flip: core_sel)
    ultimately show "qinv t \<and> view t (SL UNUSED) = [0..<NPROC] \<and>
        (\<forall>l. l \<noteq> SL UNUSED \<longrightarrow> view t l = []) \<and> (\<forall>p<NPROC. p_state (procs t p) = UNUSED)" by auto
  qed simp
qed

end
