(* ===== verification/Proc_Inv.thy ===== *)
theory Proc_Inv
  imports Proc_Lists
begin

text \<open>
  The invariant of the process table under \<open>CS333_P4\<close>: every slot is on the list of its state
  (\<open>RUNNABLE\<close> slots on the ready list of their priority), on no other list, and no list holds
  anything else. \<open>X\<close> names the slots in transit: removed from one list and not yet added to the
  next, as in the middle of a state transition or of \<open>fork\<close>.
\<close>

definition home :: "'a kstate_scheme \<Rightarrow> nat \<Rightarrow> listref" where
  "home s p = (if p_state (procs s p) = RUNNABLE then RL (nat (p_priority (procs s p)))
               else SL (p_state (procs s p)))"

definition prio_ok :: "proc \<Rightarrow> bool" where
  "prio_ok k \<longleftrightarrow> 0 \<le> p_priority k \<and> p_priority k \<le> MAXPRIO"

definition pinv :: "nat set \<Rightarrow> 'a kstate_scheme \<Rightarrow> bool" where
  "pinv X s \<longleftrightarrow> qinv s \<and> (\<forall>l. \<forall>p\<in>set (view s l). p \<notin> X \<and> home s p = l) \<and>
     (\<forall>p<NPROC. p \<notin> X \<longrightarrow> p \<in> set (view s (home s p))) \<and>
     (\<forall>p<NPROC. prio_ok (procs s p))"

lemma pinvD:
  assumes "pinv X s"
  shows "qinv s" "p \<in> set (view s l) \<Longrightarrow> p \<notin> X" "p \<in> set (view s l) \<Longrightarrow> home s p = l"
    "p \<in> set (view s l) \<Longrightarrow> p < NPROC"
    "p < NPROC \<Longrightarrow> p \<notin> X \<Longrightarrow> p \<in> set (view s (home s p))" "p < NPROC \<Longrightarrow> prio_ok (procs s p)"
proof -
  show q: "qinv s" using assms by (simp add: pinv_def)
  show "p \<in> set (view s l) \<Longrightarrow> p \<notin> X" "p \<in> set (view s l) \<Longrightarrow> home s p = l"
    "p < NPROC \<Longrightarrow> p \<notin> X \<Longrightarrow> p \<in> set (view s (home s p))" "p < NPROC \<Longrightarrow> prio_ok (procs s p)"
    using assms by (simp_all add: pinv_def)
  show "p \<in> set (view s l) \<Longrightarrow> p < NPROC" using qinvD(2) [OF q, of l] by auto
qed

text \<open>The two readings of a list: by memory and by the fields of the slots.\<close>

lemma pinv_list_iff:
  assumes "pinv X s"
  shows "p \<in> set (view s l) \<longleftrightarrow> p < NPROC \<and> p \<notin> X \<and> home s p = l"
  using pinvD [OF assms] by blast

lemma home_core:
  assumes "core t = core s"
  shows "home t = home s"
  by (rule ext) (simp add: home_def core_eqD [OF assms])

lemma prio_ok_core:
  assumes "core t = core s"
  shows "prio_ok (procs t p) = prio_ok (procs s p)"
  by (simp add: prio_ok_def core_eqD [OF assms])

lemma home_simps:
  "p_state (procs s p) = RUNNABLE \<Longrightarrow> home s p = RL (nat (p_priority (procs s p)))"
  "p_state (procs s p) \<noteq> RUNNABLE \<Longrightarrow> home s p = SL (p_state (procs s p))"
  by (simp_all add: home_def)

lemma home_eq_SL: "home s p = SL st \<longleftrightarrow> p_state (procs s p) = st \<and> st \<noteq> RUNNABLE"
  by (auto simp: home_def)

lemma home_eq_RL:
  "home s p = RL i \<longleftrightarrow> p_state (procs s p) = RUNNABLE \<and> nat (p_priority (procs s p)) = i"
  by (auto simp: home_def)

lemma pinv_runnable_empty:
  assumes "pinv X s"
  shows "view s (SL RUNNABLE) = []"
proof -
  have "p \<notin> set (view s (SL RUNNABLE))" for p
    using pinvD(3) [OF assms, of p "SL RUNNABLE"] by (auto simp: home_eq_SL)
  then show ?thesis by (cases "view s (SL RUNNABLE)") auto
qed

lemma pinv_high_empty:
  assumes "pinv X s" "MAXPRIO < int i"
  shows "view s (RL i) = []"
proof -
  have "p \<notin> set (view s (RL i))" for p
    using pinvD(3,4,6) [OF assms(1), of p] assms(2) by (fastforce simp: home_eq_RL prio_ok_def)
  then show ?thesis by (cases "view s (RL i)") auto
qed

lemma ready_at_ok: "prio_ok k \<Longrightarrow> ready_at (p_priority k) = Ok (RL (nat (p_priority k)))"
  by (simp add: prio_ok_def ready_at_def)

section \<open>What the list operations and slot updates do to the invariant\<close>

lemma pinv_remove:
  assumes "pinv X s" "p < NPROC" "p \<notin> X" "home s p = l"
  shows "wp (stateListRemove l (Some p) s) (\<lambda>(r, t). r = 0 \<and> pinv (insert p X) t \<and>
    view t = (view s)(l := remove1 p (view s l)) \<and> core t = core s \<and> same_rest s t)"
proof -
  have m: "p \<in> set (view s l)" using assms by (auto simp: pinv_list_iff)
  have "wp (stateListRemove l (Some p) s) (\<lambda>(r, t). r = 0 \<and> qinv t \<and>
    view t = (view s)(l := remove1 p (view s l)) \<and> core t = core s \<and> same_rest s t)"
    using pinvD(1) [OF assms(1)] m by (rule stateListRemove_view)
  then show ?thesis
  proof (rule wp_mono, clarify)
    fix t
    assume t: "qinv t" "view t = (view s)(l := remove1 p (view s l))" "core t = core s" "same_rest s t"
    have d: "distinct (view s l)" using pinvD(1) [OF assms(1)] by (rule qinvD)
    have "q \<in> set (view t m) \<longleftrightarrow> q \<noteq> p \<and> q \<in> set (view s m)" for q m
      using d assms(4) pinvD(3) [OF assms(1), of p m] by (auto simp: t(2))
    moreover have "prio_ok (procs t q)" if "q < NPROC" for q
      using pinvD(6) [OF assms(1) that] by (simp add: prio_ok_core [OF t(3)])
    ultimately show "0 = (0::int) \<and> pinv (insert p X) t \<and>
        view t = (view s)(l := remove1 p (view s l)) \<and> core t = core s \<and> same_rest s t"
      using t pinv_list_iff [OF assms(1)] by (auto simp: pinv_def home_core [OF t(3)])
  qed
qed

lemma pinv_add:
  assumes "pinv X s" "p < NPROC" "p \<in> X" "home s p = l"
  shows "wp (stateListAdd l p s) (\<lambda>t. pinv (X - {p}) t \<and>
    view t = (view s)(l := view s l @ [p]) \<and> core t = core s \<and> same_rest s t)"
proof -
  have "unlisted p s" using pinvD(2) [OF assms(1)] assms(3) by (auto simp: unlisted_def)
  then have "wp (stateListAdd l p s) (\<lambda>t. qinv t \<and> view t = (view s)(l := view s l @ [p]) \<and>
      core t = core s \<and> same_rest s t)"
    using pinvD(1) [OF assms(1)] assms(2) by (intro stateListAdd_view)
  then show ?thesis
  proof (rule wp_mono, elim conjE)
    fix t
    assume t: "qinv t" "view t = (view s)(l := view s l @ [p])" "core t = core s" "same_rest s t"
    have "q \<in> set (view t m) \<longleftrightarrow> q \<in> set (view s m) \<or> q = p \<and> m = l" for q m
      by (auto simp: t(2))
    moreover have "prio_ok (procs t q)" if "q < NPROC" for q
      using pinvD(6) [OF assms(1) that] by (simp add: prio_ok_core [OF t(3)])
    ultimately show "pinv (X - {p}) t \<and> view t = (view s)(l := view s l @ [p]) \<and>
        core t = core s \<and> same_rest s t"
      using t assms pinv_list_iff [OF assms(1)] by (auto simp: pinv_def home_core [OF t(3)])
  qed
qed

text \<open>Updating a slot's fields, other than its link, does not move any list.\<close>

definition keeps_next :: "(proc \<Rightarrow> proc) \<Rightarrow> bool" where
  "keeps_next f \<longleftrightarrow> (\<forall>k. p_next (f k) = p_next k)"

lemma view_upd_proc [simp]: "keeps_next f \<Longrightarrow> view (upd_proc p f s) = view s"
  using nx_upd_other [of f p s] by (auto simp: view_def keeps_next_def)

lemma qinv_upd_proc [simp]: "keeps_next f \<Longrightarrow> qinv (upd_proc p f s) = qinv s"
  using nx_upd_other [of f p s] by (simp add: qinv_def is_queue_def keeps_next_def)

lemma keeps_next_upds [simp]:
  "keeps_next (p_state_update g1)" "keeps_next (p_priority_update g2)" "keeps_next (p_budget_update g3)"
  "keeps_next (p_killed_update g4)" "keeps_next (p_parent_update g5)" "keeps_next (p_chan_update g6)"
  "keeps_next (p_context_update g7)" "keeps_next (p_sz_update g8)" "keeps_next (p_pid_update g9)"
  "keeps_next (p_cpu_ticks_total_update g10)" "keeps_next (p_cpu_ticks_in_update g11)"
  "keeps_next (p_uid_update g12)" "keeps_next (p_gid_update g13)" "keeps_next (p_kstack_update g14)"
  "keeps_next (p_name_update g15)" "keeps_next (p_pgdir_update g16)" "keeps_next (p_tf_update g17)"
  "keeps_next (p_ofile_update g18)" "keeps_next (p_cwd_update g19)" "keeps_next (p_start_ticks_update g20)"
  by (simp_all add: keeps_next_def)

lemma keeps_next_comp: "keeps_next f \<Longrightarrow> keeps_next g \<Longrightarrow> keeps_next (\<lambda>k. f (g k))"
  by (simp add: keeps_next_def)

lemma pinv_upd_transit:
  assumes "pinv X s" "p \<in> X" "keeps_next f" "prio_ok (f (procs s p))"
  shows "pinv X (upd_proc p f s)"
proof -
  have "q \<in> set (view s l) \<Longrightarrow> home (upd_proc p f s) q = home s q" for q l
    using pinvD(2) [OF assms(1), of q l] assms(2) by (auto simp: home_def)
  moreover have "q \<notin> X \<Longrightarrow> home (upd_proc p f s) q = home s q" for q
    using assms(2) by (auto simp: home_def)
  ultimately show ?thesis
    using assms by (auto simp: pinv_def)
qed

lemma pinv_upd_field:
  assumes "pinv X s" "keeps_next f" "\<And>k. p_state (f k) = p_state k" "\<And>k. p_priority (f k) = p_priority k"
  shows "pinv X (upd_proc p f s)"
proof -
  have "home (upd_proc p f s) = home s" by (auto simp: home_def assms(3,4) fun_eq_iff)
  then show ?thesis using assms by (auto simp: pinv_def prio_ok_def)
qed

text \<open>Everything outside the table is invisible to the invariant.\<close>

lemma view_cong: "procs t = procs s \<Longrightarrow> plist t = plist s \<Longrightarrow> ready t = ready s \<Longrightarrow> view t = view s"
  by (auto simp: view_def nx_def get_ptrs_def split: listref.splits)

lemma pinv_cong:
  assumes "procs t = procs s" "plist t = plist s" "ready t = ready s"
  shows "pinv X t = pinv X s"
proof -
  have "qinv t = qinv s"
    using view_cong [OF assms] assms
    by (simp add: qinv_def is_queue_def nx_def get_ptrs_def cong: listref.case_cong)
  then show ?thesis
    using view_cong [OF assms] assms by (simp add: pinv_def home_def)
qed

end
