(* ===== verification/Proc_Sample.thy ===== *)
theory Proc_Sample
  imports Proc_Inv
begin

text \<open>
  A concrete kernel state, at which the hypotheses of the process properties are instantiated: one
  core running slot 0; \<open>init\<close> (slot 1) waiting for its children; slots 2 and 3 asleep on the tick
  counter; slots 4 and 5 ready at priorities 6 and 5; slot 6 a zombie child of slot 0; the rest free.
\<close>

definition blank_tf :: trapframe where
  "blank_tf = \<lparr>tf_edi = 0, tf_esi = 0, tf_ebp = 0, tf_oesp = 0, tf_ebx = 0, tf_edx = 0, tf_ecx = 0, tf_eax = 0,
     tf_gs = 0, tf_fs = 0, tf_es = 0, tf_ds = 0, tf_trapno = 0, tf_err = 0, tf_eip = 0, tf_cs = 0,
     tf_eflags = 0, tf_esp = 0, tf_ss = 0\<rparr>"

definition blank_proc :: proc where
  "blank_proc = \<lparr>p_sz = 0, p_pgdir = 0, p_kstack = 0, p_state = UNUSED, p_pid = 0, p_parent = None,
     p_tf = blank_tf, p_context = K_none, p_chan = None, p_killed = False, p_ofile = (\<lambda>_. None), p_cwd = None,
     p_name = [], p_start_ticks = 0, p_uid = 0, p_gid = 0, p_cpu_ticks_total = 0, p_cpu_ticks_in = 0,
     p_next = None, p_priority = 0, p_budget = 0\<rparr>"

definition user_proc :: "procstate \<Rightarrow> uint \<Rightarrow> nat \<Rightarrow> int \<Rightarrow> proc" where
  "user_proc st pid parent prio = blank_proc\<lparr>p_state := st, p_pid := pid, p_parent := Some parent,
     p_pgdir := 0x80010000, p_kstack := 0x80020000, p_sz := 4096, p_priority := prio, p_budget := 100,
     p_cpu_ticks_in := 900\<rparr>"

definition sample_proc :: "nat \<Rightarrow> proc" where
  "sample_proc i =
     (if i = 0 then user_proc RUNNING 2 1 3
      else if i = 1 then (user_proc SLEEPING 1 1 2)\<lparr>p_parent := None, p_chan := Some (Ch_proc 1),
        p_context := K_sleep True (Some Lk_ptable), p_next := Some 2\<rparr>
      else if i = 2 then (user_proc SLEEPING 3 1 2)\<lparr>p_chan := Some Ch_ticks, p_context := K_sleep True None, p_next := Some 3\<rparr>
      else if i = 3 then (user_proc SLEEPING 4 1 0)\<lparr>p_chan := Some Ch_ticks, p_context := K_sleep True None\<rparr>
      else if i = 4 then (user_proc RUNNABLE 5 1 6)\<lparr>p_context := K_yield True\<rparr>
      else if i = 5 then (user_proc RUNNABLE 6 0 5)\<lparr>p_context := K_forkret\<rparr>
      else if i = 6 then (user_proc ZOMBIE 7 0 0)\<lparr>p_context := K_exit True\<rparr>
      else blank_proc\<lparr>p_next := (if i < 63 then Some (Suc i) else None)\<rparr>)"

definition sample :: kstate where
  "sample =
     \<lparr>cpus = (\<lambda>_. \<lparr>c_apicid = 0, c_ncli = 0, c_intena = True, c_proc = Some 0, c_esp0 = 0, c_cr3 = 0\<rparr>),
      ncpu = 1, lapic_id = (\<lambda>_. 0), eflags_if = (\<lambda>_. True),
      locks = (\<lambda>_. \<lparr>lk_locked = False, lk_cpu = None\<rparr>), ticks = 1000,
      procs = sample_proc,
      plist = (\<lambda>st. case st of
          UNUSED \<Rightarrow> \<lparr>q_head = Some 7, q_tail = Some 63\<rparr>
        | EMBRYO \<Rightarrow> \<lparr>q_head = None, q_tail = None\<rparr>
        | SLEEPING \<Rightarrow> \<lparr>q_head = Some 1, q_tail = Some 3\<rparr>
        | RUNNABLE \<Rightarrow> \<lparr>q_head = None, q_tail = None\<rparr>
        | RUNNING \<Rightarrow> \<lparr>q_head = Some 0, q_tail = Some 0\<rparr>
        | ZOMBIE \<Rightarrow> \<lparr>q_head = Some 6, q_tail = Some 6\<rparr>),
      ready = (\<lambda>i. if i = 6 then \<lparr>q_head = Some 4, q_tail = Some 4\<rparr>
                 else if i = 5 then \<lparr>q_head = Some 5, q_tail = Some 5\<rparr>
                 else \<lparr>q_head = None, q_tail = None\<rparr>),
      PromoteAtTime = 900, initproc = Some 1, nextpid = 8, kpgdir = 0x80000000, first = False\<rparr>"

definition sample_lists :: "listref \<Rightarrow> nat list" where
  "sample_lists l =
     (if l = SL UNUSED then [7..<64] else if l = SL SLEEPING then [1, 2, 3] else if l = SL RUNNING then [0]
      else if l = SL ZOMBIE then [6] else if l = RL 6 then [4] else if l = RL 5 then [5] else [])"

lemma linked_upt:
  assumes "a < b" "\<And>i. a \<le> i \<Longrightarrow> Suc i < b \<Longrightarrow> n i = Some (Suc i)" "n (b - 1) = None"
  shows "linked n (Some a) [a..<b]"
  using assms
proof (induction "b - a" arbitrary: a)
  case (Suc k)
  show ?case
  proof (cases "Suc a = b")
    case True
    then show ?thesis using Suc.prems(3) by auto
  next
    case False
    then have "linked n (Some (Suc a)) [Suc a..<b]" using Suc by (intro Suc.hyps) auto
    then show ?thesis using Suc.prems(1,2) False by (simp add: upt_conv_Cons)
  qed
qed simp

lemma sample_fields [simp]:
  "procs sample = sample_proc" "ticks sample = 1000" "ncpu sample = 1" "PromoteAtTime sample = 900"
  "initproc sample = Some 1" "nextpid sample = 8" "first sample = False"
  "c_proc (cpus sample c) = Some 0" "c_ncli (cpus sample c) = 0" "eflags_if sample c"
  by (simp_all add: sample_def)

lemma sample_procs [simp]:
  "sample_proc 0 = user_proc RUNNING 2 1 3"
  "p_state (user_proc st pid par prio) = st" "p_priority (user_proc st pid par prio) = prio"
  "p_pid (user_proc st pid par prio) = pid" "p_parent (user_proc st pid par prio) = Some par"
  "p_pgdir (user_proc st pid par prio) = 0x80010000" "p_kstack (user_proc st pid par prio) = 0x80020000"
  "p_budget (user_proc st pid par prio) = 100" "p_cpu_ticks_in (user_proc st pid par prio) = 900"
  by (simp_all add: sample_proc_def user_proc_def)

lemma sample_queues: "is_queue sample l (sample_lists l)"
proof -
  have u: "is_queue sample (SL UNUSED) [7..<64]"
  proof -
    have p: "get_ptrs (SL UNUSED) sample = \<lparr>q_head = Some 7, q_tail = Some 63\<rparr>"
      by (simp add: sample_def get_ptrs_def)
    have "linked (nx sample) (Some 7) [7..<64]"
      by (rule linked_upt) (auto simp: nx_def sample_proc_def)
    then show ?thesis by (simp only: is_queue_def p ptrs.select_convs) (simp add: last_ptr_def)
  qed
  show ?thesis
  proof (cases "l = SL UNUSED")
    case True
    with u show ?thesis by (simp add: sample_lists_def)
  next
    case False
    then show ?thesis
    proof (cases l)
      case (SL st)
      then show ?thesis
        using False by (cases st)
          (simp_all add: sample_lists_def is_queue_def sample_def get_ptrs_def nx_def sample_proc_def user_proc_def
            blank_proc_def last_ptr_def)
    next
      case (RL i)
      then show ?thesis
        by (simp add: sample_lists_def is_queue_def sample_def get_ptrs_def nx_def sample_proc_def user_proc_def
            blank_proc_def last_ptr_def)
    qed
  qed
qed

lemma sample_qinv: "qinv sample \<and> view sample = sample_lists"
proof (rule qinvI)
  show "is_queue sample l (sample_lists l)" for l by (rule sample_queues)
  show "set (sample_lists l) \<subseteq> {..<NPROC}" for l by (auto simp: sample_lists_def NPROC_def)
  show "set (sample_lists l) \<inter> set (sample_lists m) = {}" if "l \<noteq> m" for l m
    using that by (auto simp: sample_lists_def split: if_splits)
qed

lemma sample_view: "view sample = sample_lists"
  using sample_qinv by simp

lemma sample_pinv: "pinv {} sample"
proof -
  have c: "home sample p = l \<longleftrightarrow> p \<in> set (sample_lists l)" if "p < NPROC" for p l
  proof -
    consider "p \<in> {0, 1, 2, 3, 4, 5, 6}" | "7 \<le> p" by fastforce
    then show ?thesis
      using that by cases (auto simp: home_def sample_proc_def user_proc_def blank_proc_def sample_lists_def NPROC_def
        simp del: upt_rec_numeral)
  qed
  have "p < NPROC" if "p \<in> set (sample_lists l)" for p l
    using that by (auto simp: sample_lists_def NPROC_def split: if_splits)
  moreover have "p \<in> set (sample_lists (home sample p))" if "p < NPROC" for p
    using c [OF that, of "home sample p"] by (simp only: simp_thms)
  moreover have "prio_ok (sample_proc p)" for p
    by (simp add: prio_ok_def sample_proc_def user_proc_def blank_proc_def MAXPRIO_def)
  ultimately show ?thesis
    using c sample_qinv unfolding pinv_def by auto
qed

lemma sample_machine: "machine_ok sample" "lock_free lk sample"
  by (simp_all add: machine_ok_def sample_def lock_free_def inj_on_def)

section \<open>The list operations as queue operations\<close>

text \<open>
  Property C10. The linked lists implement queues of slots: taking a listed slot off a list with
  \<open>stateListRemove\<close> and appending it to another with \<open>stateListAdd\<close> does, on the memory, exactly the
  removal and the append on the sequences, keeps all lists well formed and disjoint, loses no slot,
  and touches nothing but the links.
\<close>

theorem stateList_move_refines:
  assumes "qinv s" "p \<in> set (view s a)" "a \<noteq> b"
  shows "wp (rbind (stateListRemove a (Some p) s) (\<lambda>(r, t). if r = -1 then Panic msg else stateListAdd b p t))
    (\<lambda>t. (qinv t \<and> view t = (view s)(a := remove1 p (view s a), b := view s b @ [p]) \<and> core t = core s \<and> same_rest s t) \<and>
      (\<Union>l. set (view t l)) = (\<Union>l. set (view s l)))"
  using sq.transfer [OF assms, of msg] sq.transfer_conserves [OF assms, of msg] by (rule wp_conj)

theorem stateList_move_refines_witness:
  "wp (rbind (stateListRemove (SL SLEEPING) (Some 2) sample) (\<lambda>(r, t). if r = -1 then Panic [] else stateListAdd (RL 2) 2 t))
    (\<lambda>t. view t (SL SLEEPING) = [1, 3] \<and> view t (RL 2) = [2])"
proof -
  have q: "qinv sample" "(2::nat) \<in> set (view sample (SL SLEEPING))"
    using sample_qinv by (simp_all add: sample_lists_def)
  show ?thesis
    by (rule wp_mono [OF stateList_move_refines [OF q, of "RL 2"]]) (auto simp: sample_view sample_lists_def)
qed

end
