(* ===== verification/Proc_Sched.thy ===== *)
theory Proc_Sched
  imports Proc_Sample
begin

text \<open>
  Giving up the processor and waking under \<open>CS333_P4\<close>: \<open>sched\<close>, \<open>yield\<close>, \<open>sleep\<close>, \<open>forkret\<close> and
  \<open>wakeup\<close> of \<open>proc.c\<close>. A routine that calls \<open>swtch\<close> is modelled up to the switch; the
  saved context says where it goes on, and \<open>resume\<close> is that rest.
\<close>

section \<open>Idioms of the code\<close>

text \<open>\<open>if(stateListRemove(list, p) == -1) panic(msg); assertState(p, st, ...);\<close>\<close>

definition remove_or_panic ::
  "listref \<Rightarrow> nat \<Rightarrow> procstate \<Rightarrow> string \<Rightarrow> 'a kstate_scheme \<Rightarrow> 'a kstate_scheme res" where
  "remove_or_panic l p st msg s =
     rbind (stateListRemove l (Some p) s) (\<lambda>(r, s).
     if r = -1 then Panic msg
     else rbind (assertState p st s) (\<lambda>_. Ok s))"

text \<open>The budget accounting shared by \<open>exit\<close>, \<open>yield\<close> and \<open>sleep\<close>; \<open>budget\<close> is a signed int.\<close>

definition charge_budget :: "nat \<Rightarrow> 'a kstate_scheme \<Rightarrow> 'a kstate_scheme" where
  "charge_budget p s =
     (if MAXPRIO \<noteq> 0 then
        let s = upd_proc p (\<lambda>k. k\<lparr>p_budget := p_budget k - (ticks s - p_cpu_ticks_in k)\<rparr>) s
        in if sint (p_budget (procs s p)) \<le> 0 then
             let s = (if 0 < p_priority (procs s p)
                      then upd_proc p (\<lambda>k. k\<lparr>p_priority := p_priority k - 1\<rparr>) s else s)
             in upd_proc p (p_budget_update (\<lambda>_. BUDGET)) s
           else s
      else s)"

section \<open>Switching\<close>

definition sched :: "nat \<Rightarrow> (bool \<Rightarrow> kcont) \<Rightarrow> 'a kstate_scheme \<Rightarrow> 'a kstate_scheme res" where
  "sched c k s =
     rbind (myproc c s) (\<lambda>(mp, s).
     rbind (holding c Lk_ptable s) (\<lambda>(h, s).
     if \<not> h then Panic ''sched ptable.lock''
     else rbind (mycpu c s) (\<lambda>i.
     if c_ncli (cpus s i) \<noteq> 1 then Panic ''sched locks''
     else case mp of
       None \<Rightarrow> Undef
     | Some p \<Rightarrow>
         if p_state (procs s p) = RUNNING then Panic ''sched running''
         else if eflags_if s c then Panic ''sched interruptible''
         else
           let s = upd_proc p (\<lambda>k. k\<lparr>p_cpu_ticks_total :=
                     p_cpu_ticks_total k + (ticks s - p_cpu_ticks_in k)\<rparr>) s
           in rbind (mycpu c s) (\<lambda>i.
              Ok (upd_proc p (p_context_update (\<lambda>_. k (c_intena (cpus s i)))) s)))))"

definition yield_P4 :: "nat \<Rightarrow> 'a kstate_scheme \<Rightarrow> 'a kstate_scheme res" where
  "yield_P4 c s =
     rbind (myproc c s) (\<lambda>(mp, s).
     rbind (acquire c Lk_ptable s) (\<lambda>s.
     case mp of
       None \<Rightarrow> Panic ''Process Not Found In RUNNING List!''
     | Some p \<Rightarrow>
       rbind (remove_or_panic (SL RUNNING) p RUNNING ''Process Not Found In RUNNING List!'' s) (\<lambda>s.
       let s = upd_proc p (p_state_update (\<lambda>_. RUNNABLE)) s;
           s = charge_budget p s
       in rbind (ready_at (p_priority (procs s p))) (\<lambda>l.
          rbind (stateListAdd l p s) (sched c K_yield)))))"

text \<open>\<open>if(lk != &ptable.lock)\<close>: take the table lock and let \<open>lk\<close> go; NULL is allowed for \<open>lk\<close>.\<close>

definition sleep_lock :: "nat \<Rightarrow> lockid option \<Rightarrow> 'a kstate_scheme \<Rightarrow> 'a kstate_scheme res" where
  "sleep_lock c lk s =
     (if lk \<noteq> Some Lk_ptable then
        rbind (acquire c Lk_ptable s) (\<lambda>s. case lk of None \<Rightarrow> Ok s | Some l \<Rightarrow> release c l s)
      else Ok s)"

definition sleep_P4 ::
  "nat \<Rightarrow> chan option \<Rightarrow> lockid option \<Rightarrow> 'a kstate_scheme \<Rightarrow> 'a kstate_scheme res" where
  "sleep_P4 c ch lk s =
     rbind (myproc c s) (\<lambda>(mp, s).
     case mp of
       None \<Rightarrow> Panic ''sleep''
     | Some p \<Rightarrow>
       rbind (sleep_lock c lk s) (\<lambda>s.
       let s = upd_proc p (p_chan_update (\<lambda>_. ch)) s
       in rbind (remove_or_panic (SL RUNNING) p RUNNING ''Process Not Found In RUNNING List!'' s) (\<lambda>s.
          let s = charge_budget p s;
              s = upd_proc p (p_state_update (\<lambda>_. SLEEPING)) s
          in rbind (stateListAdd (SL SLEEPING) p s) (sched c (\<lambda>ie. K_sleep ie lk)))))"

definition sched_return :: "nat \<Rightarrow> bool \<Rightarrow> 'a kstate_scheme \<Rightarrow> 'a kstate_scheme res" where
  "sched_return c intena s = rbind (mycpu c s) (\<lambda>i. Ok (upd_cpu i (c_intena_update (\<lambda>_. intena)) s))"

text \<open>\<open>fsinit\<close> is \<open>iinit(ROOTDEV); initlog(ROOTDEV)\<close>, run once in the first process.\<close>

definition forkret ::
  "('a kstate_scheme \<Rightarrow> 'a kstate_scheme res) \<Rightarrow> nat \<Rightarrow> 'a kstate_scheme \<Rightarrow> 'a kstate_scheme res" where
  "forkret fsinit c s =
     rbind (release c Lk_ptable s) (\<lambda>s.
     if first s then fsinit (s\<lparr>first := False\<rparr>) else Ok s)"

text \<open>What runs when \<open>swtch\<close> comes back to process \<open>p\<close>, according to its saved context.\<close>

definition resume ::
  "('a kstate_scheme \<Rightarrow> 'a kstate_scheme res) \<Rightarrow> nat \<Rightarrow> nat \<Rightarrow> 'a kstate_scheme \<Rightarrow> 'a kstate_scheme res" where
  "resume fsinit c p s =
     (case p_context (procs s p) of
        K_none \<Rightarrow> Undef
      | K_forkret \<Rightarrow> forkret fsinit c s
      | K_yield ie \<Rightarrow> rbind (sched_return c ie s) (release c Lk_ptable)
      | K_sleep ie lk \<Rightarrow>
          rbind (sched_return c ie s) (\<lambda>s.
          let s = upd_proc p (p_chan_update (\<lambda>_. None)) s
          in if lk \<noteq> Some Lk_ptable then
               rbind (release c Lk_ptable s) (\<lambda>s. case lk of None \<Rightarrow> Ok s | Some l \<Rightarrow> acquire c l s)
             else Ok s)
      | K_exit ie \<Rightarrow> rbind (sched_return c ie s) (\<lambda>_. Panic ''zombie exit''))"

section \<open>Waking\<close>

fun wakeup1_P4_loop :: "nat \<Rightarrow> ptr \<Rightarrow> chan option \<Rightarrow> 'a kstate_scheme \<Rightarrow> 'a kstate_scheme res" where
  "wakeup1_P4_loop 0 pp ch s = Hang"
| "wakeup1_P4_loop (Suc k) pp ch s =
     (case pp of
        None \<Rightarrow> Ok s
      | Some p \<Rightarrow>
          if p_state (procs s p) = SLEEPING \<and> p_chan (procs s p) = ch then
            rbind (remove_or_panic (SL SLEEPING) p SLEEPING ''Proccess Not Found In SLEEPING List!'' s) (\<lambda>s.
            let s = upd_proc p (p_state_update (\<lambda>_. RUNNABLE)) s
            in rbind (ready_at (p_priority (procs s p))) (\<lambda>l.
               rbind (stateListAdd l p s) (\<lambda>s.
               wakeup1_P4_loop k (p_next (procs s p)) ch s)))
          else wakeup1_P4_loop k (p_next (procs s p)) ch s)"

definition wakeup1_P4 :: "chan option \<Rightarrow> 'a kstate_scheme \<Rightarrow> 'a kstate_scheme res" where
  "wakeup1_P4 ch s = wakeup1_P4_loop (Suc NPROC) (q_head (get_ptrs (SL SLEEPING) s)) ch s"

definition wakeup_P4 :: "nat \<Rightarrow> chan option \<Rightarrow> 'a kstate_scheme \<Rightarrow> 'a kstate_scheme res" where
  "wakeup_P4 c ch s =
     rbind (acquire c Lk_ptable s) (\<lambda>s.
     rbind (wakeup1_P4 ch s) (release c Lk_ptable))"

section \<open>Moving a slot between lists\<close>

definition place :: "proc \<Rightarrow> listref" where
  "place k = (if p_state k = RUNNABLE then RL (nat (p_priority k)) else SL (p_state k))"

definition shift :: "listref \<Rightarrow> listref \<Rightarrow> nat \<Rightarrow> (listref \<Rightarrow> nat list) \<Rightarrow> listref \<Rightarrow> nat list" where
  "shift a b p v = (let w = v(a := remove1 p (v a)) in w(b := w b @ [p]))"

definition link_free :: "(proc \<Rightarrow> proc) \<Rightarrow> bool" where
  "link_free f \<longleftrightarrow> (\<forall>k g. f (p_next_update g k) = p_next_update g (f k))"

text \<open>The table reads \<open>v\<close> and \<open>co\<close>, with \<open>X\<close> in transit, and everything else is as in \<open>r\<close>.\<close>

definition effect :: "nat set \<Rightarrow> (listref \<Rightarrow> nat list) \<Rightarrow> (nat \<Rightarrow> proc) \<Rightarrow> 'a kstate_scheme \<Rightarrow> 'a kstate_scheme \<Rightarrow> bool" where
  "effect X v co r t \<longleftrightarrow> pinv X t \<and> view t = v \<and> core t = co \<and> same_rest r t"

lemma effectD:
  assumes "effect X v co r t"
  shows "pinv X t" "view t = v" "core t = co" "same_rest r t"
  using assms by (simp_all add: effect_def)

lemma effect_self: "pinv X s \<Longrightarrow> effect X (view s) (core s) s s"
  by (simp add: effect_def)

lemma home_place: "home s p = place (procs s p)"
  by (simp add: home_def place_def)

lemma place_core [simp]: "place (core s p) = place (procs s p)"
  by (simp add: place_def)

lemma prio_ok_core_sel [simp]: "prio_ok (core s p) = prio_ok (procs s p)"
  by (simp add: prio_ok_def)

lemma link_free_next:
  assumes "link_free f"
  shows "keeps_next f"
proof -
  have "p_next (f k) = p_next k" for k
  proof -
    have "p_next (f (p_next_update (\<lambda>_. p_next k) k)) = p_next (p_next_update (\<lambda>_. p_next k) (f k))"
      using assms unfolding link_free_def by metis
    then show ?thesis by simp
  qed
  then show ?thesis by (simp add: keeps_next_def)
qed

lemma link_free_core:
  assumes "link_free f"
  shows "core (upd_proc p f s) = (core s)(p := f (core s p))"
  using assms by (intro core_upd_proc) (simp add: link_free_def)

lemma link_free_upds [simp]:
  "link_free (p_state_update g1)" "link_free (p_priority_update g2)" "link_free (p_budget_update g3)"
  "link_free (p_killed_update g4)" "link_free (p_parent_update g5)" "link_free (p_chan_update g6)"
  "link_free (p_context_update g7)" "link_free (p_cpu_ticks_in_update g8)" "link_free (p_sz_update g9)"
  "link_free (p_pid_update g10)" "link_free (p_kstack_update g11)" "link_free (p_pgdir_update g12)"
  "link_free (p_uid_update g13)" "link_free (p_gid_update g14)" "link_free (p_tf_update g15)"
  "link_free (p_ofile_update g16)" "link_free (p_cwd_update g17)" "link_free (p_name_update g18)"
  by (simp_all add: link_free_def)

lemma upd_proc_upd_proc: "upd_proc p f (upd_proc p g s) = upd_proc p (\<lambda>k. f (g k)) s"
  by (simp add: upd_proc_def)

lemma same_rest_upd_left [simp]: "same_rest (upd_proc p f s) t = same_rest s t"
  by (simp add: same_rest_def upd_proc_def)

lemma remove_or_panic_spec:
  assumes "pinv X s" "p < NPROC" "p \<notin> X" "home s p = a" "p_state (procs s p) = st"
  shows "wp (remove_or_panic a p st msg s) 
    (effect (insert p X) ((view s)(a := remove1 p (view s a))) (core s) s)"
  unfolding remove_or_panic_def wp_rbind
  by (rule wp_mono [OF pinv_remove [OF assms(1-4)]])
    (use assms(5) in \<open>auto simp: assertState_def effect_def dest: core_eqD(1)\<close>)

text \<open>The shape of every transition: off the list of the old state, update, onto the list of the new.\<close>

lemma wp_put:
  assumes "pinv (insert p X) t" "p < NPROC" "p \<notin> X" "link_free f" "core t = core s"
    "prio_ok (f (procs s p))" "place (f (procs s p)) = b"
  shows "wp (stateListAdd b p (upd_proc p f t)) 
    (effect X ((view t)(b := view t b @ [p])) ((core s)(p := f (core s p))) t)"
proof -
  let ?t = "upd_proc p f t"
  have co: "core ?t = (core s)(p := f (core s p))" using assms(4,5) by (simp add: link_free_core)
  have cs: "core (upd_proc p f s) = (core s)(p := f (core s p))" using assms(4) by (simp add: link_free_core)
  have fp: "place (f (procs t p)) = place (f (procs s p))" "prio_ok (f (procs t p)) = prio_ok (f (procs s p))"
    using home_core [OF co [folded cs]] prio_ok_core [OF co [folded cs], of p]
    by (auto simp: home_place fun_eq_iff split: if_splits)
  have "pinv (insert p X) ?t"
    using assms fp by (intro pinv_upd_transit) (auto simp: link_free_next)
  then have "wp (stateListAdd b p ?t) (\<lambda>u. pinv (insert p X - {p}) u \<and>
      view u = (view ?t)(b := view ?t b @ [p]) \<and> core u = core ?t \<and> same_rest ?t u)"
    by (rule pinv_add) (use assms fp in \<open>auto simp: home_place\<close>)
  then show ?thesis
    by (rule wp_mono) (use assms(3,4) in \<open>auto simp: co link_free_next effect_def\<close>)
qed

lemma wp_move:
  assumes "pinv X s" "p < NPROC" "p \<notin> X" "home s p = a" "p_state (procs s p) = st" "link_free f"
    "prio_ok (f (procs s p))" "place (f (procs s p)) = b"
    and K: "\<And>t. core t = core s \<Longrightarrow> same_rest s t \<Longrightarrow> K t = rbind (stateListAdd b p (upd_proc p f t)) K'"
    and Q: "\<And>t. effect X (shift a b p (view s)) ((core s)(p := f (core s p))) s t \<Longrightarrow> wp (K' t) Q"
  shows "wp (rbind (remove_or_panic a p st msg s) K) Q"
  unfolding wp_rbind
proof (rule wp_mono [OF remove_or_panic_spec [OF assms(1-5)]])
  fix t
  assume "effect (insert p X) ((view s)(a := remove1 p (view s a))) (core s) s t"
  note t = effectD [OF this]
  have "wp (stateListAdd b p (upd_proc p f t))
      (effect X ((view t)(b := view t b @ [p])) ((core s)(p := f (core s p))) t)"
    using t assms by (intro wp_put) auto
  then have "wp (stateListAdd b p (upd_proc p f t)) (\<lambda>u. wp (K' u) Q)"
    by (rule wp_mono) (use t Q same_rest_trans [OF t(4)] in \<open>auto simp: shift_def Let_def effect_def\<close>)
  then show "wp (K t) Q" by (simp add: K [OF t(3,4)])
qed

section \<open>The machine part\<close>

lemma kstate_machine_sel [simp]:
  "procs (pushed c s) = procs s" "plist (pushed c s) = plist s" "ready (pushed c s) = ready s"
  "procs (popped c s) = procs s" "plist (popped c s) = plist s" "ready (popped c s) = ready s"
  "procs (touched c s) = procs s" "plist (touched c s) = plist s" "ready (touched c s) = ready s"
  "procs (set_lock lk h s) = procs s" "plist (set_lock lk h s) = plist s" "ready (set_lock lk h s) = ready s"
  "procs (upd_cpu c f s) = procs s" "plist (upd_cpu c f s) = plist s" "ready (upd_cpu c f s) = ready s"
  "procs (sti c s) = procs s" "plist (sti c s) = plist s" "ready (sti c s) = ready s"
  by (simp_all add: pushed_def popped_def touched_def set_lock_def upd_cpu_def sti_def)


lemma pinv_machine [simp]:
  "pinv X (pushed c s) = pinv X s" "pinv X (popped c s) = pinv X s" "pinv X (touched c s) = pinv X s"
  "pinv X (set_lock lk h s) = pinv X s" "pinv X (upd_cpu c f s) = pinv X s" "pinv X (sti c s) = pinv X s"
  by (rule pinv_cong; simp)+

lemma view_machine [simp]:
  "view (pushed c s) = view s" "view (popped c s) = view s" "view (touched c s) = view s"
  "view (set_lock lk h s) = view s" "view (upd_cpu c f s) = view s" "view (sti c s) = view s"
  by (rule view_cong; simp)+

lemma core_machine [simp]:
  "core (pushed c s) = core s" "core (popped c s) = core s" "core (touched c s) = core s"
  "core (set_lock lk h s) = core s" "core (upd_cpu c f s) = core s" "core (sti c s) = core s"
  by (simp_all add: core_def fun_eq_iff)

lemma acquired_table [simp]:
  "pinv X (acquired c lk s) = pinv X s" "view (acquired c lk s) = view s" "core (acquired c lk s) = core s"
  "procs (acquired c lk s) = procs s" "home (acquired c lk s) = home s"
  by (simp_all add: acquired_def home_def fun_eq_iff)

lemma released_table [simp]:
  "pinv X (released c lk s) = pinv X s" "view (released c lk s) = view s" "core (released c lk s) = core s"
  "procs (released c lk s) = procs s" "home (released c lk s) = home s"
  by (simp_all add: released_def home_def fun_eq_iff)

lemma pushed_touched [simp]: "pushed c (touched c s) = pushed c s"
  by (simp add: pushed_def touched_def)

lemma acquired_touched [simp]: "acquired c lk (touched c s) = acquired c lk s"
  by (simp add: acquired_def)

lemma machine_sel_upd_proc [simp]:
  "cpus (upd_proc p f s) = cpus s" "ncpu (upd_proc p f s) = ncpu s" "lapic_id (upd_proc p f s) = lapic_id s"
  "eflags_if (upd_proc p f s) = eflags_if s" "locks (upd_proc p f s) = locks s" "ticks (upd_proc p f s) = ticks s"
  "machine_ok (upd_proc p f s) = machine_ok s" "held_by lk (upd_proc p f s) = held_by lk s"
  by (simp_all add: upd_proc_def machine_ok_def held_by_def)

lemma same_rest_machine:
  assumes "same_rest s t"
  shows "machine_ok t = machine_ok s" "held_by lk t = held_by lk s" "lock_free lk t = lock_free lk s"
    "cpus t = cpus s" "ncpu t = ncpu s" "ticks t = ticks s" "eflags_if t = eflags_if s" "locks t = locks s"
  using assms by (simp_all add: same_rest_def machine_ok_def held_by_def lock_free_def)

text \<open>A core inside its critical section on \<open>ptable.lock\<close>, at depth one, as \<open>sched\<close> demands.\<close>

definition in_ptable :: "nat \<Rightarrow> 'a machine_scheme \<Rightarrow> bool" where
  "in_ptable c s \<longleftrightarrow> machine_ok s \<and> c < ncpu s \<and> held_by Lk_ptable s = Some c \<and> c_ncli (cpus s c) = 1"

definition at_rest :: "nat \<Rightarrow> 'a machine_scheme \<Rightarrow> bool" where
  "at_rest c s \<longleftrightarrow> machine_ok s \<and> c < ncpu s \<and> lock_free Lk_ptable s \<and> c_ncli (cpus s c) = 0"

lemma in_ptable_acquired: "at_rest c s \<Longrightarrow> in_ptable c (acquired c Lk_ptable s)"
  by (simp add: in_ptable_def at_rest_def acquired_def)

lemma in_ptable_cong:
  assumes "same_rest s t"
  shows "in_ptable c t = in_ptable c s"
  by (simp add: in_ptable_def same_rest_machine [OF assms])

lemma at_rest_acquire: "at_rest c s \<Longrightarrow> acquire c Lk_ptable s = Ok (acquired c Lk_ptable s)"
  by (simp add: at_rest_def acquire_eq)

lemma in_ptable_release: "in_ptable c s \<Longrightarrow> release c Lk_ptable s = Ok (released c Lk_ptable s)"
  by (simp add: in_ptable_def release_eq)

lemma at_rest_myproc: "at_rest c s \<Longrightarrow> myproc c s = Ok (c_proc (cpus s c), touched c s)"
  by (simp add: at_rest_def myproc_eq)

lemma apicid_touched [simp]: "c_apicid (cpus (touched c s) d) = c_apicid (cpus s d)"
  by (simp add: touched_def)

lemma at_rest_touched [simp]: "at_rest c (touched c s) = at_rest c s"
  by (simp add: at_rest_def machine_ok_def)

definition switched_out :: "uint \<Rightarrow> kcont \<Rightarrow> proc \<Rightarrow> proc" where
  "switched_out tk k q = q\<lparr>p_cpu_ticks_total := p_cpu_ticks_total q + (tk - p_cpu_ticks_in q), p_context := k\<rparr>"

lemma sched_eq:
  assumes "in_ptable c s" "c_proc (cpus s c) = Some p" "p_state (procs s p) \<noteq> RUNNING"
  shows "sched c k s = Ok (upd_proc p (switched_out (ticks s) (k (c_intena (cpus s c)))) s)"
proof -
  have m: "machine_ok s" "c < ncpu s" "lk_locked (locks s Lk_ptable)" "lk_cpu (locks s Lk_ptable) = Some c"
    "c_ncli (cpus s c) = 1"
    using assms(1) by (auto simp: in_ptable_def held_by_def split: if_splits)
  then have "\<not> eflags_if s c" "touched c s = s" by (simp_all add: machine_okD touched_nested)
  with m assms show ?thesis
    by (simp add: sched_def myproc_eq holding_eq upd_proc_upd_proc switched_out_def [abs_def])
qed

lemma link_free_cong:
  assumes "link_free f" "core t = core s"
  shows "p_priority (f (procs t p)) = p_priority (f (procs s p))" "p_state (f (procs t p)) = p_state (f (procs s p))"
proof -
  have "f (core t p) = f (core s p)" using assms(2) by simp
  then have "p_next_update (\<lambda>_. None) (f (procs t p)) = p_next_update (\<lambda>_. None) (f (procs s p))"
    using assms(1) by (simp add: core_def link_free_def)
  then have "p_priority (p_next_update (\<lambda>_. None) (f (procs t p))) = p_priority (p_next_update (\<lambda>_. None) (f (procs s p)))"
    "p_state (p_next_update (\<lambda>_. None) (f (procs t p))) = p_state (p_next_update (\<lambda>_. None) (f (procs s p)))" by simp_all
  then show "p_priority (f (procs t p)) = p_priority (f (procs s p))"
    "p_state (f (procs t p)) = p_state (f (procs s p))" by simp_all
qed

lemma wp_move_ready:
  assumes "pinv X s" "p < NPROC" "p \<notin> X" "home s p = a" "p_state (procs s p) = st" "link_free f"
    "prio_ok (f (procs s p))" "p_state (f (procs s p)) = RUNNABLE"
    and K: "\<And>t. core t = core s \<Longrightarrow> same_rest s t \<Longrightarrow>
      K t = rbind (ready_at (p_priority (f (procs t p)))) (\<lambda>l. rbind (stateListAdd l p (upd_proc p f t)) K')"
    and Q: "\<And>t. effect X (shift a (RL (nat (p_priority (f (core s p))))) p (view s)) ((core s)(p := f (core s p))) s t \<Longrightarrow>
      wp (K' t) Q"
  shows "wp (rbind (remove_or_panic a p st msg s) K) Q"
proof (rule wp_move [OF assms(1-7)])
  let ?b = "RL (nat (p_priority (f (procs s p))))"
  show "place (f (procs s p)) = ?b" using assms(8) by (simp add: place_def)
  have "f (core s p) = p_next_update (\<lambda>_. None) (f (procs s p))"
    using assms(6) by (simp add: core_def link_free_def)
  then have pc: "p_priority (f (core s p)) = p_priority (f (procs s p))" by simp
  show "K t = rbind (stateListAdd ?b p (upd_proc p f t)) K'" if "core t = core s" "same_rest s t" for t
    using K [OF that] ready_at_ok [OF assms(7)] by (simp add: link_free_cong [OF assms(6) that(1)])
  show "wp (K' t) Q" if "effect X (shift a ?b p (view s)) ((core s)(p := f (core s p))) s t" for t
    using Q that by (simp add: pc)
qed

lemma prio_ok_upds [simp]:
  "prio_ok (p_state_update g k) = prio_ok k" "prio_ok (p_budget_update h k) = prio_ok k"
  "prio_ok (p_chan_update i k) = prio_ok k"
  by (simp_all add: prio_ok_def)

section \<open>Giving up the processor\<close>

definition charged :: "uint \<Rightarrow> proc \<Rightarrow> proc" where
  "charged tk k =
     (let b = p_budget k - (tk - p_cpu_ticks_in k)
      in if sint b \<le> 0
         then k\<lparr>p_priority := (if 0 < p_priority k then p_priority k - 1 else p_priority k), p_budget := BUDGET\<rparr>
         else k\<lparr>p_budget := b\<rparr>)"

lemma charge_budget_eq: "charge_budget p s = upd_proc p (charged (ticks s)) s"
  by (simp add: charge_budget_def MAXPRIO_def Let_def upd_proc_upd_proc)
    (auto simp: upd_proc_def charged_def Let_def)

lemma charged_sel [simp]:
  "p_state (charged tk k) = p_state k" "p_cpu_ticks_in (charged tk k) = p_cpu_ticks_in k"
  "p_chan (charged tk k) = p_chan k" "p_pid (charged tk k) = p_pid k"
  by (simp_all add: charged_def Let_def)

lemma link_free_charged [simp]: "link_free (charged tk)"
  by (simp add: link_free_def charged_def Let_def)

lemma prio_ok_charged [simp]: "prio_ok k \<Longrightarrow> prio_ok (charged tk k)"
  by (auto simp: prio_ok_def charged_def Let_def)

lemma charged_budget_pos: "0 < sint (p_budget (charged tk k))"
proof -
  have "sint BUDGET = 1000000" by (simp add: BUDGET_def)
  then show ?thesis by (auto simp: charged_def Let_def)
qed

lemma charged_priority:
  "p_priority (charged tk k) =
     (if sint (p_budget k - (tk - p_cpu_ticks_in k)) \<le> 0 \<and> 0 < p_priority k
      then p_priority k - 1 else p_priority k)"
  by (simp add: charged_def Let_def)

lemma link_free_comp: "link_free f \<Longrightarrow> link_free g \<Longrightarrow> link_free (\<lambda>k. f (g k))"
  by (simp add: link_free_def)

lemma link_free_switched_out [simp]: "link_free (switched_out tk k)"
  by (simp add: link_free_def switched_out_def)

lemma switched_out_sel [simp]:
  "p_state (switched_out tk k q) = p_state q" "p_priority (switched_out tk k q) = p_priority q"
  "p_context (switched_out tk k q) = k" "p_budget (switched_out tk k q) = p_budget q"
  "p_chan (switched_out tk k q) = p_chan q" "p_pid (switched_out tk k q) = p_pid q"
  by (simp_all add: switched_out_def)

text \<open>The last step of \<open>yield\<close>, \<open>sleep\<close> and \<open>exit\<close>: \<open>sched\<close> on the slot just put on its list.\<close>

lemma wp_sched_off:
  assumes "in_ptable c s" "c_proc (cpus s c) = Some p" "p_state q \<noteq> RUNNING"
    "effect X v ((core s)(p := q)) s t"
  shows "wp (sched c k t)
    (effect X v ((core s)(p := switched_out (ticks s) (k (c_intena (cpus s c))) q)) s)"
proof -
  note t = effectD [OF assms(4)]
  note r = same_rest_machine [OF t(4)]
  have st: "p_state (procs t p) \<noteq> RUNNING"
    using assms(3) t(3) by (simp flip: core_sel(4))
  have "in_ptable c t" using in_ptable_cong [OF t(4)] assms(1) by simp
  then have "sched c k t = Ok (upd_proc p (switched_out (ticks s) (k (c_intena (cpus s c)))) t)"
    using st assms(2) by (simp add: sched_eq r)
  moreover have "pinv X (upd_proc p (switched_out tk k') t)" for tk k'
    using t(1) by (intro pinv_upd_field) (auto intro: link_free_next)
  ultimately show ?thesis
    using t by (simp add: effect_def link_free_core link_free_next)
qed

lemma acquired_rest:
  assumes "at_rest c s"
  shows "c_intena (cpus (acquired c Lk_ptable s) c) = eflags_if s c"
    "c_proc (cpus (acquired c lk s) c) = c_proc (cpus s c)" "ticks (acquired c lk s) = ticks s"
  using assms by (simp_all add: acquired_def at_rest_def pushed_def)

lemma yield_P4_spec:
  assumes "at_rest c s" "c_proc (cpus s c) = Some p" "p < NPROC" "pinv {} s" "p_state (procs s p) = RUNNING"
  defines "k \<equiv> charged (ticks s) ((core s p)\<lparr>p_state := RUNNABLE\<rparr>)"
  shows "wp (yield_P4 c s) (effect {} (shift (SL RUNNING) (RL (nat (p_priority k))) p (view s))
    ((core s)(p := switched_out (ticks s) (K_yield (eflags_if s c)) k)) (acquired c Lk_ptable s))"
proof -
  let ?s = "acquired c Lk_ptable s"
  let ?f = "\<lambda>k. charged (ticks s) (k\<lparr>p_state := RUNNABLE\<rparr>)"
  let ?Q = "effect {} (shift (SL RUNNING) (RL (nat (p_priority k))) p (view s))
    ((core s)(p := switched_out (ticks s) (K_yield (eflags_if s c)) k)) ?s"
  have i: "in_ptable c ?s" using assms(1) by (rule in_ptable_acquired)
  note ie = acquired_rest [OF assms(1)]
  have lf: "link_free ?f" by (rule link_free_comp [OF link_free_charged link_free_upds(1)])
  have "wp (rbind (remove_or_panic (SL RUNNING) p RUNNING ''Process Not Found In RUNNING List!'' ?s) (\<lambda>s.
      let s = upd_proc p (p_state_update (\<lambda>_. RUNNABLE)) s; s = charge_budget p s
      in rbind (ready_at (p_priority (procs s p))) (\<lambda>l. rbind (stateListAdd l p s) (sched c K_yield)))) ?Q"
  proof (rule wp_move_ready [where X = "{}" and f = ?f and K' = "sched c K_yield"])
    show "pinv {} ?s" "p < NPROC" "p \<notin> {}" "link_free ?f" "p_state (procs ?s p) = RUNNING"
      "home ?s p = SL RUNNING" "p_state (?f (procs ?s p)) = RUNNABLE"
      using assms lf by (simp_all add: home_simps)
    show "prio_ok (?f (procs ?s p))" using pinvD(6) [OF assms(4,3)] by simp
    show "wp (sched c K_yield t) ?Q"
      if "effect {} (shift (SL RUNNING) (RL (nat (p_priority (?f (core ?s p))))) p (view ?s))
        ((core ?s)(p := ?f (core ?s p))) ?s t" for t
      using wp_sched_off [OF i _ _ that] assms(2) by (simp add: ie k_def)
  qed (use ie(3) in \<open>simp add: charge_budget_eq upd_proc_upd_proc same_rest_def Let_def\<close>)
  then show ?thesis
    unfolding yield_P4_def using assms(1,2) by (simp add: at_rest_myproc at_rest_acquire)
qed

section \<open>Sleeping\<close>

text \<open>What \<open>sleep(chan, lk)\<close> needs: at most \<open>lk\<close> held, and then by this core.\<close>

definition can_sleep :: "nat \<Rightarrow> lockid option \<Rightarrow> 'a machine_scheme \<Rightarrow> bool" where
  "can_sleep c lk s \<longleftrightarrow>
     (case lk of
        None \<Rightarrow> at_rest c s
      | Some l \<Rightarrow>
          if l = Lk_ptable then in_ptable c s
          else machine_ok s \<and> c < ncpu s \<and> held_by l s = Some c \<and> lock_free Lk_ptable s \<and>
               c_ncli (cpus s c) = 1)"

definition sleeping_locked :: "nat \<Rightarrow> lockid option \<Rightarrow> 'a machine_scheme \<Rightarrow> 'a machine_scheme" where
  "sleeping_locked c lk s =
     (case lk of
        None \<Rightarrow> acquired c Lk_ptable s
      | Some l \<Rightarrow> if l = Lk_ptable then s else released c l (acquired c Lk_ptable s))"

lemma can_sleep_machine: "can_sleep c lk s \<Longrightarrow> machine_ok s \<and> c < ncpu s"
  by (auto simp: can_sleep_def at_rest_def in_ptable_def split: option.splits if_splits)

lemma can_sleep_touched: "can_sleep c (Some l) s \<Longrightarrow> touched c s = s"
  by (auto simp: can_sleep_def in_ptable_def touched_nested split: if_splits)

lemma sleep_lock_eq:
  assumes "can_sleep c lk s"
  shows "sleep_lock c lk (touched c s) = Ok (sleeping_locked c lk s)"
proof (cases lk)
  case None
  then show ?thesis using assms by (simp add: can_sleep_def sleep_lock_def sleeping_locked_def at_rest_acquire)
next
  case (Some l)
  have t: "touched c s = s" using assms Some can_sleep_touched by blast
  then show ?thesis
    using assms Some
    by (auto simp: can_sleep_def sleep_lock_def sleeping_locked_def acquire_eq release_eq acquired_def)
qed

lemma sleeping_locked_table [simp]:
  "pinv X (sleeping_locked c lk s) = pinv X s" "view (sleeping_locked c lk s) = view s"
  "core (sleeping_locked c lk s) = core s" "procs (sleeping_locked c lk s) = procs s"
  "home (sleeping_locked c lk s) = home s"
  by (simp_all add: sleeping_locked_def split: option.splits)

lemma sleeping_locked_in_ptable:
  assumes "can_sleep c lk s"
  shows "in_ptable c (sleeping_locked c lk s)" "ticks (sleeping_locked c lk s) = ticks s"
    "c_proc (cpus (sleeping_locked c lk s) c) = c_proc (cpus s c)"
proof -
  show "ticks (sleeping_locked c lk s) = ticks s"
    "c_proc (cpus (sleeping_locked c lk s) c) = c_proc (cpus s c)"
    by (auto simp: sleeping_locked_def acquired_def released_def split: option.splits)
  show "in_ptable c (sleeping_locked c lk s)"
    using assms
    by (auto simp: sleeping_locked_def can_sleep_def in_ptable_acquired split: option.splits if_splits)
      (auto simp: in_ptable_def acquired_def released_nested)
qed

lemma in_ptable_upd_proc [simp]: "in_ptable c (upd_proc p f s) = in_ptable c s"
  by (simp add: in_ptable_def)

definition put_to_sleep :: "uint \<Rightarrow> chan option \<Rightarrow> proc \<Rightarrow> proc" where
  "put_to_sleep tk ch k = (charged tk (k\<lparr>p_chan := ch\<rparr>))\<lparr>p_state := SLEEPING\<rparr>"

lemma sleep_P4_spec:
  assumes "can_sleep c lk s" "c_proc (cpus s c) = Some p" "p < NPROC" "pinv {} s" "p_state (procs s p) = RUNNING"
  defines "ie \<equiv> c_intena (cpus (sleeping_locked c lk s) c)"
  shows "wp (sleep_P4 c ch lk s) (effect {} (shift (SL RUNNING) (SL SLEEPING) p (view s))
    ((core s)(p := switched_out (ticks s) (K_sleep ie lk) (put_to_sleep (ticks s) ch (core s p))))
    (sleeping_locked c lk s))"
proof -
  let ?l = "sleeping_locked c lk s"
  let ?s = "upd_proc p (p_chan_update (\<lambda>_. ch)) ?l"
  let ?f = "\<lambda>k. (charged (ticks s) k)\<lparr>p_state := SLEEPING\<rparr>"
  let ?k = "\<lambda>ie. K_sleep ie lk"
  let ?Q = "effect {} (shift (SL RUNNING) (SL SLEEPING) p (view s))
    ((core s)(p := switched_out (ticks s) (K_sleep ie lk) (put_to_sleep (ticks s) ch (core s p)))) ?l"
  note m = sleeping_locked_in_ptable [OF assms(1)]
  have lf: "link_free ?f" by (rule link_free_comp [OF link_free_upds(1) link_free_charged])
  have cs: "core ?s = (core s)(p := (core s p)\<lparr>p_chan := ch\<rparr>)" by (simp add: link_free_core)
  have inv: "pinv {} ?s" using assms(4) by (intro pinv_upd_field) auto
  have "wp (rbind (remove_or_panic (SL RUNNING) p RUNNING ''Process Not Found In RUNNING List!'' ?s) (\<lambda>s.
      let s = charge_budget p s; s = upd_proc p (p_state_update (\<lambda>_. SLEEPING)) s
      in rbind (stateListAdd (SL SLEEPING) p s) (sched c ?k))) ?Q"
  proof (rule wp_move [where X = "{}" and f = ?f and b = "SL SLEEPING" and K' = "sched c ?k"])
    show "pinv {} ?s" "p < NPROC" "p \<notin> {}" "link_free ?f" "p_state (procs ?s p) = RUNNING"
      "home ?s p = SL RUNNING" "place (?f (procs ?s p)) = SL SLEEPING"
      using assms lf inv by (simp_all add: home_simps place_def)
    show "prio_ok (?f (procs ?s p))" using pinvD(6) [OF assms(4,3)] by simp
    show "wp (sched c ?k t) ?Q"
      if "effect {} (shift (SL RUNNING) (SL SLEEPING) p (view ?s)) ((core ?s)(p := ?f (core ?s p))) ?s t" for t
    proof -
      have "wp (sched c ?k t) (effect {} (shift (SL RUNNING) (SL SLEEPING) p (view ?s)) ((core ?s)(p :=
          switched_out (ticks ?s) (?k (c_intena (cpus ?s c))) (?f (core ?s p)))) ?s)"
        by (rule wp_sched_off [OF _ _ _ that]) (use m assms(2) in simp_all)
      then show ?thesis
        by (rule wp_mono) (simp add: effect_def cs m ie_def put_to_sleep_def)
    qed
  qed (use m(2) in \<open>simp add: charge_budget_eq upd_proc_upd_proc same_rest_def Let_def\<close>)
  then show ?thesis
    unfolding sleep_P4_def using assms(2) can_sleep_machine [OF assms(1)]
    by (simp add: myproc_eq sleep_lock_eq [OF assms(1)])
qed

section \<open>Waking\<close>

lemma last_next:
  assumes "qinv s" "view s l = xs @ [p]"
  shows "p_next (procs s p) = None"
  using qinvD(1) [OF assms(1), of l] linked_nx_last [of "nx s" _ "xs @ [p]"] assms(2)
  by (auto simp: is_queue_def nx_def)

definition woken :: "proc \<Rightarrow> proc" where
  "woken k = k\<lparr>p_state := RUNNABLE\<rparr>"

lemma wakeup1_P4_loop_spec:
  assumes "pinv X s" "linked (nx s) pp xs" "length xs < k" "set xs \<subseteq> set (view s (SL SLEEPING))"
  shows "wp (wakeup1_P4_loop k pp ch s) (case find (\<lambda>p. p_chan (procs s p) = ch) xs of
      None \<Rightarrow> (\<lambda>t. t = s)
    | Some p \<Rightarrow> effect X (shift (SL SLEEPING) (RL (nat (p_priority (procs s p)))) p (view s))
        ((core s)(p := woken (core s p))) s)"
  using assms(2-4)
proof (induction k arbitrary: pp xs)
  case (Suc k)
  show ?case
  proof (cases xs)
    case Nil
    with Suc.prems show ?thesis by simp
  next
    case (Cons p ys)
    with Suc.prems have pp: "pp = Some p" and ys: "linked (nx s) (nx s p) ys" "length ys < k"
      and m: "p \<in> set (view s (SL SLEEPING))" by auto
    have st: "p < NPROC" "p \<notin> X" "p_state (procs s p) = SLEEPING" "home s p = SL SLEEPING"
      using pinvD(2,3,4) [OF assms(1) m] by (auto simp: home_eq_SL)
    show ?thesis
    proof (cases "p_chan (procs s p) = ch")
      case False
      then show ?thesis
        using Suc.IH [OF ys] Suc.prems(3) Cons pp by (simp add: nx_def)
    next
      case True
      obtain k' where k: "k = Suc k'" using ys by (cases k) auto
      let ?K' = "\<lambda>s. wakeup1_P4_loop k (p_next (procs s p)) ch s"
      let ?Q = "effect X (shift (SL SLEEPING) (RL (nat (p_priority (procs s p)))) p (view s))
        ((core s)(p := woken (core s p))) s"
      have "wp (rbind (remove_or_panic (SL SLEEPING) p SLEEPING ''Proccess Not Found In SLEEPING List!'' s) (\<lambda>s.
            let s = upd_proc p (p_state_update (\<lambda>_. RUNNABLE)) s
            in rbind (ready_at (p_priority (procs s p))) (\<lambda>l. rbind (stateListAdd l p s) ?K'))) ?Q"
      proof (rule wp_move_ready [OF assms(1) st(1,2,4,3), where f = "p_state_update (\<lambda>_. RUNNABLE)" and K' = ?K'])
        show "prio_ok ((procs s p)\<lparr>p_state := RUNNABLE\<rparr>)" using pinvD(6) [OF assms(1) st(1)] by simp
        show "wp (?K' t) ?Q"
          if "effect X (shift (SL SLEEPING) (RL (nat (p_priority ((core s p)\<lparr>p_state := RUNNABLE\<rparr>)))) p (view s))
            ((core s)(p := (core s p)\<lparr>p_state := RUNNABLE\<rparr>)) s t" for t
        proof -
          note t = effectD [OF that]
          have "p_next (procs t p) = None"
            by (rule last_next [OF pinvD(1) [OF t(1)], of "RL (nat (p_priority (procs s p)))"])
              (simp add: t(2) shift_def Let_def)
          then show ?thesis using that by (simp add: k woken_def)
        qed
      qed (simp_all add: Let_def)
      then show ?thesis using True Cons pp st(3) by simp
    qed
  qed
qed simp

lemma view_linked:
  assumes "qinv s"
  shows "linked (nx s) (q_head (get_ptrs l s)) (view s l)" "length (view s l) < Suc NPROC"
  using qinvD(1) [OF assms, of l] length_bounded [OF qinvD(3) [OF assms, of l] qinvD(2) [OF assms, of l]]
  by (simp_all add: is_queue_def less_Suc_eq_le)

text \<open>The effect of \<open>wakeup1\<close>: the first sleeper on the channel, if there is one, becomes \<open>RUNNABLE\<close>.\<close>

definition wakeup_effect :: "chan option \<Rightarrow> nat set \<Rightarrow> 'a kstate_scheme \<Rightarrow> 'a kstate_scheme \<Rightarrow> bool" where
  "wakeup_effect ch X s t \<longleftrightarrow>
     (case find (\<lambda>p. p_chan (procs s p) = ch) (view s (SL SLEEPING)) of
        None \<Rightarrow> t = s
      | Some p \<Rightarrow> effect X (shift (SL SLEEPING) (RL (nat (p_priority (procs s p)))) p (view s))
          ((core s)(p := woken (core s p))) s t)"

lemma wakeup1_P4_spec:
  assumes "pinv X s"
  shows "wp (wakeup1_P4 ch s) (wakeup_effect ch X s)"
  unfolding wakeup1_P4_def
  by (rule wp_mono [OF wakeup1_P4_loop_spec [OF assms view_linked [OF pinvD(1) [OF assms]] subset_refl]])
    (simp add: wakeup_effect_def split: option.splits)

lemma wakeup_effectD:
  assumes "wakeup_effect ch X s t" "pinv X s"
  shows "pinv X t" "same_rest s t"
  using assms by (auto simp: wakeup_effect_def effect_def split: option.splits)

lemma wakeup_P4_spec:
  assumes "at_rest c s" "pinv X s"
  shows "wp (wakeup_P4 c ch s) (\<lambda>t. \<exists>u. wakeup_effect ch X (acquired c Lk_ptable s) u \<and> t = released c Lk_ptable u)"
proof -
  let ?s = "acquired c Lk_ptable s"
  have "wp (wakeup1_P4 ch ?s) (\<lambda>u. wp (release c Lk_ptable u)
      (\<lambda>t. \<exists>u. wakeup_effect ch X ?s u \<and> t = released c Lk_ptable u))"
  proof (rule wp_mono [OF wakeup1_P4_spec [of X]])
    show "pinv X ?s" using assms(2) by simp
    fix u
    assume u: "wakeup_effect ch X ?s u"
    have "in_ptable c u"
      using in_ptable_cong [OF wakeup_effectD(2) [OF u]] in_ptable_acquired [OF assms(1)] assms(2) by simp
    then show "wp (release c Lk_ptable u) (\<lambda>t. \<exists>u. wakeup_effect ch X ?s u \<and> t = released c Lk_ptable u)"
      using u by (auto simp: in_ptable_release)
  qed
  then show ?thesis
    using assms(1) by (simp add: wakeup_P4_def at_rest_acquire)
qed

text \<open>\<open>wakeup\<close> called with other locks held.\<close>

lemma mach_eq_same_rest: "same_rest s t \<Longrightarrow> mach_eq s t"
  by (simp add: same_rest_def mach_eq_def)

lemma more_acquired [simp]: "kstate.more (acquired c lk s) = kstate.more s"
  by (simp add: acquired_def set_lock_def pushed_def)

lemma more_released [simp]: "kstate.more (released c lk s) = kstate.more s"
  by (simp add: released_def popped_def set_lock_def touched_def)

lemma wakeup_nested:
  assumes "machine_ok s" "c < ncpu s" "unlocked Lk_ptable s" "pinv {} s"
  shows "wp (wakeup_P4 c ch s) (\<lambda>t. pinv {} t \<and> mach_eq s t \<and> kstate.more t = kstate.more s \<and>
    (\<exists>u. wakeup_effect ch {} (acquired c Lk_ptable s) u \<and> t = released c Lk_ptable u))"
proof -
  let ?s = "acquired c Lk_ptable s"
  have ac: "acquire c Lk_ptable s = Ok ?s" using assms by (intro acquire_eq) (simp_all add: unlocked_def lock_free_def)
  have i: "pinv {} ?s" using assms(4) by simp
  have "wp (rbind (wakeup1_P4 ch ?s) (release c Lk_ptable)) (\<lambda>t. pinv {} t \<and> mach_eq s t \<and> kstate.more t = kstate.more s \<and>
    (\<exists>u. wakeup_effect ch {} ?s u \<and> t = released c Lk_ptable u))"
  proof (rule wp_bindI [OF wakeup1_P4_spec [OF i]])
    fix u
    assume u: "wakeup_effect ch {} ?s u"
    note d = wakeup_effectD [OF u i]
    note r = mach_section [OF assms(1-3) mach_eq_same_rest [OF d(2)]]
    have "kstate.more u = kstate.more s" using d(2) by (simp add: same_rest_def)
    then show "wp (release c Lk_ptable u) (\<lambda>t. pinv {} t \<and> mach_eq s t \<and> kstate.more t = kstate.more s \<and>
        (\<exists>u. wakeup_effect ch {} ?s u \<and> t = released c Lk_ptable u))"
      using u d(1) r by auto
  qed
  then show ?thesis by (simp add: wakeup_P4_def ac)
qed

section \<open>Coming back from the switch\<close>

definition set_intena :: "nat \<Rightarrow> bool \<Rightarrow> 'a kstate_scheme \<Rightarrow> 'a kstate_scheme" where
  "set_intena c ie s = upd_cpu c (c_intena_update (\<lambda>_. ie)) s"

lemma upd_cpu_sel [simp]:
  "cpus (upd_cpu c f s) = (cpus s)(c := f (cpus s c))" "ncpu (upd_cpu c f s) = ncpu s"
  "locks (upd_cpu c f s) = locks s" "eflags_if (upd_cpu c f s) = eflags_if s"
  "lapic_id (upd_cpu c f s) = lapic_id s" "ticks (upd_cpu c f s) = ticks s"
  "held_by lk (upd_cpu c f s) = held_by lk s" "lock_free lk (upd_cpu c f s) = lock_free lk s"
  by (simp_all add: upd_cpu_def held_by_def lock_free_def)

lemma in_ptable_upd_cpu:
  assumes "\<And>k. c_ncli (f k) = c_ncli k" "\<And>k. c_apicid (f k) = c_apicid k"
  shows "in_ptable c (upd_cpu d f s) = in_ptable c s"
proof -
  have "c_ncli (cpus (upd_cpu d f s) i) = c_ncli (cpus s i)" "c_apicid (cpus (upd_cpu d f s) i) = c_apicid (cpus s i)" for i
    using assms by simp_all
  then show ?thesis by (simp add: in_ptable_def machine_ok_def del: upd_cpu_sel(1))
qed

lemma in_ptable_set_intena [simp]: "in_ptable c (set_intena d ie s) = in_ptable c s"
  by (simp add: set_intena_def in_ptable_upd_cpu)

lemma sched_return_eq:
  assumes "in_ptable c s"
  shows "sched_return c ie s = Ok (set_intena c ie s)"
proof -
  have "mycpu c s = Ok c"
    using assms by (intro mycpu_eq) (auto simp: in_ptable_def machine_okD)
  then show ?thesis by (simp add: sched_return_def set_intena_def)
qed

lemma resume_yield:
  assumes "in_ptable c s" "p_context (procs s p) = K_yield ie"
  shows "resume fsinit c p s = Ok (released c Lk_ptable (set_intena c ie s))"
  using assms by (simp add: resume_def sched_return_eq in_ptable_release)

lemma resume_sleep:
  assumes "in_ptable c s" "p_context (procs s p) = K_sleep ie lk" "\<And>l. lk = Some l \<Longrightarrow> l \<noteq> Lk_ptable \<Longrightarrow> lock_free l s"
  shows "resume fsinit c p s =
    (let u = upd_proc p (p_chan_update (\<lambda>_. None)) (set_intena c ie s)
     in case lk of None \<Rightarrow> Ok (released c Lk_ptable u)
        | Some l \<Rightarrow> Ok (if l = Lk_ptable then u else acquired c l (released c Lk_ptable u)))"
proof -
  let ?u = "upd_proc p (p_chan_update (\<lambda>_. None)) (set_intena c ie s)"
  have i: "in_ptable c ?u" using assms(1) by simp
  have "acquire c l (released c Lk_ptable ?u) = Ok (acquired c l (released c Lk_ptable ?u))"
    if "lk = Some l" "l \<noteq> Lk_ptable" for l
  proof (rule acquire_eq)
    show "machine_ok (released c Lk_ptable ?u)" "c < ncpu (released c Lk_ptable ?u)"
      using i by (auto simp: in_ptable_def released_nested)
    show "lock_free l (released c Lk_ptable ?u)"
      using i assms(3) [OF that] that(2)
      by (simp add: in_ptable_def released_nested lock_free_def set_intena_def set_lock_def)
  qed
  then show ?thesis
    using assms(1,2) i by (auto simp: resume_def sched_return_eq in_ptable_release Let_def split: option.split)
qed

lemma released_state:
  assumes "in_ptable c s"
  shows "at_rest c (released c Lk_ptable s)" "eflags_if (released c Lk_ptable s) c = c_intena (cpus s c)"
    "c_proc (cpus (released c Lk_ptable s) c) = c_proc (cpus s c)"
  using assms by (auto simp: in_ptable_def at_rest_def released_nested) (simp_all add: popped_def)

section \<open>Properties\<close>

lemma sample_at_rest: "at_rest 0 sample"
  by (simp add: at_rest_def sample_machine)

lemma effect_in_ptable:
  assumes "effect X v co r t" "in_ptable c r"
  shows "in_ptable c t"
  using in_ptable_cong [OF effectD(4) [OF assms(1)]] assms(2) by simp

lemma effect_slot:
  assumes "effect X v co r t"
  shows "p_state (procs t p) = p_state (co p)" "p_priority (procs t p) = p_priority (co p)"
    "p_budget (procs t p) = p_budget (co p)" "p_chan (procs t p) = p_chan (co p)" "p_pid (procs t p) = p_pid (co p)"
    "p_killed (procs t p) = p_killed (co p)" "p_context (procs t p) = p_context (co p)"
    "p_parent (procs t p) = p_parent (co p)"
  using effectD(3) [OF assms] by (auto simp flip: core_sel)

text \<open>
  Property C11. \<open>yield\<close> (P4) moves the running process to the tail of the ready list of its priority
  and to no other list; it is lowered by one level exactly when its budget is used up and it is not
  at level 0 already, it always leaves with a positive budget, and no other process changes. The
  core is then alone in the \<open>ptable.lock\<close> section, as the scheduler expects.
\<close>

theorem yield_P4_requeues:
  assumes "at_rest c s" "c_proc (cpus s c) = Some p" "p < NPROC" "pinv {} s" "p_state (procs s p) = RUNNING"
  shows "wp (yield_P4 c s) (\<lambda>t. \<exists>i. pinv {} t \<and> in_ptable c t \<and>
    view t = (view s)(SL RUNNING := remove1 p (view s (SL RUNNING)), RL i := view s (RL i) @ [p]) \<and>
    p_state (procs t p) = RUNNABLE \<and> 0 < sint (p_budget (procs t p)) \<and> p_priority (procs t p) = int i \<and>
    int i = p_priority (procs s p) -
      (if sint (p_budget (procs s p) - (ticks s - p_cpu_ticks_in (procs s p))) \<le> 0 \<and> 0 < p_priority (procs s p)
       then 1 else 0) \<and>
    (\<forall>q. q \<noteq> p \<longrightarrow> core t q = core s q))"
proof (rule wp_mono [OF yield_P4_spec [OF assms]])
  fix t
  define k where "k = charged (ticks s) ((core s p)\<lparr>p_state := RUNNABLE\<rparr>)"
  assume "effect {} (shift (SL RUNNING) (RL (nat (p_priority (charged (ticks s) ((core s p)\<lparr>p_state := RUNNABLE\<rparr>))))) p (view s))
    ((core s)(p := switched_out (ticks s) (K_yield (eflags_if s c)) (charged (ticks s) ((core s p)\<lparr>p_state := RUNNABLE\<rparr>))))
    (acquired c Lk_ptable s) t"
  then have e: "effect {} (shift (SL RUNNING) (RL (nat (p_priority k))) p (view s))
    ((core s)(p := switched_out (ticks s) (K_yield (eflags_if s c)) k)) (acquired c Lk_ptable s) t"
    by (simp only: k_def)
  have pr: "p_priority k = p_priority (procs s p) -
      (if sint (p_budget (procs s p) - (ticks s - p_cpu_ticks_in (procs s p))) \<le> 0 \<and> 0 < p_priority (procs s p)
       then 1 else 0)"
    by (simp add: k_def charged_priority)
  have "0 \<le> p_priority k" using pinvD(6) [OF assms(4,3)] by (simp add: pr prio_ok_def)
  moreover have "0 < sint (p_budget k)" "p_state k = RUNNABLE" by (simp_all add: k_def charged_budget_pos)
  ultimately show "\<exists>i. pinv {} t \<and> in_ptable c t \<and>
    view t = (view s)(SL RUNNING := remove1 p (view s (SL RUNNING)), RL i := view s (RL i) @ [p]) \<and>
    p_state (procs t p) = RUNNABLE \<and> 0 < sint (p_budget (procs t p)) \<and> p_priority (procs t p) = int i \<and>
    int i = p_priority (procs s p) -
      (if sint (p_budget (procs s p) - (ticks s - p_cpu_ticks_in (procs s p))) \<le> 0 \<and> 0 < p_priority (procs s p)
       then 1 else 0) \<and>
    (\<forall>q. q \<noteq> p \<longrightarrow> core t q = core s q)"
    using effectD [OF e] effect_slot [OF e, of p] pr effect_in_ptable [OF e in_ptable_acquired [OF assms(1)]]
    by (intro exI [of _ "nat (p_priority k)"]) (simp add: shift_def)
qed

theorem yield_P4_requeues_witness:
  "wp (yield_P4 0 sample) (\<lambda>t. \<exists>i. pinv {} t \<and> in_ptable 0 t \<and>
    view t = sample_lists(SL RUNNING := [], RL i := sample_lists (RL i) @ [0]) \<and>
    p_state (procs t 0) = RUNNABLE \<and> 0 < sint (p_budget (procs t 0)) \<and> p_priority (procs t 0) = int i \<and> i = 2)"
  by (rule wp_mono [OF yield_P4_requeues [OF sample_at_rest _ _ sample_pinv]])
    (auto simp: NPROC_def sample_view sample_lists_def)





end
