(* ===== verification/Proc_Prio.thy ===== *)
theory Proc_Prio
  imports Proc_Sched
begin

text \<open>
  The routines of \<open>proc.c\<close> that look a process up by its pid under \<open>CS333_P4\<close>: \<open>kill\<close>,
  \<open>setpriority\<close> and \<open>getpriority\<close>.
\<close>

section \<open>Searching the lists by pid\<close>

text \<open>\<open>while(p) { if(p->pid == pid) ...; p = p->next; }\<close>: at most \<open>NPROC\<close> nodes on an acyclic list.\<close>

fun find_pid_loop :: "nat \<Rightarrow> ptr \<Rightarrow> uint \<Rightarrow> 'a kstate_scheme \<Rightarrow> nat option res" where
  "find_pid_loop 0 pp pid s = Hang"
| "find_pid_loop (Suc k) pp pid s =
     (case pp of
        None \<Rightarrow> Ok None
      | Some p \<Rightarrow> if p_pid (procs s p) = pid then Ok (Some p)
                  else find_pid_loop k (p_next (procs s p)) pid s)"

fun find_pid :: "listref list \<Rightarrow> uint \<Rightarrow> 'a kstate_scheme \<Rightarrow> nat option res" where
  "find_pid [] pid s = Ok None"
| "find_pid (l # ls) pid s =
     rbind (find_pid_loop (Suc NPROC) (q_head (get_ptrs l s)) pid s) (\<lambda>r.
     case r of Some p \<Rightarrow> Ok (Some p) | None \<Rightarrow> find_pid ls pid s)"

text \<open>\<open>for(int i = MAXPRIO; i > -1; --i)\<close> over \<open>ptable.ready\<close>.\<close>

definition ready_lists :: "listref list" where
  "ready_lists = map RL (rev [0..<Suc (nat MAXPRIO)])"

definition kill_P4 :: "nat \<Rightarrow> uint \<Rightarrow> 'a kstate_scheme \<Rightarrow> (int \<times> 'a kstate_scheme) res" where
  "kill_P4 c pid s =
     rbind (acquire c Lk_ptable s) (\<lambda>s.
     rbind (find_pid [SL EMBRYO, SL SLEEPING, SL RUNNING, SL ZOMBIE] pid s) (\<lambda>r.
     case r of
       Some p \<Rightarrow>
         let s = upd_proc p (p_killed_update (\<lambda>_. True)) s
         in rbind (if p_state (procs s p) = SLEEPING then
                     rbind (remove_or_panic (SL SLEEPING) p SLEEPING ''Process Not Found in Sleeping List!'' s) (\<lambda>s.
                     let s = upd_proc p (p_state_update (\<lambda>_. RUNNABLE)) s
                     in rbind (ready_at (p_priority (procs s p))) (\<lambda>l. stateListAdd l p s))
                   else Ok s) (\<lambda>s.
            rbind (release c Lk_ptable s) (\<lambda>s. Ok (0, s)))
     | None \<Rightarrow>
         rbind (find_pid ready_lists pid s) (\<lambda>r.
         case r of
           Some p \<Rightarrow>
             rbind (release c Lk_ptable (upd_proc p (p_killed_update (\<lambda>_. True)) s)) (\<lambda>s. Ok (0, s))
         | None \<Rightarrow> rbind (release c Lk_ptable s) (\<lambda>s. Ok (-1, s)))))"

section \<open>Priorities\<close>

text \<open>\<open>p->priority = priority; p->budget = BUDGET;\<close>\<close>

definition reprio :: "int \<Rightarrow> proc \<Rightarrow> proc" where
  "reprio pr k = k\<lparr>p_priority := pr, p_budget := BUDGET\<rparr>"

definition setpriority ::
  "nat \<Rightarrow> uint \<Rightarrow> int \<Rightarrow> 'a kstate_scheme \<Rightarrow> (int \<times> 'a kstate_scheme) res" where
  "setpriority c pid priority s =
     rbind (acquire c Lk_ptable s) (\<lambda>s.
     rbind (find_pid ready_lists pid s) (\<lambda>r.
     case r of
       Some p \<Rightarrow>
         if p_priority (procs s p) = priority then rbind (release c Lk_ptable s) (\<lambda>s. Ok (0, s))
         else
           rbind (ready_at (p_priority (procs s p))) (\<lambda>l.
           rbind (stateListRemove l (Some p) s) (\<lambda>(r, s).
           if r = -1 then Panic ''Not on Ready Lists!''
           else
             let s = upd_proc p (reprio priority) s
             in rbind (ready_at (p_priority (procs s p))) (\<lambda>l.
                rbind (stateListAdd l p s) (\<lambda>s.
                rbind (release c Lk_ptable s) (\<lambda>s. Ok (0, s))))))
     | None \<Rightarrow>
         rbind (find_pid [SL SLEEPING, SL RUNNING] pid s) (\<lambda>r.
         case r of
           Some p \<Rightarrow>
             let s = (if p_priority (procs s p) = priority then s
                      else upd_proc p (reprio priority) s)
             in rbind (release c Lk_ptable s) (\<lambda>s. Ok (0, s))
         | None \<Rightarrow> rbind (release c Lk_ptable s) (\<lambda>s. Ok (-1, s)))))"

definition getpriority :: "nat \<Rightarrow> uint \<Rightarrow> 'a kstate_scheme \<Rightarrow> (int \<times> 'a kstate_scheme) res" where
  "getpriority c pid s =
     rbind (acquire c Lk_ptable s) (\<lambda>s.
     rbind (find_pid (ready_lists @ [SL SLEEPING, SL RUNNING]) pid s) (\<lambda>r.
     case r of
       Some p \<Rightarrow>
         let ret = p_priority (procs s p)
         in rbind (release c Lk_ptable s) (\<lambda>s. Ok (ret, s))
     | None \<Rightarrow> rbind (release c Lk_ptable s) (\<lambda>s. Ok (-1, s))))"

section \<open>Lookup\<close>

definition slot_with :: "uint \<Rightarrow> 'a kstate_scheme \<Rightarrow> listref list \<Rightarrow> nat option" where
  "slot_with pid s ls = find (\<lambda>p. p_pid (procs s p) = pid) (concat (map (view s) ls))"

lemma find_pid_loop_eq:
  assumes "linked (nx s) pp xs" "length xs < k"
  shows "find_pid_loop k pp pid s = Ok (find (\<lambda>p. p_pid (procs s p) = pid) xs)"
  using assms
proof (induction k arbitrary: pp xs)
  case (Suc k)
  then show ?case by (cases xs) (auto simp: nx_def)
qed simp

lemma find_pid_eq:
  assumes "qinv s"
  shows "find_pid ls pid s = Ok (slot_with pid s ls)"
proof (induction ls)
  case (Cons l ls)
  then show ?case
    using find_pid_loop_eq [OF view_linked [OF assms, of l]]
    by (simp add: slot_with_def find_append del: find_pid_loop.simps split: option.split)
qed (simp add: slot_with_def)

lemma slot_with_append: "slot_with pid s (ls @ ms) = (case slot_with pid s ls of None \<Rightarrow> slot_with pid s ms | Some p \<Rightarrow> Some p)"
  by (simp add: slot_with_def find_append split: option.split)

lemma slot_with_Some:
  assumes "slot_with pid s ls = Some p"
  shows "p_pid (procs s p) = pid" "\<exists>l\<in>set ls. p \<in> set (view s l)"
  using assms by (auto simp: slot_with_def find_Some_iff dest: nth_mem)

lemma slot_with_None: "slot_with pid s ls = None \<longleftrightarrow> (\<forall>l\<in>set ls. \<forall>p\<in>set (view s l). p_pid (procs s p) \<noteq> pid)"
  by (auto simp: slot_with_def find_None_iff)

lemma set_ready_lists: "set ready_lists = RL ` {..nat MAXPRIO}"
  by (auto simp: ready_lists_def)

lemma home_in_ready:
  assumes "pinv X s" "p < NPROC" "p_state (procs s p) = RUNNABLE"
  shows "home s p \<in> set ready_lists"
  using pinvD(6) [OF assms(1,2)] assms(3) by (auto simp: set_ready_lists home_simps prio_ok_def)

lemma on_ready:
  assumes "pinv X s" "l \<in> set ready_lists" "p \<in> set (view s l)"
  shows "p < NPROC" "p \<notin> X" "p_state (procs s p) = RUNNABLE" "home s p = l"
  using assms pinvD(2,3,4) [OF assms(1,3)] by (auto simp: set_ready_lists home_eq_RL)

section \<open>kill\<close>

definition kill_lists :: "listref list" where
  "kill_lists = [SL EMBRYO, SL SLEEPING, SL RUNNING, SL ZOMBIE] @ ready_lists"

lemma kill_lists_used:
  assumes "pinv X s"
  shows "(\<exists>l\<in>set kill_lists. p \<in> set (view s l)) \<longleftrightarrow> p < NPROC \<and> p \<notin> X \<and> p_state (procs s p) \<noteq> UNUSED"
proof
  assume "\<exists>l\<in>set kill_lists. p \<in> set (view s l)"
  then obtain l where l: "l \<in> set kill_lists" "p \<in> set (view s l)" by blast
  then show "p < NPROC \<and> p \<notin> X \<and> p_state (procs s p) \<noteq> UNUSED"
    using pinvD(2,3,4) [OF assms l(2)]
    by (auto simp: kill_lists_def set_ready_lists home_eq_SL home_eq_RL)
next
  assume p: "p < NPROC \<and> p \<notin> X \<and> p_state (procs s p) \<noteq> UNUSED"
  then have "p \<in> set (view s (home s p))" using pinvD(5) [OF assms] by blast
  moreover have "home s p \<in> set kill_lists"
    using p home_in_ready [OF assms, of p] by (cases "p_state (procs s p)") (auto simp: kill_lists_def home_simps)
  ultimately show "\<exists>l\<in>set kill_lists. p \<in> set (view s l)" by blast
qed

definition kill_effect :: "uint \<Rightarrow> nat set \<Rightarrow> 'a kstate_scheme \<Rightarrow> int \<Rightarrow> 'a kstate_scheme \<Rightarrow> bool" where
  "kill_effect pid X s r t \<longleftrightarrow>
     (case slot_with pid s kill_lists of
        None \<Rightarrow> r = -1 \<and> t = s
      | Some p \<Rightarrow> r = 0 \<and>
          (if p_state (procs s p) = SLEEPING
           then effect X (shift (SL SLEEPING) (RL (nat (p_priority (procs s p)))) p (view s))
                  ((core s)(p := woken ((core s p)\<lparr>p_killed := True\<rparr>))) s t
           else effect X (view s) ((core s)(p := (core s p)\<lparr>p_killed := True\<rparr>)) s t))"

lemma kill_effect_inv: "kill_effect pid X s r t \<Longrightarrow> pinv X s \<Longrightarrow> pinv X t \<and> same_rest s t"
  by (auto simp: kill_effect_def effect_def split: option.splits if_splits)

definition mark_killed :: "nat \<Rightarrow> 'a kstate_scheme \<Rightarrow> 'a kstate_scheme" where
  "mark_killed p s = upd_proc p (p_killed_update (\<lambda>_. True)) s"

lemma mark_killed_facts:
  assumes "pinv X s"
  shows "pinv X (mark_killed p s)" "view (mark_killed p s) = view s"
    "core (mark_killed p s) = (core s)(p := (core s p)\<lparr>p_killed := True\<rparr>)" "same_rest s (mark_killed p s)"
    "p_state (procs (mark_killed p s) q) = p_state (procs s q)"
    "p_priority (procs (mark_killed p s) q) = p_priority (procs s q)"
  unfolding mark_killed_def using assms by (auto simp: link_free_core intro!: pinv_upd_field)

lemma kill_wake:
  assumes "pinv X s" "p < NPROC" "p \<notin> X" "p_state (procs s p) = SLEEPING"
  shows "wp (rbind (remove_or_panic (SL SLEEPING) p SLEEPING msg s) (\<lambda>s.
      let s = upd_proc p (p_state_update (\<lambda>_. RUNNABLE)) s
      in rbind (ready_at (p_priority (procs s p))) (\<lambda>l. stateListAdd l p s)))
    (effect X (shift (SL SLEEPING) (RL (nat (p_priority (procs s p)))) p (view s)) ((core s)(p := woken (core s p))) s)"
proof (rule wp_move_ready [OF assms(1-3) _ assms(4), where f = "p_state_update (\<lambda>_. RUNNABLE)" and K' = Ok])
  show "prio_ok ((procs s p)\<lparr>p_state := RUNNABLE\<rparr>)" using pinvD(6) [OF assms(1,2)] by simp
  show "(let s = upd_proc p (p_state_update (\<lambda>_. RUNNABLE)) t
      in rbind (ready_at (p_priority (procs s p))) (\<lambda>l. stateListAdd l p s)) =
    rbind (ready_at (p_priority (procs t p\<lparr>p_state := RUNNABLE\<rparr>))) (\<lambda>l.
      rbind (stateListAdd l p (upd_proc p (p_state_update (\<lambda>_. RUNNABLE)) t)) Ok)" for t
    by (simp add: Let_def)
qed (use assms in \<open>auto simp: home_simps woken_def\<close>)


lemma slot_used:
  assumes "pinv X s" "slot_with pid s ls = Some p" "set ls \<subseteq> set kill_lists"
  shows "p < NPROC" "p \<notin> X" "p_state (procs s p) \<noteq> UNUSED"
proof -
  have "\<exists>l\<in>set kill_lists. p \<in> set (view s l)" using slot_with_Some(2) [OF assms(2)] assms(3) by blast
  then show "p < NPROC" "p \<notin> X" "p_state (procs s p) \<noteq> UNUSED" using kill_lists_used [OF assms(1)] by auto
qed

lemma wp_release_with:
  assumes "in_ptable c s" "same_rest s u" "P r u"
  shows "wp (rbind (release c Lk_ptable u) (\<lambda>t. Ok (r, t))) (\<lambda>(r, t). \<exists>u. P r u \<and> t = released c Lk_ptable u)"
  using assms in_ptable_cong [OF assms(2)] by (auto simp: in_ptable_release)

lemma kill_marked:
  assumes "in_ptable c q" "pinv X q" "slot_with pid q kill_lists = Some p" "p_state (procs q p) \<noteq> SLEEPING"
  shows "wp (rbind (release c Lk_ptable (mark_killed p q)) (\<lambda>s. Ok (0, s)))
    (\<lambda>(r, t). \<exists>u. kill_effect pid X q r u \<and> t = released c Lk_ptable u)"
  using mark_killed_facts [OF assms(2)]
  by (intro wp_release_with [OF assms(1)]) (simp_all add: kill_effect_def effect_def assms)

lemma kill_found:
  assumes "in_ptable c q" "pinv X q" "slot_with pid q kill_lists = Some p"
  shows "wp (rbind (if p_state (procs q p) = SLEEPING then
        rbind (remove_or_panic (SL SLEEPING) p SLEEPING ''Process Not Found in Sleeping List!'' (mark_killed p q)) (\<lambda>s.
        let s = upd_proc p (p_state_update (\<lambda>_. RUNNABLE)) s
        in rbind (ready_at (p_priority (procs s p))) (\<lambda>l. stateListAdd l p s))
      else Ok (mark_killed p q)) (\<lambda>s. rbind (release c Lk_ptable s) (\<lambda>s. Ok (0, s))))
    (\<lambda>(r, t). \<exists>u. kill_effect pid X q r u \<and> t = released c Lk_ptable u)"
proof (cases "p_state (procs q p) = SLEEPING")
  case True
  note mk = mark_killed_facts [OF assms(2), of p]
  have rel: "wp (rbind (release c Lk_ptable u) (\<lambda>s. Ok (0, s))) (\<lambda>(r, t). \<exists>u. kill_effect pid X q r u \<and> t = released c Lk_ptable u)"
    if "effect X (shift (SL SLEEPING) (RL (nat (p_priority (procs (mark_killed p q) p)))) p (view (mark_killed p q)))
        ((core (mark_killed p q))(p := woken (core (mark_killed p q) p))) (mark_killed p q) u" for u
  proof (rule wp_release_with [OF assms(1)])
    show "same_rest q u" using same_rest_trans [OF mk(4) effectD(4) [OF that]] .
    then show "kill_effect pid X q 0 u"
      using that assms(3) True by (simp add: kill_effect_def mk effect_def)
  qed
  have st: "p_state (procs (mark_killed p q) p) = SLEEPING" using True mk(5) by simp
  show ?thesis
    unfolding if_P [OF True]
    by (rule wp_bindI [OF kill_wake [OF mk(1) slot_used(1,2) [OF assms(2,3) subset_refl] st] rel])
next
  case False
  then show ?thesis using kill_marked [OF assms False] by simp
qed

lemma kill_P4_spec:
  assumes "at_rest c s" "pinv X s"
  shows "wp (kill_P4 c pid s) (\<lambda>(r, t). \<exists>u. kill_effect pid X (acquired c Lk_ptable s) r u \<and> t = released c Lk_ptable u)"
proof -
  define q where "q = acquired c Lk_ptable s"
  let ?A = "[SL EMBRYO, SL SLEEPING, SL RUNNING, SL ZOMBIE]"
  let ?Q = "\<lambda>(r, t). \<exists>u. kill_effect pid X q r u \<and> t = released c Lk_ptable u"
  have i: "in_ptable c q" "pinv X q" using assms by (simp_all add: q_def in_ptable_acquired)
  note fp = find_pid_eq [OF pinvD(1) [OF i(2)]]
  have sw: "slot_with pid q kill_lists = (case slot_with pid q ?A of None \<Rightarrow> slot_with pid q ready_lists | Some p \<Rightarrow> Some p)"
    unfolding kill_lists_def by (rule slot_with_append)
  have sl: "p_state (procs q p) \<noteq> SLEEPING" if "slot_with pid q ready_lists = Some p" for p
    using slot_with_Some(2) [OF that] on_ready(3) [OF i(2)] by force
  have none: "wp (rbind (release c Lk_ptable q) (\<lambda>s. Ok (-1, s))) ?Q" if "slot_with pid q kill_lists = None"
    by (rule wp_release_with [OF i(1)]) (simp_all add: kill_effect_def that)
  have eq: "kill_P4 c pid s = (case slot_with pid q ?A of
       Some p \<Rightarrow>
         rbind (if p_state (procs q p) = SLEEPING then
                     rbind (remove_or_panic (SL SLEEPING) p SLEEPING ''Process Not Found in Sleeping List!'' (mark_killed p q)) (\<lambda>s.
                     let s = upd_proc p (p_state_update (\<lambda>_. RUNNABLE)) s
                     in rbind (ready_at (p_priority (procs s p))) (\<lambda>l. stateListAdd l p s))
                   else Ok (mark_killed p q)) (\<lambda>s. rbind (release c Lk_ptable s) (\<lambda>s. Ok (0, s)))
     | None \<Rightarrow>
         (case slot_with pid q ready_lists of
           Some p \<Rightarrow> rbind (release c Lk_ptable (mark_killed p q)) (\<lambda>s. Ok (0, s))
         | None \<Rightarrow> rbind (release c Lk_ptable q) (\<lambda>s. Ok (-1, s))))"
    using assms(1) fp 
    by (simp add: kill_P4_def at_rest_acquire mark_killed_def Let_def flip: q_def del: find_pid.simps cong: option.case_cong if_cong)
  show ?thesis
    unfolding eq q_def [symmetric]
    using none kill_found [OF i] kill_marked [OF i] sw sl by (simp only: split: option.split) auto
qed

section \<open>setpriority and getpriority\<close>

definition prio_lists :: "listref list" where
  "prio_lists = ready_lists @ [SL SLEEPING, SL RUNNING]"

lemma prio_lists_sub: "set prio_lists \<subseteq> set kill_lists"
  by (auto simp: prio_lists_def kill_lists_def)

definition setpriority_effect :: "uint \<Rightarrow> int \<Rightarrow> nat set \<Rightarrow> 'a kstate_scheme \<Rightarrow> int \<Rightarrow> 'a kstate_scheme \<Rightarrow> bool" where
  "setpriority_effect pid pr X s r t \<longleftrightarrow>
     (case slot_with pid s prio_lists of
        None \<Rightarrow> r = -1 \<and> t = s
      | Some p \<Rightarrow> r = 0 \<and>
          (if p_priority (procs s p) = pr then t = s
           else effect X (if p_state (procs s p) = RUNNABLE
                          then shift (RL (nat (p_priority (procs s p)))) (RL (nat pr)) p (view s) else view s)
                  ((core s)(p := reprio pr (core s p))) s t))"

lemma link_free_reprio [simp]: "link_free (reprio pr)"
  by (simp add: link_free_def reprio_def)

lemma reprio_sel [simp]:
  "p_state (reprio pr k) = p_state k" "p_priority (reprio pr k) = pr" "p_budget (reprio pr k) = BUDGET"
  by (simp_all add: reprio_def)

text \<open>\<open>setpriority\<close> does not call \<open>assertState\<close>; on the invariant that makes no difference.\<close>

lemma remove_no_assert:
  assumes "pinv X s" "p < NPROC" "p \<notin> X" "home s p = a" "p_state (procs s p) = st"
  shows "rbind (stateListRemove a (Some p) s) (\<lambda>(r, t). if r = -1 then Panic msg else K t) =
    rbind (remove_or_panic a p st msg s) K"
proof -
  have "wp (stateListRemove a (Some p) s) (\<lambda>(r, t). r = 0 \<and> core t = core s)"
    by (rule wp_mono [OF pinv_remove [OF assms(1-4)]]) auto
  then obtain t where t: "stateListRemove a (Some p) s = Ok (0, t)" "core t = core s"
    by (auto simp: wp_iff)
  moreover from this(2) have "p_state (procs t p) = st" using assms(5) by (simp add: core_eqD(1) [of t s p])
  ultimately show ?thesis by (simp add: remove_or_panic_def assertState_def)
qed

lemma pinv_reprio:
  assumes "pinv X s" "0 \<le> pr" "pr \<le> MAXPRIO" "p_state (procs s p) \<noteq> RUNNABLE"
  shows "pinv X (upd_proc p (reprio pr) s)"
proof -
  have "home (upd_proc p (reprio pr) s) = home s" using assms(4) by (auto simp: home_def fun_eq_iff)
  then show ?thesis
    using assms by (auto simp: pinv_def prio_ok_def link_free_next)
qed

lemma setpriority_ready:
  assumes "pinv X q" "slot_with pid q ready_lists = Some p" "0 \<le> pr" "pr \<le> MAXPRIO" "p_priority (procs q p) \<noteq> pr"
    and Q: "\<And>t. effect X (shift (RL (nat (p_priority (procs q p)))) (RL (nat pr)) p (view q))
      ((core q)(p := reprio pr (core q p))) q t \<Longrightarrow> wp (K' t) Q"
  shows "wp (rbind (ready_at (p_priority (procs q p))) (\<lambda>l.
      rbind (stateListRemove l (Some p) q) (\<lambda>(r, s).
      if r = -1 then Panic msg
      else
        let s = upd_proc p (reprio pr) s
        in rbind (ready_at (p_priority (procs s p))) (\<lambda>l. rbind (stateListAdd l p s) K')))) Q"
proof -
  obtain l where l: "l \<in> set ready_lists" "p \<in> set (view q l)" using slot_with_Some(2) [OF assms(2)] by blast
  note p = on_ready [OF assms(1) l]
  have h: "home q p = RL (nat (p_priority (procs q p)))" using p(3) by (simp add: home_simps)
  let ?K = "\<lambda>s. let s = upd_proc p (reprio pr) s
        in rbind (ready_at (p_priority (procs s p))) (\<lambda>l. rbind (stateListAdd l p s) K')"
  have "wp (rbind (remove_or_panic (RL (nat (p_priority (procs q p)))) p RUNNABLE msg q) ?K) Q"
  proof (rule wp_move_ready [OF assms(1) p(1,2) h p(3), where f = "reprio pr" and K' = K'])
    show "prio_ok (reprio pr (procs q p))" "p_state (reprio pr (procs q p)) = RUNNABLE"
      using assms(3,4) p(3) by (simp_all add: prio_ok_def)
    show "wp (K' t) Q"
      if "effect X (shift (RL (nat (p_priority (procs q p)))) (RL (nat (p_priority (reprio pr (core q p))))) p (view q))
        ((core q)(p := reprio pr (core q p))) q t" for t
      using Q that by simp
  qed (simp_all add: Let_def)
  then show ?thesis
    using remove_no_assert [OF assms(1) p(1,2) h p(3), of msg ?K] ready_at_ok [OF pinvD(6) [OF assms(1) p(1)]]
    by (simp del: wp_rbind)
qed

lemma setpriority_release:
  assumes "in_ptable c q" "setpriority_effect pid pr X q r u"
  shows "wp (rbind (release c Lk_ptable u) (\<lambda>s. Ok (r, s)))
    (\<lambda>(r, t). \<exists>u. setpriority_effect pid pr X q r u \<and> t = released c Lk_ptable u)"
proof (rule wp_release_with [OF assms(1)])
  show "same_rest q u"
    using assms(2) by (auto simp: setpriority_effect_def effect_def split: option.splits if_splits)
qed (rule assms(2))

lemma setpriority_notready:
  assumes "in_ptable c q" "pinv X q" "slot_with pid q ready_lists = None" "0 \<le> pr" "pr \<le> MAXPRIO"
  shows "wp (case slot_with pid q [SL SLEEPING, SL RUNNING] of
           Some p \<Rightarrow>
             let s = (if p_priority (procs q p) = pr then q else upd_proc p (reprio pr) q)
             in rbind (release c Lk_ptable s) (\<lambda>s. Ok (0, s))
         | None \<Rightarrow> rbind (release c Lk_ptable q) (\<lambda>s. Ok (-1, s)))
    (\<lambda>(r, t). \<exists>u. setpriority_effect pid pr X q r u \<and> t = released c Lk_ptable u)"
proof -
  have sw: "slot_with pid q prio_lists = slot_with pid q [SL SLEEPING, SL RUNNING]"
    unfolding prio_lists_def slot_with_append assms(3) by simp
  note rel = setpriority_release [OF assms(1), of pid pr X]
  show ?thesis
  proof (cases "slot_with pid q [SL SLEEPING, SL RUNNING]")
    case None
    then show ?thesis using rel [of "-1" q] sw by (simp add: setpriority_effect_def del: wp_rbind)
  next
    case (Some p)
    then have "p_state (procs q p) \<noteq> RUNNABLE"
      using slot_with_Some(2) [OF Some] pinvD(3) [OF assms(2)] by (fastforce simp: home_eq_SL)
    then have "setpriority_effect pid pr X q 0 (if p_priority (procs q p) = pr then q else upd_proc p (reprio pr) q)"
      using Some sw pinv_reprio [OF assms(2,4,5)]
      by (simp add: setpriority_effect_def effect_def link_free_core link_free_next)
    then show ?thesis using rel Some by (simp add: Let_def del: wp_rbind)
  qed
qed

lemma setpriority_spec:
  assumes "at_rest c s" "pinv X s" "0 \<le> pr" "pr \<le> MAXPRIO"
  shows "wp (setpriority c pid pr s)
    (\<lambda>(r, t). \<exists>u. setpriority_effect pid pr X (acquired c Lk_ptable s) r u \<and> t = released c Lk_ptable u)"
proof -
  define q where "q = acquired c Lk_ptable s"
  let ?K = "\<lambda>s. rbind (release c Lk_ptable s) (\<lambda>s. Ok (0 :: int, s))"
  let ?Q = "\<lambda>(r, t). \<exists>u. setpriority_effect pid pr X q r u \<and> t = released c Lk_ptable u"
  have i: "in_ptable c q" "pinv X q" using assms by (simp_all add: q_def in_ptable_acquired)
  note fp = find_pid_eq [OF pinvD(1) [OF i(2)]]
  have eqs: "setpriority c pid pr s = rbind (find_pid ready_lists pid q) (\<lambda>r. case r of
       Some p \<Rightarrow> if p_priority (procs q p) = pr then ?K q
         else
           rbind (ready_at (p_priority (procs q p))) (\<lambda>l.
           rbind (stateListRemove l (Some p) q) (\<lambda>(r, s).
           if r = -1 then Panic ''Not on Ready Lists!''
           else let s = upd_proc p (reprio pr) s
             in rbind (ready_at (p_priority (procs s p))) (\<lambda>l. rbind (stateListAdd l p s) ?K)))
     | None \<Rightarrow> rbind (find_pid [SL SLEEPING, SL RUNNING] pid q) (\<lambda>r. case r of
           Some p \<Rightarrow> let s = (if p_priority (procs q p) = pr then q else upd_proc p (reprio pr) q) in ?K s
         | None \<Rightarrow> rbind (release c Lk_ptable q) (\<lambda>s. Ok (-1, s))))"
    by (simp only: setpriority_def at_rest_acquire [OF assms(1)] rbind_simps flip: q_def)
  have "wp (setpriority c pid pr s) ?Q"
  proof (cases "slot_with pid q ready_lists")
    case None
    show ?thesis
      unfolding eqs fp None rbind_simps option.case by (rule setpriority_notready [OF i None assms(3,4)])
  next
    case (Some p)
    have st: "p_state (procs q p) = RUNNABLE" using slot_with_Some(2) [OF Some] on_ready(3) [OF i(2)] by blast
    have sw: "slot_with pid q prio_lists = Some p" unfolding prio_lists_def slot_with_append Some by simp
    show ?thesis
    proof (cases "p_priority (procs q p) = pr")
      case True
      then have "setpriority_effect pid pr X q 0 q" using sw by (simp add: setpriority_effect_def)
      then show ?thesis
        unfolding eqs fp Some rbind_simps option.case if_P [OF True] by (rule setpriority_release [OF i(1)])
    next
      case False
      have "wp (?K t) ?Q"
        if "effect X (shift (RL (nat (p_priority (procs q p)))) (RL (nat pr)) p (view q))
          ((core q)(p := reprio pr (core q p))) q t" for t
        by (rule setpriority_release [OF i(1)]) (use that False sw st in \<open>simp add: setpriority_effect_def\<close>)
      from setpriority_ready [OF i(2) Some assms(3,4) False this]
      show ?thesis unfolding eqs fp Some rbind_simps option.case if_not_P [OF False] .
    qed
  qed
  then show ?thesis by (simp only: q_def)
qed

lemma getpriority_spec:
  assumes "at_rest c s" "pinv X s"
  shows "getpriority c pid s = Ok (case slot_with pid s prio_lists of None \<Rightarrow> -1 | Some p \<Rightarrow> p_priority (procs s p),
    released c Lk_ptable (acquired c Lk_ptable s))"
proof -
  have i: "in_ptable c (acquired c Lk_ptable s)" "qinv (acquired c Lk_ptable s)"
    using assms pinvD(1) [of X "acquired c Lk_ptable s"] by (simp_all add: in_ptable_acquired)
  have "slot_with pid (acquired c Lk_ptable s) prio_lists = slot_with pid s prio_lists"
    by (simp add: slot_with_def)
  then show ?thesis
    using assms(1) i find_pid_eq [OF i(2), of prio_lists pid]
    by (simp add: getpriority_def at_rest_acquire in_ptable_release Let_def del: find_pid.simps flip: prio_lists_def
        split: option.split)
qed

section \<open>Properties\<close>

lemma released_effect_slot:
  assumes "effect X v co r u" "t = released c lk u"
  shows "p_state (procs t p) = p_state (co p)" "p_priority (procs t p) = p_priority (co p)"
    "p_pid (procs t p) = p_pid (co p)" "p_killed (procs t p) = p_killed (co p)" "core t = co" "view t = v" "pinv X t"
  using assms effect_slot [OF assms(1), of p] effectD [OF assms(1)] by simp_all

lemma slot_with_kill:
  assumes "pinv {} s"
  shows "slot_with pid s kill_lists = None \<longleftrightarrow> (\<forall>p<NPROC. p_state (procs s p) \<noteq> UNUSED \<longrightarrow> p_pid (procs s p) \<noteq> pid)"
  using kill_lists_used [OF assms] by (auto simp: slot_with_None)

text \<open>
  Property C13. \<open>kill\<close> (P4) returns 0 exactly when a slot in use has the pid, and then marks one such
  process killed, putting it on its ready list if it was asleep, and changes no other process; it
  returns -1 otherwise and changes nothing. The lists stay well formed and the lock is given back.
\<close>

theorem kill_P4_marks:
  assumes "at_rest c s" "pinv {} s"
  shows "wp (kill_P4 c pid s) (\<lambda>(r, t). pinv {} t \<and> at_rest c t \<and>
    (if \<exists>p<NPROC. p_state (procs s p) \<noteq> UNUSED \<and> p_pid (procs s p) = pid
     then r = 0 \<and> (\<exists>p<NPROC. p_state (procs s p) \<noteq> UNUSED \<and> p_pid (procs s p) = pid \<and> p_killed (procs t p) \<and>
       p_state (procs t p) = (if p_state (procs s p) = SLEEPING then RUNNABLE else p_state (procs s p)) \<and>
       (\<forall>q. q \<noteq> p \<longrightarrow> core t q = core s q))
     else r = -1 \<and> core t = core s \<and> view t = view s))"
proof (rule wp_mono [OF kill_P4_spec [OF assms]], clarify)
  fix r t u
  let ?s = "acquired c Lk_ptable s"
  assume k: "kill_effect pid {} ?s r u"
  have i: "in_ptable c u"
    using in_ptable_cong [of ?s u] kill_effect_inv [OF k] assms in_ptable_acquired [OF assms(1)] by simp
  have inv: "pinv {} u" using kill_effect_inv [OF k] assms by simp
  have sw: "slot_with pid ?s kill_lists = slot_with pid s kill_lists" by (simp add: slot_with_def)
  show "pinv {} (released c Lk_ptable u) \<and> at_rest c (released c Lk_ptable u) \<and>
    (if \<exists>p<NPROC. p_state (procs s p) \<noteq> UNUSED \<and> p_pid (procs s p) = pid
     then r = 0 \<and> (\<exists>p<NPROC. p_state (procs s p) \<noteq> UNUSED \<and> p_pid (procs s p) = pid \<and>
       p_killed (procs (released c Lk_ptable u) p) \<and> p_state (procs (released c Lk_ptable u) p) =
         (if p_state (procs s p) = SLEEPING then RUNNABLE else p_state (procs s p)) \<and>
       (\<forall>q. q \<noteq> p \<longrightarrow> core (released c Lk_ptable u) q = core s q))
     else r = -1 \<and> core (released c Lk_ptable u) = core s \<and> view (released c Lk_ptable u) = view s)"
  proof (cases "slot_with pid s kill_lists")
    case None
    then show ?thesis
      using k inv released_state(1) [OF i] slot_with_kill [OF assms(2), of pid] sw by (auto simp: kill_effect_def)
  next
    case (Some p)
    note p = slot_used [OF assms(2) Some subset_refl] slot_with_Some(1) [OF Some]
    have "r = 0" using k Some sw by (simp add: kill_effect_def)
    moreover have "p_killed (procs u p)" "\<forall>q. q \<noteq> p \<longrightarrow> core u q = core s q"
      "p_state (procs u p) = (if p_state (procs s p) = SLEEPING then RUNNABLE else p_state (procs s p))"
      using k Some sw
      by (auto simp: kill_effect_def woken_def effect_slot dest: effectD(3) split: if_splits)
    ultimately show ?thesis
      using inv released_state(1) [OF i] p by (auto intro!: exI [of _ p])
  qed
qed

theorem kill_P4_marks_witness:
  "wp (kill_P4 0 3 sample) (\<lambda>(r, t). pinv {} t \<and> at_rest 0 t \<and>
    (if \<exists>p<NPROC. p_state (procs sample p) \<noteq> UNUSED \<and> p_pid (procs sample p) = 3
     then r = 0 \<and> (\<exists>p<NPROC. p_state (procs sample p) \<noteq> UNUSED \<and> p_pid (procs sample p) = 3 \<and> p_killed (procs t p) \<and>
       p_state (procs t p) = (if p_state (procs sample p) = SLEEPING then RUNNABLE else p_state (procs sample p)) \<and>
       (\<forall>q. q \<noteq> p \<longrightarrow> core t q = core sample q))
     else r = -1 \<and> core t = core sample \<and> view t = view sample))"
  by (rule kill_P4_marks [OF sample_at_rest sample_pinv])

definition pids_unique :: "'a kstate_scheme \<Rightarrow> bool" where
  "pids_unique s \<longleftrightarrow> (\<forall>p<NPROC. \<forall>q<NPROC. p_state (procs s p) \<noteq> UNUSED \<longrightarrow> p_state (procs s q) \<noteq> UNUSED \<longrightarrow>
     p_pid (procs s p) = p_pid (procs s q) \<longrightarrow> p = q)"

lemma prio_lists_iff:
  assumes "pinv X s"
  shows "(\<exists>l\<in>set prio_lists. p \<in> set (view s l)) \<longleftrightarrow>
    p < NPROC \<and> p \<notin> X \<and> p_state (procs s p) \<in> {RUNNABLE, SLEEPING, RUNNING}"
proof
  assume "\<exists>l\<in>set prio_lists. p \<in> set (view s l)"
  then show "p < NPROC \<and> p \<notin> X \<and> p_state (procs s p) \<in> {RUNNABLE, SLEEPING, RUNNING}"
    using pinv_list_iff [OF assms, of p] by (auto simp: prio_lists_def set_ready_lists home_eq_SL home_eq_RL)
next
  assume p: "p < NPROC \<and> p \<notin> X \<and> p_state (procs s p) \<in> {RUNNABLE, SLEEPING, RUNNING}"
  then have "home s p \<in> set prio_lists"
    using home_in_ready [OF assms, of p] by (auto simp: prio_lists_def home_simps)
  then show "\<exists>l\<in>set prio_lists. p \<in> set (view s l)" using pinvD(5) [OF assms] p by blast
qed

lemma slot_with_unique:
  assumes "pinv {} s" "pids_unique s" "p < NPROC" "p_state (procs s p) \<in> {RUNNABLE, SLEEPING, RUNNING}"
    "p_pid (procs s p) = pid"
  shows "slot_with pid s prio_lists = Some p"
proof -
  have "\<exists>l\<in>set prio_lists. p \<in> set (view s l)" using prio_lists_iff [OF assms(1)] assms(3,4) by auto
  then have "slot_with pid s prio_lists \<noteq> None" using assms(5) by (auto simp: slot_with_None)
  then obtain q where q: "slot_with pid s prio_lists = Some q" by auto
  have "q < NPROC" "p_state (procs s q) \<in> {RUNNABLE, SLEEPING, RUNNING}"
    using slot_with_Some(2) [OF q] prio_lists_iff [OF assms(1), of q] by auto
  then have "q = p" using assms(2-5) slot_with_Some(1) [OF q] unfolding pids_unique_def by auto
  then show ?thesis using q by simp
qed

text \<open>
  Property C14. \<open>setpriority\<close> followed by \<open>getpriority\<close> on the same pid: either both find the process
  and the second reports the priority that was set, or both report -1. Pids of slots in use are
  distinct, and the priority is in range, as \<open>sys_setpriority\<close> checks.
\<close>

theorem setpriority_getpriority:
  assumes "at_rest c s" "pinv {} s" "pids_unique s" "0 \<le> pr" "pr \<le> MAXPRIO"
  shows "wp (rbind (setpriority c pid pr s) (\<lambda>(r, t). rbind (getpriority c pid t) (\<lambda>(g, u). Ok (r, g))))
    (\<lambda>(r, g). if \<exists>p<NPROC. p_state (procs s p) \<in> {RUNNABLE, SLEEPING, RUNNING} \<and> p_pid (procs s p) = pid
      then r = 0 \<and> g = pr else r = -1 \<and> g = -1)"
proof (rule wp_bindI [OF setpriority_spec [OF assms(1,2,4,5)]], clarify)
  fix r t u
  let ?s = "acquired c Lk_ptable s"
  assume k: "setpriority_effect pid pr {} ?s r u"
  let ?g = "getpriority c pid (released c Lk_ptable u)"
  have sw: "slot_with pid ?s prio_lists = slot_with pid s prio_lists" by (simp add: slot_with_def)
  have inv: "pinv {} u" "same_rest ?s u"
    using k assms(2) by (auto simp: setpriority_effect_def effect_def split: option.splits if_splits)
  have i: "in_ptable c u" using in_ptable_cong [OF inv(2)] in_ptable_acquired [OF assms(1)] by simp
  have ids: "p_state (procs u q) = p_state (procs s q)" "p_pid (procs u q) = p_pid (procs s q)" for q
    using k by (auto simp: setpriority_effect_def effect_slot reprio_def split: option.splits if_splits)
  have g: "?g = Ok (case slot_with pid u prio_lists of None \<Rightarrow> -1 | Some p \<Rightarrow> p_priority (procs u p),
      released c Lk_ptable (acquired c Lk_ptable (released c Lk_ptable u)))"
    using getpriority_spec [OF released_state(1) [OF i], of "{}" pid] inv(1) by (simp add: slot_with_def cong: option.case_cong)
  show "wp (rbind ?g (\<lambda>(g, u). Ok (r, g))) (\<lambda>(r, g).
      if \<exists>p<NPROC. p_state (procs s p) \<in> {RUNNABLE, SLEEPING, RUNNING} \<and> p_pid (procs s p) = pid
      then r = 0 \<and> g = pr else r = -1 \<and> g = -1)"
  proof (cases "slot_with pid s prio_lists")
    case None
    then have "r = -1" "u = ?s" using k sw by (auto simp: setpriority_effect_def)
    moreover have "\<not> (\<exists>p<NPROC. p_state (procs s p) \<in> {RUNNABLE, SLEEPING, RUNNING} \<and> p_pid (procs s p) = pid)"
      using slot_with_unique [OF assms(2,3), of _ pid] None by auto
    ultimately show ?thesis unfolding g using None sw by simp
  next
    case (Some p)
    have p: "p < NPROC" "p_state (procs s p) \<in> {RUNNABLE, SLEEPING, RUNNING}" "p_pid (procs s p) = pid"
      using slot_with_Some [OF Some] prio_lists_iff [OF assms(2), of p] by auto
    have "slot_with pid u prio_lists = Some p"
      by (rule slot_with_unique [OF inv(1)]) (use assms(3) p in \<open>simp_all add: pids_unique_def ids\<close>)
    moreover have "r = 0" "p_priority (procs u p) = pr"
      using k Some sw by (auto simp: setpriority_effect_def effect_slot split: if_splits)
    ultimately show ?thesis unfolding g using p by auto
  qed
qed

lemma sample_slot: "i < NPROC \<Longrightarrow> p_state (sample_proc i) \<noteq> UNUSED \<Longrightarrow> i \<in> {0, 1, 2, 3, 4, 5, 6}"
  by (auto simp: sample_proc_def blank_proc_def split: if_splits)

lemma sample_pids_unique: "pids_unique sample"
proof -
  have "p = q" if "p \<in> {0, 1, 2, 3, 4, 5, 6}" "q \<in> {0, 1, 2, 3, 4, 5, 6}" "p_pid (sample_proc p) = p_pid (sample_proc q)" for p q :: nat
    using that by (auto simp: sample_proc_def)
  then show ?thesis unfolding pids_unique_def using sample_slot by (metis sample_fields(1))
qed

theorem setpriority_getpriority_witness:
  "wp (rbind (setpriority 0 5 2 sample) (\<lambda>(r, t). rbind (getpriority 0 5 t) (\<lambda>(g, u). Ok (r, g))))
    (\<lambda>(r, g). r = 0 \<and> g = 2)"
proof -
  have "\<exists>p<NPROC. p_state (procs sample p) \<in> {RUNNABLE, SLEEPING, RUNNING} \<and> p_pid (procs sample p) = 5"
    by (rule exI [of _ 4]) (simp add: NPROC_def sample_proc_def)
  then show ?thesis
    using setpriority_getpriority [OF sample_at_rest sample_pinv sample_pids_unique, of 2 5]
    by (simp add: MAXPRIO_def)
qed

end
