(* ===== verification/Proc_Scheduler.thy ===== *)
theory Proc_Scheduler
  imports Proc_Prio
begin

text \<open>
  \<open>scheduler\<close> of \<open>proc.c\<close> under \<open>CS333_P4\<close>: the periodic promotion, the choice of the next process
  and the dispatch, with \<open>switchuvm\<close> and \<open>switchkvm\<close> of \<open>vm.c\<close> as far as the core's stack pointer and
  page-table register go (the task-state descriptor they also load is the same for every process).
\<close>

definition KSTACKSIZE :: uint where "KSTACKSIZE = 4096"

definition V2P :: "uint \<Rightarrow> uint" where "V2P a = a - KERNBASE"

section \<open>Address spaces\<close>

definition switchuvm :: "nat \<Rightarrow> ptr \<Rightarrow> 'a kstate_scheme \<Rightarrow> 'a kstate_scheme res" where
  "switchuvm c pp s =
     (case pp of
        None \<Rightarrow> Panic ''switchuvm: no process''
      | Some p \<Rightarrow>
          if p_kstack (procs s p) = 0 then Panic ''switchuvm: no kstack''
          else if p_pgdir (procs s p) = 0 then Panic ''switchuvm: no pgdir''
          else
            rbind (pushcli c s) (\<lambda>s.
            rbind (mycpu c s) (\<lambda>i.
            let s = upd_cpu i (\<lambda>k. k\<lparr>c_esp0 := p_kstack (procs s p) + KSTACKSIZE\<rparr>) s;
                s = upd_cpu c (\<lambda>k. k\<lparr>c_cr3 := V2P (p_pgdir (procs s p))\<rparr>) s
            in popcli c s)))"

definition switchkvm :: "nat \<Rightarrow> 'a kstate_scheme \<Rightarrow> 'a kstate_scheme" where
  "switchkvm c s = upd_cpu c (\<lambda>k. k\<lparr>c_cr3 := V2P (kpgdir s)\<rparr>) s"

section \<open>The scheduler\<close>

definition promote_slot :: "nat \<Rightarrow> 'a kstate_scheme \<Rightarrow> 'a kstate_scheme" where
  "promote_slot p s = upd_proc p (\<lambda>k. k\<lparr>p_priority := p_priority k + 1, p_budget := BUDGET\<rparr>) s"

fun promote_list :: "nat \<Rightarrow> ptr \<Rightarrow> 'a kstate_scheme \<Rightarrow> 'a kstate_scheme res" where
  "promote_list 0 pp s = Hang"
| "promote_list (Suc k) pp s =
     (case pp of
        None \<Rightarrow> Ok s
      | Some p \<Rightarrow>
          let s = (if p_priority (procs s p) < MAXPRIO then promote_slot p s else s)
          in promote_list k (p_next (procs s p)) s)"

fun promote_ready :: "nat \<Rightarrow> ptr \<Rightarrow> 'a kstate_scheme \<Rightarrow> 'a kstate_scheme res" where
  "promote_ready 0 pp s = Hang"
| "promote_ready (Suc k) pp s =
     (case pp of
        None \<Rightarrow> Ok s
      | Some p \<Rightarrow>
          let save = p_next (procs s p)
          in rbind (if p_priority (procs s p) < MAXPRIO then
                      rbind (ready_at (p_priority (procs s p))) (\<lambda>l.
                      rbind (remove_or_panic l p RUNNABLE ''Process Not Found in Ready Lists!'' s) (\<lambda>s.
                      let s = promote_slot p s
                      in rbind (ready_at (p_priority (procs s p))) (\<lambda>l. stateListAdd l p s)))
                    else Ok s)
             (promote_ready k save))"

fun promote_all_ready :: "listref list \<Rightarrow> 'a kstate_scheme \<Rightarrow> 'a kstate_scheme res" where
  "promote_all_ready [] s = Ok s"
| "promote_all_ready (l # ls) s =
     rbind (promote_ready (Suc NPROC) (q_head (get_ptrs l s)) s) (promote_all_ready ls)"

definition promote :: "'a kstate_scheme \<Rightarrow> 'a kstate_scheme res" where
  "promote s =
     (if PromoteAtTime s \<le> ticks s \<and> MAXPRIO \<noteq> 0 then
        rbind (promote_list (Suc NPROC) (q_head (get_ptrs (SL SLEEPING) s)) s) (\<lambda>s.
        rbind (promote_list (Suc NPROC) (q_head (get_ptrs (SL RUNNING) s)) s) (\<lambda>s.
        rbind (promote_all_ready ready_lists s) (\<lambda>s.
        Ok (s\<lparr>PromoteAtTime := ticks s + TICKS_TO_PROMOTE\<rparr>))))
      else Ok s)"

text \<open>The body for the chosen head \<open>p\<close> of \<open>ready[i]\<close>, up to \<open>swtch(&c->scheduler, p->context)\<close>.\<close>

definition dispatch :: "nat \<Rightarrow> nat \<Rightarrow> nat \<Rightarrow> 'a kstate_scheme \<Rightarrow> 'a kstate_scheme res" where
  "dispatch c i p s =
     (let s = upd_cpu c (c_proc_update (\<lambda>_. Some p)) s
      in rbind (switchuvm c (Some p) s) (\<lambda>s.
         rbind (ready_at (p_priority (procs s p))) (\<lambda>l.
         rbind (remove_or_panic l p RUNNABLE
                  (if p_priority (procs s p) \<noteq> int i then ''Process Not Found in Correct Ready List!''
                   else ''Process Not Found In Ready Lists!'') s) (\<lambda>s.
         let s = upd_proc p (p_state_update (\<lambda>_. RUNNING)) s
         in rbind (stateListAdd (SL RUNNING) p s) (\<lambda>s.
            Ok (upd_proc p (p_cpu_ticks_in_update (\<lambda>_. ticks s)) s))))))"

fun pick_head :: "nat list \<Rightarrow> 'a kstate_scheme \<Rightarrow> (nat \<times> nat) option" where
  "pick_head [] s = None"
| "pick_head (i # is) s =
     (case q_head (get_ptrs (RL i) s) of None \<Rightarrow> pick_head is s | Some p \<Rightarrow> Some (i, p))"

text \<open>
  One turn of the scheduler loop on core \<open>c\<close> up to \<open>swtch\<close> (result \<open>Some p\<close>) or, with nothing to
  run, up to \<open>hlt\<close> (result \<open>None\<close>); \<open>scheduler_back\<close> is the rest of the turn after \<open>swtch\<close> returns.
\<close>

definition scheduler_turn :: "nat \<Rightarrow> 'a kstate_scheme \<Rightarrow> (nat option \<times> 'a kstate_scheme) res" where
  "scheduler_turn c s =
     rbind (acquire c Lk_ptable (sti c s)) (\<lambda>s.
     rbind (promote s) (\<lambda>s.
     rbind (release c Lk_ptable s) (\<lambda>s.
     rbind (acquire c Lk_ptable s) (\<lambda>s.
     case pick_head (rev [0..<Suc (nat MAXPRIO)]) s of
       Some (i, p) \<Rightarrow> rbind (dispatch c i p s) (\<lambda>s. Ok (Some p, s))
     | None \<Rightarrow> rbind (release c Lk_ptable s) (\<lambda>s. Ok (None, sti c s))))))"

definition scheduler_back :: "nat \<Rightarrow> 'a kstate_scheme \<Rightarrow> 'a kstate_scheme res" where
  "scheduler_back c s =
     release c Lk_ptable (upd_cpu c (c_proc_update (\<lambda>_. None)) (switchkvm c s))"

section \<open>Promotion\<close>

definition promoted :: "proc \<Rightarrow> proc" where
  "promoted k = (if p_priority k < MAXPRIO then k\<lparr>p_priority := p_priority k + 1, p_budget := BUDGET\<rparr> else k)"

lemma promoted_sel [simp]: "p_state (promoted k) = p_state k"
  by (simp add: promoted_def)

lemma link_free_promoted [simp]: "link_free promoted"
  by (simp add: link_free_def promoted_def)

lemma prio_ok_promoted [simp]: "prio_ok k \<Longrightarrow> prio_ok (promoted k)"
  by (auto simp: prio_ok_def promoted_def)

definition promote_in :: "nat set \<Rightarrow> (nat \<Rightarrow> proc) \<Rightarrow> nat \<Rightarrow> proc" where
  "promote_in A co = (\<lambda>p. if p \<in> A then promoted (co p) else co p)"

lemma promote_in_empty [simp]: "promote_in {} co = co"
  by (simp add: promote_in_def)

lemma promote_in_insert:
  "p \<notin> A \<Longrightarrow> promote_in A (co(p := promoted (co p))) = promote_in (insert p A) co"
  by (auto simp: promote_in_def)

lemma promote_in_Un: "A \<inter> B = {} \<Longrightarrow> promote_in B (promote_in A co) = promote_in (A \<union> B) co"
  by (rule ext) (auto simp: promote_in_def)

lemma promote_in_state [simp]: "p_state (promote_in A co p) = p_state (co p)"
  by (simp add: promote_in_def)

lemma effect_trans:
  assumes "effect X v co s t" "effect X v' co' t u"
  shows "effect X v' co' s u"
  using assms same_rest_trans by (auto simp: effect_def)

text \<open>One step of the two loops over \<open>SLEEPING\<close> and \<open>RUNNING\<close>: their lists do not move.\<close>

lemma promote_in_place:
  assumes "pinv X s" "p < NPROC" "p_state (procs s p) \<noteq> RUNNABLE"
  defines "t \<equiv> (if p_priority (procs s p) < MAXPRIO then promote_slot p s else s)"
  shows "effect X (view s) ((core s)(p := promoted (core s p))) s t" "nx t = nx s"
proof -
  have t: "t = upd_proc p promoted s"
    by (simp add: t_def promote_slot_def promoted_def [abs_def] upd_proc_def)
  have h: "home t = home s" using assms(3) by (auto simp: t home_def fun_eq_iff)
  have "pinv X t"
    using assms(1) h by (auto simp: pinv_def t link_free_next)
  then show "effect X (view s) ((core s)(p := promoted (core s p))) s t"
    by (simp add: effect_def t link_free_next link_free_core)
  show "nx t = nx s"
    unfolding t by (rule nx_upd_other) (simp add: promoted_def)
qed

lemma promote_list_spec:
  assumes "pinv X s" "linked (nx s) pp xs" "length xs < k"
    "\<And>p. p \<in> set xs \<Longrightarrow> p < NPROC \<and> p_state (procs s p) \<noteq> RUNNABLE"
  shows "wp (promote_list k pp s) (effect X (view s) (promote_in (set xs) (core s)) s)"
  using assms
proof (induction k arbitrary: s pp xs)
  case (Suc k)
  show ?case
  proof (cases xs)
    case Nil
    with Suc.prems show ?thesis by (simp add: effect_self)
  next
    case (Cons p ys)
    with Suc.prems have pp: "pp = Some p" and ys: "linked (nx s) (nx s p) ys" "length ys < k" by auto
    have np: "p \<notin> set ys" using ys(1) by (rule linked_head_notin)
    define t where "t = (if p_priority (procs s p) < MAXPRIO then promote_slot p s else s)"
    have e: "effect X (view s) ((core s)(p := promoted (core s p))) s t" and nt: "nx t = nx s"
      unfolding t_def using Suc.prems(4) [of p] Cons promote_in_place [OF Suc.prems(1), of p] by simp_all
    have co: "p_state (procs t q) = p_state (procs s q)" for q
      using effectD(3) [OF e] by (simp flip: core_sel(4))
    have "wp (promote_list k (nx s p) t) (effect X (view t) (promote_in (set ys) (core t)) t)"
      using Suc.IH [OF effectD(1) [OF e], of "nx s p" ys] ys nt co Suc.prems(4) Cons by auto
    then have "wp (promote_list k (nx s p) t) (effect X (view s) (promote_in (set xs) (core s)) s)"
      by (rule wp_mono) (use effect_trans [OF e] effectD(2,3) [OF e] np Cons in \<open>auto simp: promote_in_insert\<close>)
    moreover have "p_next (procs t p) = nx s p" using nt by (simp add: nx_def fun_eq_iff)
    ultimately show ?thesis by (simp add: pp Let_def flip: t_def)
  qed
qed simp

lemma linked_ptr: "linked n a xs \<Longrightarrow> a = (case xs of [] \<Rightarrow> None | x # _ \<Rightarrow> Some x)"
  by (cases xs) auto

lemma promote_ready_top:
  assumes "linked (nx s) pp xs" "length xs < k" "\<And>p. p \<in> set xs \<Longrightarrow> \<not> p_priority (procs s p) < MAXPRIO"
  shows "promote_ready k pp s = Ok s"
  using assms
proof (induction k arbitrary: pp xs)
  case (Suc k)
  then show ?case by (cases xs) (auto simp: Let_def nx_def)
qed simp


text \<open>The loop over \<open>ready[i]\<close> below the top: the whole list goes, in order, behind \<open>ready[i+1]\<close>.\<close>

lemma promote_ready_step:
  assumes "pinv X s" "view s (RL i) = p # ys" "int i < MAXPRIO"
    and Q: "\<And>t. effect X ((view s)(RL i := ys, RL (Suc i) := view s (RL (Suc i)) @ [p]))
      ((core s)(p := promoted (core s p))) s t \<Longrightarrow> wp (K t) Q"
  shows "wp (rbind (ready_at (p_priority (procs s p))) (\<lambda>l.
      rbind (remove_or_panic l p RUNNABLE msg s) (\<lambda>s.
      let s = promote_slot p s
      in rbind (ready_at (p_priority (procs s p))) (\<lambda>l. rbind (stateListAdd l p s) K)))) Q"
proof -
  have p: "p < NPROC" "p \<notin> X" "home s p = RL i" using pinvD(2,3,4) [OF assms(1), of p "RL i"] assms(2) by auto
  have ok: "prio_ok (procs s p)" using pinvD(6) [OF assms(1) p(1)] .
  have st: "p_state (procs s p) = RUNNABLE" "p_priority (procs s p) = int i"
    using p(3) ok by (auto simp: home_eq_RL prio_ok_def)
  let ?f = "\<lambda>k. k\<lparr>p_priority := p_priority k + 1, p_budget := BUDGET\<rparr>"
  have pf: "promoted (core s p) = ?f (core s p)" using st assms(3) by (simp add: promoted_def)
  have lf: "link_free ?f" by (simp add: link_free_def)
  have "wp (rbind (remove_or_panic (RL i) p RUNNABLE msg s) (\<lambda>s. let s = promote_slot p s
      in rbind (ready_at (p_priority (procs s p))) (\<lambda>l. rbind (stateListAdd l p s) K))) Q"
  proof (rule wp_move_ready [OF assms(1) p st(1) lf, where K' = K])
    show "prio_ok (?f (procs s p))" "p_state (?f (procs s p)) = RUNNABLE"
      using st assms(3) by (simp_all add: prio_ok_def)
    show "wp (K t) Q" if "effect X (shift (RL i) (RL (nat (p_priority (?f (core s p))))) p (view s))
        ((core s)(p := ?f (core s p))) s t" for t
    proof (rule Q)
      show "effect X ((view s)(RL i := ys, RL (Suc i) := view s (RL (Suc i)) @ [p]))
          ((core s)(p := promoted (core s p))) s t"
        using that st(2) assms(2) by (simp add: pf shift_def nat_add_distrib)
    qed
  qed (simp_all add: promote_slot_def Let_def)
  then show ?thesis using st assms(3) by (simp add: ready_at_def del: wp_rbind)
qed

lemma promote_ready_spec:
  assumes "pinv X s" "view s (RL i) = xs" "linked (nx s) pp xs" "length xs < k" "int i < MAXPRIO"
  shows "wp (promote_ready k pp s)
    (effect X ((view s)(RL i := [], RL (Suc i) := view s (RL (Suc i)) @ xs)) (promote_in (set xs) (core s)) s)"
  using assms(1-4)
proof (induction k arbitrary: s pp xs)
  case (Suc k)
  show ?case
  proof (cases xs)
    case Nil
    then have e: "(view s)(RL i := [], RL (Suc i) := view s (RL (Suc i)) @ xs) = view s"
      using Suc.prems(2) by (auto simp: fun_eq_iff)
    show ?thesis unfolding e using Nil Suc.prems by (simp add: effect_self)
  next
    case (Cons p ys)
    with Suc.prems have pp: "pp = Some p" and ys: "linked (nx s) (nx s p) ys" "length ys < k" by auto
    have np: "p \<notin> set ys" using ys(1) by (rule linked_head_notin)
    let ?Q = "effect X ((view s)(RL i := [], RL (Suc i) := view s (RL (Suc i)) @ xs)) (promote_in (set xs) (core s)) s"
    have "wp (promote_ready k (nx s p) t) ?Q"
      if e: "effect X ((view s)(RL i := ys, RL (Suc i) := view s (RL (Suc i)) @ [p]))
        ((core s)(p := promoted (core s p))) s t" for t
    proof -
      note t = effectD [OF e]
      have vt: "view t (RL i) = ys" by (simp add: t(2))
      have "nx s p = q_head (get_ptrs (RL i) t)"
        using linked_ptr [OF ys(1)] linked_ptr [OF view_linked(1) [OF pinvD(1) [OF t(1)], of "RL i"]] vt by simp
      then have "linked (nx t) (nx s p) ys"
        using view_linked(1) [OF pinvD(1) [OF t(1)], of "RL i"] vt by simp
      from Suc.IH [OF t(1) vt this ys(2)] show ?thesis
      proof (rule wp_mono)
        fix u
        assume u: "effect X ((view t)(RL i := [], RL (Suc i) := view t (RL (Suc i)) @ ys)) (promote_in (set ys) (core t)) t u"
        have "(view t)(RL i := [], RL (Suc i) := view t (RL (Suc i)) @ ys) =
            (view s)(RL i := [], RL (Suc i) := view s (RL (Suc i)) @ xs)"
          by (auto simp: t(2) Cons fun_eq_iff)
        then show "?Q u" using effect_trans [OF e u] np by (simp add: t(3) Cons promote_in_insert)
      qed
    qed
    note step = promote_ready_step [OF Suc.prems(1) Suc.prems(2) [unfolded Cons] assms(5),
      where K = "promote_ready k (nx s p)" and Q = ?Q, OF this]
    have "p_priority (procs s p) < MAXPRIO"
      using pinvD(3,4) [OF Suc.prems(1), of p "RL i"] pinvD(6) [OF Suc.prems(1), of p] Suc.prems(2) Cons assms(5)
      by (auto simp: home_eq_RL prio_ok_def)
    then show ?thesis
      using step by (simp add: pp nx_def Let_def rbind_assoc del: wp_rbind fun_upd_apply)
  qed
qed simp

text \<open>Every list below \<open>n\<close> moves up one, the one below \<open>n\<close> onto the end of \<open>ready[n]\<close>.\<close>

definition shift_up :: "nat \<Rightarrow> (listref \<Rightarrow> nat list) \<Rightarrow> listref \<Rightarrow> nat list" where
  "shift_up n v l =
     (case l of
        SL st \<Rightarrow> v l
      | RL j \<Rightarrow> if n < j \<or> n = 0 then v l
                else if j = n then v (RL n) @ v (RL (n - 1))
                else if j = 0 then [] else v (RL (j - 1)))"

lemma shift_up_0 [simp]: "shift_up 0 v = v"
  by (auto simp: shift_up_def fun_eq_iff split: listref.splits)

lemma shift_up_Suc:
  "shift_up n (v(RL n := [], RL (Suc n) := v (RL (Suc n)) @ v (RL n))) = shift_up (Suc n) v"
proof
  fix l
  show "shift_up n (v(RL n := [], RL (Suc n) := v (RL (Suc n)) @ v (RL n))) l = shift_up (Suc n) v l"
    by (cases l) (auto simp: shift_up_def)
qed

lemma promote_all_ready_spec:
  assumes "pinv X s" "int n \<le> MAXPRIO"
  shows "wp (promote_all_ready (map RL (rev [0..<n])) s)
    (effect X (shift_up n (view s)) (promote_in (\<Union>j<n. set (view s (RL j))) (core s)) s)"
  using assms
proof (induction n arbitrary: s)
  case 0
  then show ?case by (simp add: effect_self)
next
  case (Suc n)
  let ?v = "(view s)(RL n := [], RL (Suc n) := view s (RL (Suc n)) @ view s (RL n))"
  have q: "qinv s" using pinvD(1) [OF Suc.prems(1)] .
  have "wp (promote_ready (Suc NPROC) (q_head (get_ptrs (RL n) s)) s)
      (effect X ?v (promote_in (set (view s (RL n))) (core s)) s)"
    by (rule promote_ready_spec [OF Suc.prems(1) refl view_linked [OF q]]) (use Suc.prems(2) in simp)
  then have "wp (rbind (promote_ready (Suc NPROC) (q_head (get_ptrs (RL n) s)) s)
        (promote_all_ready (map RL (rev [0..<n]))))
      (effect X (shift_up (Suc n) (view s)) (promote_in (\<Union>j<Suc n. set (view s (RL j))) (core s)) s)"
  proof (rule wp_bindI)
    fix t
    assume e: "effect X ?v (promote_in (set (view s (RL n))) (core s)) s t"
    note t = effectD [OF e]
    have "j < n \<Longrightarrow> view t (RL j) = view s (RL j)" for j by (simp add: t(2))
    then have U: "(\<Union>j<n. set (view t (RL j))) = (\<Union>j<n. set (view s (RL j)))" by auto
    have D: "set (view s (RL n)) \<inter> (\<Union>j<n. set (view s (RL j))) = {}"
      using qinvD(4) [OF q, of "RL n"] by fastforce
    have UU: "set (view s (RL n)) \<union> (\<Union>j<n. set (view s (RL j))) = (\<Union>j<Suc n. set (view s (RL j)))"
      by (auto simp: less_Suc_eq)
    have "wp (promote_all_ready (map RL (rev [0..<n])) t)
        (effect X (shift_up n (view t)) (promote_in (\<Union>j<n. set (view t (RL j))) (core t)) t)"
      using Suc.prems(2) by (intro Suc.IH t(1)) simp
    then show "wp (promote_all_ready (map RL (rev [0..<n])) t)
        (effect X (shift_up (Suc n) (view s)) (promote_in (\<Union>j<Suc n. set (view s (RL j))) (core s)) s)"
      unfolding U unfolding t(2,3) shift_up_Suc promote_in_Un [OF D] UU
      by (rule wp_mono) (rule effect_trans [OF e])
  qed
  then show ?case by (simp del: wp_rbind promote_ready.simps)
qed

lemma ready_lists_eq: "ready_lists = RL (nat MAXPRIO) # map RL (rev [0..<nat MAXPRIO])"
  by (simp add: ready_lists_def)

lemma promote_ready_lists_spec:
  assumes "pinv X s"
  shows "wp (promote_all_ready ready_lists s) (effect X (shift_up (nat MAXPRIO) (view s))
    (promote_in {p. p < NPROC \<and> p \<notin> X \<and> p_state (procs s p) = RUNNABLE} (core s)) s)"
proof -
  let ?m = "nat MAXPRIO"
  have top: "promote_ready (Suc NPROC) (q_head (get_ptrs (RL ?m) s)) s = Ok s"
  proof (rule promote_ready_top [OF view_linked [OF pinvD(1) [OF assms]]])
    show "\<not> p_priority (procs s p) < MAXPRIO" if "p \<in> set (view s (RL ?m))" for p
      using pinvD(3) [OF assms that] pinvD(4) [OF assms that] pinvD(6) [OF assms, of p]
      by (auto simp: home_eq_RL prio_ok_def)
  qed
  have "promote_in (\<Union>j<?m. set (view s (RL j))) (core s) =
      promote_in {p. p < NPROC \<and> p \<notin> X \<and> p_state (procs s p) = RUNNABLE} (core s)"
  proof
    fix p
    have m: "p \<in> (\<Union>j<?m. set (view s (RL j))) \<longleftrightarrow>
        p \<in> {p. p < NPROC \<and> p \<notin> X \<and> p_state (procs s p) = RUNNABLE} \<and> nat (p_priority (procs s p)) < ?m"
      by (simp add: pinv_list_iff [OF assms] home_eq_RL)
    have "promoted (core s p) = core s p" if "p < NPROC" "\<not> nat (p_priority (procs s p)) < ?m"
    proof -
      have "\<not> p_priority (procs s p) < MAXPRIO" using that(2) by (simp add: MAXPRIO_def)
      then show ?thesis by (simp add: promoted_def)
    qed
    then show "promote_in (\<Union>j<?m. set (view s (RL j))) (core s) p =
        promote_in {p. p < NPROC \<and> p \<notin> X \<and> p_state (procs s p) = RUNNABLE} (core s) p"
      unfolding promote_in_def m by simp
  qed
  moreover have "wp (promote_all_ready (map RL (rev [0..<?m])) s)
      (effect X (shift_up ?m (view s)) (promote_in (\<Union>j<?m. set (view s (RL j))) (core s)) s)"
    by (rule promote_all_ready_spec [OF assms]) (simp add: MAXPRIO_def)
  ultimately show ?thesis
    unfolding ready_lists_eq promote_all_ready.simps top rbind_simps by (simp only:)
qed

definition promotable :: "nat set \<Rightarrow> 'a kstate_scheme \<Rightarrow> nat set" where
  "promotable X s = {p. p < NPROC \<and> p \<notin> X \<and> p_state (procs s p) \<in> {SLEEPING, RUNNABLE, RUNNING}}"

lemma promote_statelist_spec:
  assumes "pinv X s" "st \<noteq> RUNNABLE"
  shows "wp (promote_list (Suc NPROC) (q_head (get_ptrs (SL st) s)) s)
    (effect X (view s) (promote_in {p. p < NPROC \<and> p \<notin> X \<and> p_state (procs s p) = st} (core s)) s)"
proof -
  have "set (view s (SL st)) = {p. p < NPROC \<and> p \<notin> X \<and> p_state (procs s p) = st}"
    using assms(2) by (auto simp: pinv_list_iff [OF assms(1)] home_eq_SL)
  then show ?thesis
    using promote_list_spec [OF assms(1) view_linked [OF pinvD(1) [OF assms(1)]], of "SL st"] assms(2) by auto
qed

lemma promote_spec:
  assumes "pinv X s" "PromoteAtTime s \<le> ticks s"
  shows "wp (promote s) (\<lambda>t. \<exists>u. effect X (shift_up (nat MAXPRIO) (view s)) (promote_in (promotable X s) (core s)) s u \<and>
    t = u\<lparr>PromoteAtTime := ticks s + TICKS_TO_PROMOTE\<rparr>)"
proof -
  let ?S = "\<lambda>st. {p. p < NPROC \<and> p \<notin> X \<and> p_state (procs s p) = st}"
  have st: "p_state (procs t p) = p_state (procs s p)" if "core t = promote_in A (core s)" for t A p
    using that by (simp flip: core_sel(4))
  have U: "?S SLEEPING \<union> ?S RUNNING \<union> ?S RUNNABLE = promotable X s" by (auto simp: promotable_def)
  have "wp (rbind (promote_list (Suc NPROC) (q_head (get_ptrs (SL SLEEPING) s)) s) (\<lambda>s.
        rbind (promote_list (Suc NPROC) (q_head (get_ptrs (SL RUNNING) s)) s) (promote_all_ready ready_lists)))
      (effect X (shift_up (nat MAXPRIO) (view s)) (promote_in (promotable X s) (core s)) s)"
  proof (rule wp_bindI [OF promote_statelist_spec [OF assms(1)]], simp)
    fix t
    assume e: "effect X (view s) (promote_in (?S SLEEPING) (core s)) s t"
    note t = effectD [OF e]
    show "wp (rbind (promote_list (Suc NPROC) (q_head (get_ptrs (SL RUNNING) t)) t) (promote_all_ready ready_lists))
      (effect X (shift_up (nat MAXPRIO) (view s)) (promote_in (promotable X s) (core s)) s)"
    proof (rule wp_bindI [OF promote_statelist_spec [OF t(1)]], simp)
      fix u
      assume "effect X (view t) (promote_in {p. p < NPROC \<and> p \<notin> X \<and> p_state (procs t p) = RUNNING} (core t)) t u"
      then have "effect X (view s) (promote_in (?S RUNNING) (promote_in (?S SLEEPING) (core s))) t u"
        by (simp only: t(2,3) st [OF t(3)])
      then have e2: "effect X (view s) (promote_in (?S SLEEPING \<union> ?S RUNNING) (core s)) s u"
        by (subst promote_in_Un [symmetric]) (auto intro: effect_trans [OF e])
      note u = effectD [OF e2]
      have eq: "promote_in (?S RUNNABLE) (core u) = promote_in (promotable X s) (core s)"
        unfolding u(3) by (subst promote_in_Un) (auto simp: U)
      have "wp (promote_all_ready ready_lists u) (effect X (shift_up (nat MAXPRIO) (view s))
          (promote_in (promotable X s) (core s)) u)"
        using promote_ready_lists_spec [OF u(1)] unfolding st [OF u(3)] u(2) eq .
      then show "wp (promote_all_ready ready_lists u)
          (effect X (shift_up (nat MAXPRIO) (view s)) (promote_in (promotable X s) (core s)) s)"
        by (rule wp_mono) (rule effect_trans [OF e2])
    qed
  qed
  then have "wp (rbind (rbind (promote_list (Suc NPROC) (q_head (get_ptrs (SL SLEEPING) s)) s) (\<lambda>s.
        rbind (promote_list (Suc NPROC) (q_head (get_ptrs (SL RUNNING) s)) s) (promote_all_ready ready_lists)))
      (\<lambda>s. Ok (s\<lparr>PromoteAtTime := ticks s + TICKS_TO_PROMOTE\<rparr>)))
     (\<lambda>t. \<exists>u. effect X (shift_up (nat MAXPRIO) (view s)) (promote_in (promotable X s) (core s)) s u \<and>
       t = u\<lparr>PromoteAtTime := ticks s + TICKS_TO_PROMOTE\<rparr>)"
  proof (rule wp_bindI)
    fix u
    assume u: "effect X (shift_up (nat MAXPRIO) (view s)) (promote_in (promotable X s) (core s)) s u"
    have "ticks u = ticks s" using effectD(4) [OF u] by (rule same_rest_sel)
    then show "wp (Ok (u\<lparr>PromoteAtTime := ticks u + TICKS_TO_PROMOTE\<rparr>))
        (\<lambda>t. \<exists>u. effect X (shift_up (nat MAXPRIO) (view s)) (promote_in (promotable X s) (core s)) s u \<and>
          t = u\<lparr>PromoteAtTime := ticks s + TICKS_TO_PROMOTE\<rparr>)"
      using u by auto
  qed
  then show ?thesis
    using assms(2) by (simp add: promote_def MAXPRIO_def rbind_assoc del: wp_rbind promote_list.simps)
qed

section \<open>Choice and dispatch\<close>

definition highest :: "(listref \<Rightarrow> nat list) \<Rightarrow> nat option" where
  "highest v = find (\<lambda>i. v (RL i) \<noteq> []) (rev [0..<Suc (nat MAXPRIO)])"

lemma pick_head_eq:
  assumes "qinv s"
  shows "pick_head is s =
    (case find (\<lambda>i. view s (RL i) \<noteq> []) is of None \<Rightarrow> None | Some i \<Rightarrow> Some (i, hd (view s (RL i))))"
proof (induction "is")
  case (Cons i "is")
  then show ?case
    using linked_ptr [OF view_linked(1) [OF assms, of "RL i"]] by (auto split: list.splits)
qed simp

lemma highest_Some:
  assumes "highest v = Some i"
  shows "i \<le> nat MAXPRIO" "v (RL i) \<noteq> []" "\<And>j. i < j \<Longrightarrow> j \<le> nat MAXPRIO \<Longrightarrow> v (RL j) = []"
proof -
  let ?m = "nat MAXPRIO"
  obtain k where k: "k < Suc ?m" "v (RL (rev [0..<Suc ?m] ! k)) \<noteq> []" "i = rev [0..<Suc ?m] ! k"
    "\<forall>j<k. v (RL (rev [0..<Suc ?m] ! j)) = []"
    using assms unfolding highest_def find_Some_iff by (auto simp del: upt_Suc)
  have r: "rev [0..<Suc ?m] ! j = ?m - j" if "j < Suc ?m" for j
    using that by (simp add: rev_nth del: upt_Suc)
  show "i \<le> ?m" "v (RL i) \<noteq> []" using k r by auto
  show "v (RL j) = []" if "i < j" "j \<le> ?m" for j
  proof -
    have "?m - j < k" using that k(1,3) r by auto
    then have "v (RL (rev [0..<Suc ?m] ! (?m - j))) = []" using k(4) by blast
    then show ?thesis using that(2) by (simp add: r del: upt_Suc)
  qed
qed

lemma highest_None: "highest v = None \<longleftrightarrow> (\<forall>i\<le>nat MAXPRIO. v (RL i) = [])"
  by (auto simp: highest_def find_None_iff less_Suc_eq_le simp del: upt_Suc)

definition image_ok :: "proc \<Rightarrow> bool" where
  "image_ok k \<longleftrightarrow> p_kstack k \<noteq> 0 \<and> p_pgdir k \<noteq> 0"

definition loaded :: "nat \<Rightarrow> nat \<Rightarrow> 'a kstate_scheme \<Rightarrow> 'a kstate_scheme" where
  "loaded c p s = upd_cpu c (\<lambda>k. k\<lparr>c_proc := Some p, c_esp0 := p_kstack (procs s p) + KSTACKSIZE,
     c_cr3 := V2P (p_pgdir (procs s p))\<rparr>) s"

lemma machine_ok_upd_cpu:
  assumes "\<And>k. c_ncli (f k) = c_ncli k" "\<And>k. c_apicid (f k) = c_apicid k"
  shows "machine_ok (upd_cpu d f s) = machine_ok s"
proof -
  have "c_ncli (cpus (upd_cpu d f s) i) = c_ncli (cpus s i)" "c_apicid (cpus (upd_cpu d f s) i) = c_apicid (cpus s i)" for i
    using assms by simp_all
  then show ?thesis by (simp add: machine_ok_def del: upd_cpu_sel(1))
qed

lemma popped_upd_pushed:
  assumes "machine_ok s" "c < ncpu s" "0 < c_ncli (cpus s c)"
    "\<And>k n. f (k\<lparr>c_ncli := n\<rparr>) = (f k)\<lparr>c_ncli := n\<rparr>" "\<And>k. c_intena (f k) = c_intena k" "\<And>k. c_ncli (f k) = c_ncli k"
  shows "popped c (upd_cpu c f (pushed c s)) = upd_cpu c f s"
proof -
  have "\<not> eflags_if s c" using assms by (simp add: machine_okD)
  then have "(eflags_if s)(c := False) = eflags_if s" by (simp add: fun_upd_idem)
  moreover have e: "(f (cpus s c))\<lparr>c_ncli := c_ncli (cpus s c)\<rparr> = f (cpus s c)"
    using assms(4) [of "c_ncli (cpus s c)" "cpus s c"] by simp
  ultimately show ?thesis
    using assms(3) by (simp add: popped_def pushed_def upd_cpu_def assms(4-6)) (simp only: e)
qed

lemma switchuvm_eq:
  assumes "in_ptable c s" "image_ok (procs s p)"
  shows "switchuvm c (Some p) s = Ok (upd_cpu c (\<lambda>k. k\<lparr>c_esp0 := p_kstack (procs s p) + KSTACKSIZE,
     c_cr3 := V2P (p_pgdir (procs s p))\<rparr>) s)"
proof -
  let ?f = "\<lambda>k. k\<lparr>c_esp0 := p_kstack (procs s p) + KSTACKSIZE, c_cr3 := V2P (p_pgdir (procs s p))\<rparr>"
  have m: "machine_ok s" "c < ncpu s" "0 < c_ncli (cpus s c)" using assms(1) by (auto simp: in_ptable_def)
  have u: "upd_cpu c (\<lambda>k. k\<lparr>c_cr3 := V2P (p_pgdir (procs s p))\<rparr>)
      (upd_cpu c (\<lambda>k. k\<lparr>c_esp0 := p_kstack (procs s p) + KSTACKSIZE\<rparr>) (pushed c s)) = upd_cpu c ?f (pushed c s)"
    by (simp add: upd_cpu_def)
  have "popcli c (upd_cpu c ?f (pushed c s)) = Ok (popped c (upd_cpu c ?f (pushed c s)))"
    by (rule popcli_eq) (use m in \<open>simp_all add: machine_ok_upd_cpu\<close>)
  also have "popped c (upd_cpu c ?f (pushed c s)) = upd_cpu c ?f s"
    using m by (rule popped_upd_pushed) simp_all
  finally show ?thesis
    using m assms(2) by (simp add: switchuvm_def image_ok_def pushcli_eq Let_def u)
qed

definition dispatched :: "uint \<Rightarrow> proc \<Rightarrow> proc" where
  "dispatched tk k = k\<lparr>p_state := RUNNING, p_cpu_ticks_in := tk\<rparr>"

lemma dispatch_spec:
  assumes "in_ptable c s" "pinv {} s" "view s (RL i) = p # ys" "image_ok (procs s p)"
  shows "wp (dispatch c i p s) (effect {} (shift (RL i) (SL RUNNING) p (view s))
    ((core s)(p := dispatched (ticks s) (core s p))) (loaded c p s))"
proof -
  have p: "p < NPROC" "p_state (procs s p) = RUNNABLE" "nat (p_priority (procs s p)) = i"
    using pinvD(3,4) [OF assms(2), of p "RL i"] assms(3) by (auto simp: home_eq_RL)
  note ok = pinvD(6) [OF assms(2) p(1)]
  let ?s = "loaded c p s"
  let ?K = "\<lambda>s. Ok (upd_proc p (p_cpu_ticks_in_update (\<lambda>_. ticks s)) s)"
  let ?Q = "effect {} (shift (RL i) (SL RUNNING) p (view s)) ((core s)(p := dispatched (ticks s) (core s p))) ?s"
  have l [simp]: "procs ?s = procs s" "view ?s = view s" "core ?s = core s" "ticks ?s = ticks s"
    "pinv {} ?s = pinv {} s" "home ?s = home s"
    by (simp_all add: loaded_def home_def fun_eq_iff)
  have sw: "switchuvm c (Some p) (upd_cpu c (c_proc_update (\<lambda>_. Some p)) s) = Ok ?s"
    using switchuvm_eq [of c "upd_cpu c (c_proc_update (\<lambda>_. Some p)) s" p] assms(1,4)
    by (simp add: in_ptable_upd_cpu) (simp add: loaded_def upd_cpu_def)
  have "wp (rbind (remove_or_panic (RL i) p RUNNABLE msg ?s) (\<lambda>s.
      let s = upd_proc p (p_state_update (\<lambda>_. RUNNING)) s in rbind (stateListAdd (SL RUNNING) p s) ?K)) ?Q" for msg
  proof (rule wp_move [where X = "{}" and f = "p_state_update (\<lambda>_. RUNNING)" and b = "SL RUNNING" and K' = ?K])
    show "pinv {} ?s" "p < NPROC" "p \<notin> {}" "home ?s p = RL i" "p_state (procs ?s p) = RUNNABLE"
      "link_free (p_state_update (\<lambda>_. RUNNING))" "prio_ok ((procs ?s p)\<lparr>p_state := RUNNING\<rparr>)"
      "place ((procs ?s p)\<lparr>p_state := RUNNING\<rparr>) = SL RUNNING"
      using assms p ok by (simp_all add: home_simps place_def)
    show "wp (?K t) ?Q"
      if "effect {} (shift (RL i) (SL RUNNING) p (view ?s)) ((core ?s)(p := (core ?s p)\<lparr>p_state := RUNNING\<rparr>)) ?s t" for t
    proof -
      note t = effectD [OF that]
      have "pinv {} (upd_proc p (p_cpu_ticks_in_update (\<lambda>_. ticks s)) t)" using t(1) by (intro pinv_upd_field) auto
      moreover have "ticks t = ticks s" using same_rest_sel(6) [OF t(4)] by simp
      ultimately show ?thesis using t by (simp add: effect_def link_free_core dispatched_def)
    qed
  qed (simp_all add: Let_def)
  then show ?thesis
    using ready_at_ok [OF ok] p(3) by (simp add: dispatch_def Let_def sw del: wp_rbind)
qed

section \<open>A turn of the loop\<close>

definition promote_effect :: "nat set \<Rightarrow> 'a kstate_scheme \<Rightarrow> 'a kstate_scheme \<Rightarrow> bool" where
  "promote_effect X s t \<longleftrightarrow>
     (if PromoteAtTime s \<le> ticks s
      then \<exists>u. effect X (shift_up (nat MAXPRIO) (view s)) (promote_in (promotable X s) (core s)) s u \<and>
             t = u\<lparr>PromoteAtTime := ticks s + TICKS_TO_PROMOTE\<rparr>
      else t = s)"

lemma promote_effect_spec:
  assumes "pinv X s"
  shows "wp (promote s) (promote_effect X s)"
proof (cases "PromoteAtTime s \<le> ticks s")
  case True
  show ?thesis
    by (rule wp_mono [OF promote_spec [OF assms True]]) (simp add: promote_effect_def True)
next
  case False
  then show ?thesis by (simp add: promote_effect_def promote_def)
qed

lemma PromoteAtTime_table [simp]:
  "pinv X (u\<lparr>PromoteAtTime := x\<rparr>) = pinv X u" "view (u\<lparr>PromoteAtTime := x\<rparr>) = view u"
  "core (u\<lparr>PromoteAtTime := x\<rparr>) = core u" "in_ptable c (u\<lparr>PromoteAtTime := x\<rparr>) = in_ptable c u"
proof -
  show "pinv X (u\<lparr>PromoteAtTime := x\<rparr>) = pinv X u" by (rule pinv_cong) simp_all
  show "view (u\<lparr>PromoteAtTime := x\<rparr>) = view u" by (rule view_cong) simp_all
qed (simp_all add: core_def fun_eq_iff in_ptable_def machine_ok_def held_by_def)

lemma promoted_image [simp]: "image_ok (promoted k) = image_ok k"
  by (simp add: image_ok_def promoted_def)

lemma image_ok_core [simp]: "image_ok (core s p) = image_ok (procs s p)"
  by (simp add: image_ok_def)

lemma promote_effect_facts:
  assumes "promote_effect X s t" "pinv X s"
  shows "pinv X t" "in_ptable c s \<Longrightarrow> in_ptable c t" "cpus t = cpus s" "p_state (procs t p) = p_state (procs s p)"
    "image_ok (procs t p) = image_ok (procs s p)" "ticks t = ticks s"
proof -
  obtain u co where u: "pinv X u" "same_rest s u" "core u = promote_in co (core s)" and
    t: "t = u \<or> t = u\<lparr>PromoteAtTime := ticks s + TICKS_TO_PROMOTE\<rparr>"
    using assms by (fastforce simp: promote_effect_def effect_def split: if_splits intro: that [of s "{}"])
  show "pinv X t" "in_ptable c s \<Longrightarrow> in_ptable c t" using u t in_ptable_cong [OF u(2)] by auto
  show "cpus t = cpus s" "ticks t = ticks s" using t same_rest_sel [OF u(2)] by auto
  have "core t = promote_in co (core s)" using u(3) t by auto
  then have c: "core t p = promote_in co (core s) p" by simp
  show "p_state (procs t p) = p_state (procs s p)" using c by (simp flip: core_sel(4))
  show "image_ok (procs t p) = image_ok (procs s p)" using c by (simp add: promote_in_def flip: image_ok_core)
qed

lemma at_rest_sti: "at_rest c s \<Longrightarrow> at_rest c (sti c s)"
  by (auto simp: at_rest_def machine_ok_def sti_def lock_free_def)

text \<open>The state in which the choice is made, after the promotion's critical section.\<close>

definition choosing :: "nat \<Rightarrow> 'a kstate_scheme \<Rightarrow> 'a kstate_scheme" where
  "choosing c u = acquired c Lk_ptable (released c Lk_ptable u)"

lemma choosing_table [simp]:
  "pinv X (choosing c u) = pinv X u" "view (choosing c u) = view u" "core (choosing c u) = core u"
  "procs (choosing c u) = procs u" "ticks (choosing c u) = ticks u"
  by (simp_all add: choosing_def) (simp add: acquired_def released_def)

lemma choosing_in_ptable: "in_ptable c u \<Longrightarrow> in_ptable c (choosing c u)"
  by (simp add: choosing_def in_ptable_acquired released_state)

definition turn_effect :: "nat \<Rightarrow> 'a kstate_scheme \<Rightarrow> nat option \<Rightarrow> 'a kstate_scheme \<Rightarrow> bool" where
  "turn_effect c u r t \<longleftrightarrow>
     (case highest (view u) of
        None \<Rightarrow> r = None \<and> t = sti c (released c Lk_ptable (choosing c u))
      | Some i \<Rightarrow> \<exists>p ys. view u (RL i) = p # ys \<and> r = Some p \<and>
          effect {} (shift (RL i) (SL RUNNING) p (view u)) ((core u)(p := dispatched (ticks u) (core u p)))
            (loaded c p (choosing c u)) t)"

lemma turn_choice:
  assumes "in_ptable c u" "pinv {} u" "\<forall>p<NPROC. p_state (procs u p) = RUNNABLE \<longrightarrow> image_ok (procs u p)"
  shows "wp (case pick_head (rev [0..<Suc (nat MAXPRIO)]) (choosing c u) of
       Some (i, p) \<Rightarrow> rbind (dispatch c i p (choosing c u)) (\<lambda>s. Ok (Some p, s))
     | None \<Rightarrow> rbind (release c Lk_ptable (choosing c u)) (\<lambda>s. Ok (None, sti c s)))
    (\<lambda>(r, t). turn_effect c u r t)"
proof (cases "highest (view u)")
  case None
  then show ?thesis
    using pick_head_eq [OF pinvD(1), of "{}" "choosing c u"] assms(2) choosing_in_ptable [OF assms(1)]
    by (simp add: highest_def turn_effect_def in_ptable_release del: upt_Suc)
next
  case (Some i)
  then obtain p ys where v: "view u (RL i) = p # ys" using highest_Some(2) [of "view u" i] by (cases "view u (RL i)") auto
  have p: "p < NPROC" "p_state (procs u p) = RUNNABLE"
    using pinvD(3,4) [OF assms(2), of p "RL i"] v by (auto simp: home_eq_RL)
  have "wp (dispatch c i p (choosing c u)) (effect {} (shift (RL i) (SL RUNNING) p (view u))
      ((core u)(p := dispatched (ticks u) (core u p))) (loaded c p (choosing c u)))"
    using dispatch_spec [OF choosing_in_ptable [OF assms(1)], of i p ys] assms p v by simp
  then have "wp (dispatch c i p (choosing c u)) (turn_effect c u (Some p))"
    by (rule wp_mono) (use Some v in \<open>simp add: turn_effect_def\<close>)
  then show ?thesis
    using pick_head_eq [OF pinvD(1), of "{}" "choosing c u"] assms(2) Some v
    by (simp add: highest_def del: upt_Suc)
qed

lemma scheduler_turn_spec:
  assumes "at_rest c s" "pinv {} s" "\<forall>p<NPROC. p_state (procs s p) = RUNNABLE \<longrightarrow> image_ok (procs s p)"
  shows "wp (scheduler_turn c s) (\<lambda>(r, t). \<exists>u. promote_effect {} (acquired c Lk_ptable (sti c s)) u \<and> turn_effect c u r t)"
proof -
  let ?s = "acquired c Lk_ptable (sti c s)"
  have r: "at_rest c (sti c s)" using assms(1) by (rule at_rest_sti)
  have i: "in_ptable c ?s" "pinv {} ?s" using in_ptable_acquired [OF r] assms(2) by simp_all
  have "wp (rbind (promote ?s) (\<lambda>s.
     rbind (release c Lk_ptable s) (\<lambda>s.
     rbind (acquire c Lk_ptable s) (\<lambda>s.
     case pick_head (rev [0..<Suc (nat MAXPRIO)]) s of
       Some (i, p) \<Rightarrow> rbind (dispatch c i p s) (\<lambda>s. Ok (Some p, s))
     | None \<Rightarrow> rbind (release c Lk_ptable s) (\<lambda>s. Ok (None, sti c s))))))
    (\<lambda>(r, t). \<exists>u. promote_effect {} ?s u \<and> turn_effect c u r t)"
  proof (rule wp_bindI [OF promote_effect_spec [OF i(2)]])
    fix u
    assume pe: "promote_effect {} ?s u"
    note u = promote_effect_facts [OF pe i(2)]
    have "wp (case pick_head (rev [0..<Suc (nat MAXPRIO)]) (choosing c u) of
         Some (i, p) \<Rightarrow> rbind (dispatch c i p (choosing c u)) (\<lambda>s. Ok (Some p, s))
       | None \<Rightarrow> rbind (release c Lk_ptable (choosing c u)) (\<lambda>s. Ok (None, sti c s)))
      (\<lambda>(r, t). turn_effect c u r t)"
      using u assms(3) i by (intro turn_choice) auto
    then have "wp (case pick_head (rev [0..<Suc (nat MAXPRIO)]) (choosing c u) of
         Some (i, p) \<Rightarrow> rbind (dispatch c i p (choosing c u)) (\<lambda>s. Ok (Some p, s))
       | None \<Rightarrow> rbind (release c Lk_ptable (choosing c u)) (\<lambda>s. Ok (None, sti c s)))
      (\<lambda>(r, t). \<exists>u. promote_effect {} ?s u \<and> turn_effect c u r t)"
      by (rule wp_mono) (use pe in auto)
    then show "wp (rbind (release c Lk_ptable u) (\<lambda>s.
       rbind (acquire c Lk_ptable s) (\<lambda>s.
       case pick_head (rev [0..<Suc (nat MAXPRIO)]) s of
         Some (i, p) \<Rightarrow> rbind (dispatch c i p s) (\<lambda>s. Ok (Some p, s))
       | None \<Rightarrow> rbind (release c Lk_ptable s) (\<lambda>s. Ok (None, sti c s)))))
      (\<lambda>(r, t). \<exists>u. promote_effect {} ?s u \<and> turn_effect c u r t)"
      using in_ptable_release [OF u(2) [OF i(1)]] at_rest_acquire [OF released_state(1) [OF u(2) [OF i(1)]]]
      by (simp only: rbind_simps choosing_def)
  qed
  then show ?thesis by (simp only: scheduler_turn_def at_rest_acquire [OF r] rbind_simps)
qed

lemma scheduler_back_eq:
  assumes "in_ptable c s"
  shows "scheduler_back c s = Ok (released c Lk_ptable
    (upd_cpu c (\<lambda>k. k\<lparr>c_cr3 := V2P (kpgdir s), c_proc := None\<rparr>) s))"
proof -
  have "upd_cpu c (c_proc_update (\<lambda>_. None)) (switchkvm c s) =
      upd_cpu c (\<lambda>k. k\<lparr>c_cr3 := V2P (kpgdir s), c_proc := None\<rparr>) s"
    by (simp add: switchkvm_def upd_cpu_def)
  then show ?thesis
    using assms by (simp add: scheduler_back_def in_ptable_release in_ptable_upd_cpu)
qed

section \<open>Properties\<close>



lemma loaded_cpu:
  "c_proc (cpus (loaded c p s) c) = Some p" "c_esp0 (cpus (loaded c p s) c) = p_kstack (procs s p) + KSTACKSIZE"
  "c_cr3 (cpus (loaded c p s) c) = V2P (p_pgdir (procs s p))" "in_ptable d (loaded c p s) = in_ptable d s"
  by (simp_all add: loaded_def in_ptable_upd_cpu)

lemma highest_priority:
  assumes "pinv {} u" "highest (view u) = Some i" "q < NPROC" "p_state (procs u q) = RUNNABLE"
  shows "p_priority (procs u q) \<le> int i"
proof (rule ccontr)
  assume n: "\<not> p_priority (procs u q) \<le> int i"
  have ok: "prio_ok (procs u q)" using pinvD(6) [OF assms(1,3)] .
  have "q \<in> set (view u (RL (nat (p_priority (procs u q)))))"
    using pinvD(5) [OF assms(1,3)] assms(4) by (simp add: home_simps)
  moreover have "view u (RL (nat (p_priority (procs u q)))) = []"
    by (rule highest_Some(3) [OF assms(2)]) (use n ok in \<open>auto simp: prio_ok_def\<close>)
  ultimately show False by simp
qed



end
