(* ===== verification/Proc_Life.thy ===== *)
theory Proc_Life
  imports Proc_Scheduler
begin

text \<open>
  The life of a process under \<open>CS333_P4\<close>: \<open>allocproc\<close>, \<open>userinit\<close>, \<open>growproc\<close> and
  \<open>fork\<close> of \<open>proc.c\<close>. The page allocator, the virtual memory and the file system are reached through
  a record of services, one field per C function called, over any extension of the kernel state.
  Each critical section on \<open>ptable.lock\<close> is a definition of its own; the routines compose them.
\<close>

record 's services =
  sv_kalloc :: "'s \<Rightarrow> (uint \<times> 's) res"
  sv_kfree :: "uint \<Rightarrow> 's \<Rightarrow> 's res"
  sv_setupkvm :: "'s \<Rightarrow> (uint \<times> 's) res"
  sv_inituvm :: "uint \<Rightarrow> 's \<Rightarrow> 's res"
  sv_copyuvm :: "uint \<Rightarrow> uint \<Rightarrow> 's \<Rightarrow> (uint \<times> 's) res"
  sv_freevm :: "uint \<Rightarrow> 's \<Rightarrow> 's res"
  sv_allocuvm :: "uint \<Rightarrow> uint \<Rightarrow> uint \<Rightarrow> 's \<Rightarrow> (uint \<times> 's) res"
  sv_deallocuvm :: "uint \<Rightarrow> uint \<Rightarrow> uint \<Rightarrow> 's \<Rightarrow> (uint \<times> 's) res"
  sv_filedup :: "nat \<Rightarrow> 's \<Rightarrow> (nat \<times> 's) res"
  sv_fileclose :: "nat \<Rightarrow> 's \<Rightarrow> 's res"
  sv_idup :: "nat option \<Rightarrow> 's \<Rightarrow> (nat option \<times> 's) res"
  sv_iput :: "nat option \<Rightarrow> 's \<Rightarrow> 's res"
  sv_begin_op :: "'s \<Rightarrow> 's res"
  sv_end_op :: "'s \<Rightarrow> 's res"
  sv_namei :: "string \<Rightarrow> 's \<Rightarrow> (nat option \<times> 's) res"

definition PGSIZE :: uint where "PGSIZE = 4096"
definition SEG_UCODE :: ushort where "SEG_UCODE = 3"
definition SEG_UDATA :: ushort where "SEG_UDATA = 4"
definition DPL_USER :: ushort where "DPL_USER = 3"
definition FL_IF :: uint where "FL_IF = 0x200"

section \<open>Allocation\<close>

text \<open>The first critical section: the head of the free list becomes an \<open>EMBRYO\<close> with a fresh pid.\<close>

definition allocproc_take :: "nat \<Rightarrow> 'a kstate_scheme \<Rightarrow> (ptr \<times> 'a kstate_scheme) res" where
  "allocproc_take c s =
     rbind (acquire c Lk_ptable s) (\<lambda>s.
     case q_head (get_ptrs (SL UNUSED) s) of
       None \<Rightarrow> rbind (release c Lk_ptable s) (\<lambda>s. Ok (None, s))
     | Some p \<Rightarrow>
         rbind (remove_or_panic (SL UNUSED) p UNUSED ''Process Not Found In UNUSED List!'' s) (\<lambda>s.
         rbind (stateListAdd (SL EMBRYO) p (upd_proc p (p_state_update (\<lambda>_. EMBRYO)) s)) (\<lambda>s.
         let s = (upd_proc p (p_pid_update (\<lambda>_. nextpid s)) s)\<lparr>nextpid := nextpid s + 1\<rparr>
         in rbind (release c Lk_ptable s) (\<lambda>s. Ok (Some p, s)))))"

text \<open>No kernel stack: the slot goes back to the free list.\<close>

definition allocproc_fail :: "nat \<Rightarrow> nat \<Rightarrow> 'a kstate_scheme \<Rightarrow> 'a kstate_scheme res" where
  "allocproc_fail c p s =
     rbind (acquire c Lk_ptable s) (\<lambda>s.
     rbind (remove_or_panic (SL EMBRYO) p EMBRYO ''Process Not Found In EMBRYO List!'' s) (\<lambda>s.
     rbind (stateListAdd (SL UNUSED) p (upd_proc p (p_state_update (\<lambda>_. UNUSED)) s))
       (release c Lk_ptable)))"

definition fresh_proc :: "uint \<Rightarrow> proc \<Rightarrow> proc" where
  "fresh_proc tk k = k\<lparr>p_context := K_forkret, p_start_ticks := tk, p_uid := 0, p_gid := 0,
     p_cpu_ticks_total := 0, p_cpu_ticks_in := 0, p_priority := DEFAULTPRIO, p_budget := BUDGET\<rparr>"

definition allocproc :: "'a kstate_scheme services \<Rightarrow> nat \<Rightarrow> 'a kstate_scheme \<Rightarrow> (ptr \<times> 'a kstate_scheme) res" where
  "allocproc sv c s =
     rbind (allocproc_take c s) (\<lambda>(pp, s).
     case pp of
       None \<Rightarrow> Ok (None, s)
     | Some p \<Rightarrow>
         rbind (sv_kalloc sv s) (\<lambda>(k, s).
         let s = upd_proc p (p_kstack_update (\<lambda>_. k)) s
         in if k = 0 then rbind (allocproc_fail c p s) (\<lambda>s. Ok (None, s))
            else Ok (Some p, upd_proc p (fresh_proc (ticks s)) s)))"

section \<open>Publishing a new process\<close>

definition make_runnable :: "nat \<Rightarrow> nat \<Rightarrow> 'a kstate_scheme \<Rightarrow> 'a kstate_scheme res" where
  "make_runnable c p s =
     rbind (acquire c Lk_ptable s) (\<lambda>s.
     let s = upd_proc p (p_state_update (\<lambda>_. RUNNABLE)) s
     in rbind (ready_at (p_priority (procs s p))) (\<lambda>l.
        rbind (stateListAdd l p s) (release c Lk_ptable)))"

definition userinit_publish :: "nat \<Rightarrow> nat \<Rightarrow> 'a kstate_scheme \<Rightarrow> 'a kstate_scheme res" where
  "userinit_publish c p s =
     rbind (acquire c Lk_ptable s) (\<lambda>s.
     rbind (remove_or_panic (SL EMBRYO) p EMBRYO ''Process Not Found In EMBRYO List!'' s) (\<lambda>s.
     let s = upd_proc p (p_state_update (\<lambda>_. RUNNABLE)) s
     in rbind (ready_at (p_priority (procs s p))) (\<lambda>l.
        rbind (stateListAdd l p s) (release c Lk_ptable))))"

definition init_tf :: trapframe where
  "init_tf = \<lparr>tf_edi = 0, tf_esi = 0, tf_ebp = 0, tf_oesp = 0, tf_ebx = 0, tf_edx = 0, tf_ecx = 0, tf_eax = 0,
     tf_gs = 0, tf_fs = 0, tf_es = push_bit 3 SEG_UDATA OR DPL_USER, tf_ds = push_bit 3 SEG_UDATA OR DPL_USER,
     tf_trapno = 0, tf_err = 0, tf_eip = 0, tf_cs = push_bit 3 SEG_UCODE OR DPL_USER, tf_eflags = FL_IF,
     tf_esp = PGSIZE, tf_ss = push_bit 3 SEG_UDATA OR DPL_USER\<rparr>"

definition userinit :: "'a kstate_scheme services \<Rightarrow> nat \<Rightarrow> 'a kstate_scheme \<Rightarrow> 'a kstate_scheme res" where
  "userinit sv c s =
     rbind (acquire c Lk_ptable s) (\<lambda>s.
     rbind (initFreeList (initProcessLists s)) (\<lambda>s.
     rbind (release c Lk_ptable (s\<lparr>PromoteAtTime := ticks s + TICKS_TO_PROMOTE\<rparr>)) (\<lambda>s.
     rbind (allocproc sv c s) (\<lambda>(pp, s).
     let s = s\<lparr>initproc := pp\<rparr>
     in case pp of
          None \<Rightarrow> Undef
        | Some p \<Rightarrow>
            rbind (sv_setupkvm sv s) (\<lambda>(pg, s).
            let s = upd_proc p (p_pgdir_update (\<lambda>_. pg)) s
            in if pg = 0 then Panic ''userinit: out of memory?''
               else
                 rbind (sv_inituvm sv pg s) (\<lambda>s.
                 let s = upd_proc p (\<lambda>k. k\<lparr>p_sz := PGSIZE, p_tf := init_tf, p_gid := 0, p_uid := 0,
                           p_name := ''initcode''\<rparr>) s
                 in rbind (sv_namei sv ''/'' s) (\<lambda>(cwd, s).
                    userinit_publish c p (upd_proc p (p_cwd_update (\<lambda>_. cwd)) s))))))))"

section \<open>Growing\<close>

text \<open>\<open>sz + n\<close> is unsigned arithmetic.\<close>

definition growproc :: "'a kstate_scheme services \<Rightarrow> nat \<Rightarrow> int \<Rightarrow> 'a kstate_scheme \<Rightarrow> (int \<times> 'a kstate_scheme) res" where
  "growproc sv c n s =
     rbind (myproc c s) (\<lambda>(mp, s).
     case mp of
       None \<Rightarrow> Undef
     | Some p \<Rightarrow>
         let sz = p_sz (procs s p); pg = p_pgdir (procs s p)
         in rbind (if 0 < n then sv_allocuvm sv pg sz (sz + of_int n) s
                   else if n < 0 then sv_deallocuvm sv pg sz (sz + of_int n) s
                   else Ok (sz, s)) (\<lambda>(sz, s).
            if n \<noteq> 0 \<and> sz = 0 then Ok (-1, s)
            else rbind (switchuvm c (Some p) (upd_proc p (p_sz_update (\<lambda>_. sz)) s)) (\<lambda>s. Ok (0, s))))"

section \<open>fork\<close>

definition fork_detach :: "nat \<Rightarrow> nat \<Rightarrow> 'a kstate_scheme \<Rightarrow> 'a kstate_scheme res" where
  "fork_detach c p s =
     rbind (acquire c Lk_ptable s) (\<lambda>s.
     rbind (remove_or_panic (SL EMBRYO) p EMBRYO ''Process Not Found In EMBRYO List!'' s)
       (release c Lk_ptable))"

definition fork_fail :: "nat \<Rightarrow> nat \<Rightarrow> 'a kstate_scheme \<Rightarrow> 'a kstate_scheme res" where
  "fork_fail c p s =
     (let s = upd_proc p (\<lambda>k. k\<lparr>p_kstack := 0, p_state := UNUSED\<rparr>) s
      in rbind (acquire c Lk_ptable s) (\<lambda>s.
         rbind (stateListAdd (SL UNUSED) p s) (release c Lk_ptable)))"

fun fork_files :: "'a kstate_scheme services \<Rightarrow> nat list \<Rightarrow> nat \<Rightarrow> nat \<Rightarrow> 'a kstate_scheme \<Rightarrow> 'a kstate_scheme res" where
  "fork_files sv [] cur np s = Ok s"
| "fork_files sv (i # is) cur np s =
     (case p_ofile (procs s cur) i of
        None \<Rightarrow> fork_files sv is cur np s
      | Some f \<Rightarrow> rbind (sv_filedup sv f s) (\<lambda>(g, s).
          fork_files sv is cur np (upd_proc np (p_ofile_update (\<lambda>fs. fs(i := Some g))) s)))"

definition fork_copy :: "'a kstate_scheme services \<Rightarrow> nat \<Rightarrow> nat \<Rightarrow> 'a kstate_scheme \<Rightarrow> 'a kstate_scheme res" where
  "fork_copy sv cur np s =
     (let s = upd_proc np (\<lambda>k. k\<lparr>p_sz := p_sz (procs s cur), p_parent := Some cur,
                p_tf := (p_tf (procs s cur))\<lparr>tf_eax := 0\<rparr>\<rparr>) s
      in rbind (fork_files sv [0..<NOFILE] cur np s) (\<lambda>s.
         rbind (sv_idup sv (p_cwd (procs s cur)) s) (\<lambda>(d, s).
         Ok (upd_proc np (\<lambda>k. k\<lparr>p_cwd := d, p_name := take 15 (p_name (procs s cur)),
               p_uid := p_uid (procs s cur), p_gid := p_gid (procs s cur)\<rparr>) s))))"

definition fork_image ::
  "'a kstate_scheme services \<Rightarrow> nat \<Rightarrow> nat \<Rightarrow> nat \<Rightarrow> 'a kstate_scheme \<Rightarrow> (int \<times> 'a kstate_scheme) res" where
  "fork_image sv c cur np s =
     rbind (sv_copyuvm sv (p_pgdir (procs s cur)) (p_sz (procs s cur)) s) (\<lambda>(pg, s).
     let s = upd_proc np (p_pgdir_update (\<lambda>_. pg)) s
     in if pg = 0 then
          rbind (sv_kfree sv (p_kstack (procs s np)) s) (\<lambda>s.
          rbind (fork_fail c np s) (\<lambda>s. Ok (-1, s)))
        else
          rbind (fork_copy sv cur np s) (\<lambda>s.
          let pid = p_pid (procs s np)
          in rbind (make_runnable c np s) (\<lambda>s. Ok (sint pid, s))))"

definition fork :: "'a kstate_scheme services \<Rightarrow> nat \<Rightarrow> 'a kstate_scheme \<Rightarrow> (int \<times> 'a kstate_scheme) res" where
  "fork sv c s =
     rbind (myproc c s) (\<lambda>(mp, s).
     rbind (allocproc sv c s) (\<lambda>(pp, s).
     case pp of
       None \<Rightarrow> Ok (-1, s)
     | Some np \<Rightarrow>
         rbind (fork_detach c np s) (\<lambda>s.
         case mp of None \<Rightarrow> Undef | Some cur \<Rightarrow> fork_image sv c cur np s)))"

section \<open>What the services keep\<close>

text \<open>
  The page allocator, the virtual memory and the reference counts of files and inodes lie outside
  the process table: their routines may change the rest of the state and, outside critical sections,
  a core's \<open>intena\<close>, but
  return with the table, the locks and the nesting of \<open>pushcli\<close> as they were.
\<close>

definition calm :: "'a kstate_scheme \<Rightarrow> 'a kstate_scheme \<Rightarrow> bool" where
  "calm s t \<longleftrightarrow> procs t = procs s \<and> plist t = plist s \<and> ready t = ready s \<and> initproc t = initproc s \<and>
     nextpid t = nextpid s \<and> ticks t = ticks s \<and> eflags_if t = eflags_if s \<and> ncpu t = ncpu s \<and>
     locks t = locks s \<and> lapic_id t = lapic_id s \<and>
     (\<forall>d. c_ncli (cpus t d) = c_ncli (cpus s d) \<and> c_apicid (cpus t d) = c_apicid (cpus s d) \<and>
          c_proc (cpus t d) = c_proc (cpus s d) \<and>
          (0 < c_ncli (cpus s d) \<longrightarrow> c_intena (cpus t d) = c_intena (cpus s d)))"

definition svc_ok :: "'a kstate_scheme services \<Rightarrow> bool" where
  "svc_ok sv \<longleftrightarrow>
     (\<forall>s. wp (sv_kalloc sv s) (\<lambda>(_, t). calm s t) \<and> wp (sv_setupkvm sv s) (\<lambda>(_, t). calm s t) \<and>
       (\<forall>a. wp (sv_kfree sv a s) (calm s) \<and> wp (sv_freevm sv a s) (calm s) \<and> wp (sv_inituvm sv a s) (calm s) \<and>
         (\<forall>n. wp (sv_copyuvm sv a n s) (\<lambda>(_, t). calm s t))) \<and>
       (\<forall>f. wp (sv_filedup sv f s) (\<lambda>(_, t). calm s t)) \<and> (\<forall>d. wp (sv_idup sv d s) (\<lambda>(_, t). calm s t)) \<and>
       (\<forall>path. wp (sv_namei sv path s) (\<lambda>(_, t). calm s t)))"

lemma svc_okD:
  assumes "svc_ok sv"
  shows "wp (sv_kalloc sv s) (\<lambda>(_, t). calm s t)" "wp (sv_setupkvm sv s) (\<lambda>(_, t). calm s t)"
    "wp (sv_kfree sv a s) (calm s)" "wp (sv_freevm sv a s) (calm s)" "wp (sv_inituvm sv a s) (calm s)"
    "wp (sv_copyuvm sv a n s) (\<lambda>(_, t). calm s t)" "wp (sv_filedup sv f s) (\<lambda>(_, t). calm s t)"
    "wp (sv_idup sv d s) (\<lambda>(_, t). calm s t)" "wp (sv_namei sv path s) (\<lambda>(_, t). calm s t)"
  using assms by (simp_all add: svc_ok_def)

lemma calm_table:
  assumes "calm s t"
  shows "pinv X t = pinv X s" "view t = view s" "core t = core s" "procs t = procs s" "home t = home s"
proof -
  have e: "procs t = procs s" "plist t = plist s" "ready t = ready s" using assms by (simp_all add: calm_def)
  then show "pinv X t = pinv X s" "view t = view s" by (rule pinv_cong, rule view_cong)
  show "procs t = procs s" "core t = core s" "home t = home s" using e by (simp_all add: core_def home_def fun_eq_iff)
qed

lemma calm_machine:
  assumes "calm s t"
  shows "at_rest c t = at_rest c s" "in_ptable c t = in_ptable c s" "c_proc (cpus t d) = c_proc (cpus s d)"
    "ticks t = ticks s" "initproc t = initproc s" "nextpid t = nextpid s" "eflags_if t = eflags_if s"
  using assms by (simp_all add: calm_def at_rest_def in_ptable_def machine_ok_def held_by_def lock_free_def)

section \<open>Critical sections\<close>

definition outer :: "nat \<Rightarrow> 'a kstate_scheme \<Rightarrow> 'a kstate_scheme \<Rightarrow> bool" where
  "outer c s t \<longleftrightarrow> at_rest c t \<and> c_proc (cpus t c) = c_proc (cpus s c) \<and> ticks t = ticks s \<and>
     initproc t = initproc s \<and> nextpid t = nextpid s \<and> eflags_if t c = eflags_if s c"

text \<open>After a critical section on \<open>ptable.lock\<close>: the table reads \<open>v\<close> and \<open>co\<close>, the core is as before.\<close>

definition settled :: "nat set \<Rightarrow> (listref \<Rightarrow> nat list) \<Rightarrow> (nat \<Rightarrow> proc) \<Rightarrow> nat \<Rightarrow> 'a kstate_scheme \<Rightarrow> 'a kstate_scheme \<Rightarrow> bool" where
  "settled X v co c s t \<longleftrightarrow> pinv X t \<and> view t = v \<and> core t = co \<and> outer c s t"

lemma settledD:
  assumes "settled X v co c s t"
  shows "pinv X t" "view t = v" "core t = co" "outer c s t" "at_rest c t"
  using assms by (simp_all add: settled_def outer_def)

lemma outer_trans: "outer c s t \<Longrightarrow> outer c t u \<Longrightarrow> outer c s u"
  by (simp add: outer_def)

lemma settled_trans: "settled X v co c s t \<Longrightarrow> settled Y v' co' c t u \<Longrightarrow> settled Y v' co' c s u"
  by (auto simp: settled_def intro: outer_trans)

lemma settled_calm:
  assumes "settled X v co c s t" "calm t u"
  shows "settled X v co c s u"
  using assms calm_table [OF assms(2)] calm_machine [OF assms(2)] by (simp add: settled_def outer_def)

lemma acquired_sel [simp]:
  "initproc (acquired c lk s) = initproc s" "nextpid (acquired c lk s) = nextpid s"
  "PromoteAtTime (acquired c lk s) = PromoteAtTime s" "kpgdir (acquired c lk s) = kpgdir s"
  by (simp_all add: acquired_def set_lock_def pushed_def)

lemma released_sel [simp]:
  "initproc (released c lk s) = initproc s" "nextpid (released c lk s) = nextpid s"
  "PromoteAtTime (released c lk s) = PromoteAtTime s" "ticks (released c lk s) = ticks s"
  by (simp_all add: released_def popped_def set_lock_def touched_def)

lemma section_outer:
  assumes "at_rest c s" "effect X v co (acquired c Lk_ptable s) u"
  shows "settled X v co c s (released c Lk_ptable u)"
proof -
  note u = effectD [OF assms(2)]
  note r = same_rest_sel [OF u(4)]
  have i: "in_ptable c u" by (rule effect_in_ptable [OF assms(2) in_ptable_acquired [OF assms(1)]])
  show ?thesis
    using u released_state [OF i] r acquired_rest [OF assms(1)] by (simp add: settled_def outer_def)
qed

lemma wp_section:
  assumes "at_rest c s" "wp (body (acquired c Lk_ptable s)) (effect X v co (acquired c Lk_ptable s))"
  shows "wp (rbind (acquire c Lk_ptable s) (\<lambda>s. rbind (body s) (release c Lk_ptable))) (settled X v co c s)"
proof -
  have "wp (rbind (body (acquired c Lk_ptable s)) (release c Lk_ptable)) (settled X v co c s)"
  proof (rule wp_bindI [OF assms(2)])
    fix u
    assume e: "effect X v co (acquired c Lk_ptable s) u"
    have "in_ptable c u" by (rule effect_in_ptable [OF e in_ptable_acquired [OF assms(1)]])
    then show "wp (release c Lk_ptable u) (settled X v co c s)"
      using section_outer [OF assms(1) e] by (simp add: in_ptable_release)
  qed
  then show ?thesis by (simp only: at_rest_acquire [OF assms(1)] rbind_simps)
qed

lemma settled_upd:
  assumes "settled X v co c s t" "link_free f"
    "p \<in> X \<and> prio_ok (f (procs t p)) \<or> (\<forall>k. p_state (f k) = p_state k \<and> p_priority (f k) = p_priority k)"
  shows "settled X v (co(p := f (co p))) c s (upd_proc p f t)"
proof -
  note t = settledD [OF assms(1)]
  have "pinv X (upd_proc p f t)"
    using assms(3) t(1) link_free_next [OF assms(2)]
    by (auto intro: pinv_upd_transit pinv_upd_field)
  moreover have "at_rest c (upd_proc p f t)" using t(5) by (simp add: at_rest_def lock_free_def)
  ultimately show ?thesis
    using t assms(2) by (simp add: settled_def outer_def link_free_core link_free_next) (simp add: upd_proc_def)
qed

lemma settled_self: "pinv X s \<Longrightarrow> at_rest c s \<Longrightarrow> settled X (view s) (core s) c s s"
  by (simp add: settled_def outer_def)

lemma settled_slot:
  assumes "settled X v co c s t"
  shows "p_state (procs t p) = p_state (co p)" "p_priority (procs t p) = p_priority (co p)"
    "p_pid (procs t p) = p_pid (co p)" "p_kstack (procs t p) = p_kstack (co p)" "prio_ok (procs t p) = prio_ok (co p)"
  using settledD(3) [OF assms] by (auto simp flip: core_sel prio_ok_core_sel)

lemma effect_remove_add:
  assumes "pinv X s" "p < NPROC" "p \<notin> X" "p_state (procs s p) = st" "st \<noteq> RUNNABLE" "st' \<noteq> RUNNABLE"
  shows "wp (rbind (remove_or_panic (SL st) p st msg s) (\<lambda>s. stateListAdd (SL st') p (upd_proc p (p_state_update (\<lambda>_. st')) s)))
    (effect X (shift (SL st) (SL st') p (view s)) ((core s)(p := (core s p)\<lparr>p_state := st'\<rparr>)) s)"
proof (rule wp_move [OF assms(1-3) _ assms(4), where f = "p_state_update (\<lambda>_. st')" and b = "SL st'" and K' = Ok])
  show "home s p = SL st" using assms(4,5) by (simp add: home_simps)
  show "prio_ok ((procs s p)\<lparr>p_state := st'\<rparr>)" using pinvD(6) [OF assms(1,2)] by simp
  show "place ((procs s p)\<lparr>p_state := st'\<rparr>) = SL st'" using assms(6) by (simp add: place_def)
qed simp_all

lemma head_slot:
  assumes "pinv X s" "view s (SL st) = p # ys"
  shows "p < NPROC" "p \<notin> X" "p_state (procs s p) = st" "st \<noteq> RUNNABLE" "q_head (get_ptrs (SL st) s) = Some p"
proof -
  have "p \<in> set (view s (SL st))" using assms(2) by simp
  then show "p < NPROC" "p \<notin> X" "p_state (procs s p) = st" "st \<noteq> RUNNABLE"
    using pinvD(2,3,4) [OF assms(1), of p "SL st"] by (auto simp: home_eq_SL)
  show "q_head (get_ptrs (SL st) s) = Some p"
    using linked_ptr [OF view_linked(1) [OF pinvD(1) [OF assms(1)], of "SL st"]] assms(2) by simp
qed

lemma nextpid_upd [simp]:
  "pinv X (s\<lparr>nextpid := n\<rparr>) = pinv X s" "view (s\<lparr>nextpid := n\<rparr>) = view s" "core (s\<lparr>nextpid := n\<rparr>) = core s"
  "in_ptable c (s\<lparr>nextpid := n\<rparr>) = in_ptable c s" "at_rest c (s\<lparr>nextpid := n\<rparr>) = at_rest c s"
proof -
  show "pinv X (s\<lparr>nextpid := n\<rparr>) = pinv X s" by (rule pinv_cong) simp_all
  show "view (s\<lparr>nextpid := n\<rparr>) = view s" by (rule view_cong) simp_all
qed (simp_all add: core_def fun_eq_iff in_ptable_def at_rest_def machine_ok_def held_by_def lock_free_def)

definition embryo :: "uint \<Rightarrow> proc \<Rightarrow> proc" where
  "embryo pid k = k\<lparr>p_state := EMBRYO, p_pid := pid\<rparr>"

lemma allocproc_take_spec:
  assumes "at_rest c s" "pinv {} s"
  shows "wp (allocproc_take c s) (\<lambda>(r, t).
    case view s (SL UNUSED) of
      [] \<Rightarrow> r = None \<and> settled {} (view s) (core s) c s t
    | p # ys \<Rightarrow> r = Some p \<and> settled {} (shift (SL UNUSED) (SL EMBRYO) p (view s))
        ((core s)(p := embryo (nextpid s) (core s p))) c (s\<lparr>nextpid := nextpid s + 1\<rparr>) t)"
proof -
  let ?s = "acquired c Lk_ptable s"
  have i: "in_ptable c ?s" "pinv {} ?s" using assms by (simp_all add: in_ptable_acquired)
  show ?thesis
  proof (cases "view s (SL UNUSED)")
    case Nil
    then have "q_head (get_ptrs (SL UNUSED) ?s) = None"
      using linked_ptr [OF view_linked(1) [OF pinvD(1) [OF i(2)], of "SL UNUSED"]] by simp
    then show ?thesis
      using Nil section_outer [OF assms(1), of "{}" "view s" "core s" ?s] effect_self [OF i(2)] i
      by (simp add: allocproc_take_def at_rest_acquire [OF assms(1)] in_ptable_release)
  next
    case (Cons p ys)
    note p = head_slot [OF i(2), of UNUSED p ys]
    let ?v = "shift (SL UNUSED) (SL EMBRYO) p (view s)"
    let ?Q = "\<lambda>(r, t). r = Some p \<and> settled {} ?v ((core s)(p := embryo (nextpid s) (core s p))) c (s\<lparr>nextpid := nextpid s + 1\<rparr>) t"
    have "wp (rbind (rbind (remove_or_panic (SL UNUSED) p UNUSED ''Process Not Found In UNUSED List!'' ?s)
          (\<lambda>s. stateListAdd (SL EMBRYO) p (upd_proc p (p_state_update (\<lambda>_. EMBRYO)) s))) (\<lambda>s.
         let s = (upd_proc p (p_pid_update (\<lambda>_. nextpid s)) s)\<lparr>nextpid := nextpid s + 1\<rparr>
         in rbind (release c Lk_ptable s) (\<lambda>s. Ok (Some p, s)))) ?Q"
    proof (rule wp_bindI [OF effect_remove_add [OF i(2)]])
      show "p < NPROC" "p \<notin> {}" "p_state (procs ?s p) = UNUSED" using p Cons by simp_all
      fix u
      assume e: "effect {} (shift (SL UNUSED) (SL EMBRYO) p (view ?s)) ((core ?s)(p := (core ?s p)\<lparr>p_state := EMBRYO\<rparr>)) ?s u"
      note r = same_rest_sel [OF effectD(4) [OF e]]
      have n: "nextpid u = nextpid s" using r by simp
      let ?u = "upd_proc p (p_pid_update (\<lambda>_. nextpid s)) u"
      have iu: "in_ptable c u" by (rule effect_in_ptable [OF e i(1)])
      have "pinv {} ?u" using effectD(1) [OF e] by (intro pinv_upd_field) auto
      then have "settled {} ?v ((core s)(p := embryo (nextpid s) (core s p))) c (s\<lparr>nextpid := nextpid s + 1\<rparr>)
          (released c Lk_ptable (?u\<lparr>nextpid := nextpid s + 1\<rparr>))"
        using effectD(2,3) [OF e] released_state [of c "?u\<lparr>nextpid := nextpid s + 1\<rparr>"] iu r acquired_rest [OF assms(1)]
        by (simp add: settled_def outer_def link_free_core embryo_def) (simp add: upd_proc_def)
      then show "wp (let s = (upd_proc p (p_pid_update (\<lambda>_. nextpid u)) u)\<lparr>nextpid := nextpid u + 1\<rparr>
         in rbind (release c Lk_ptable s) (\<lambda>s. Ok (Some p, s))) ?Q"
        using iu by (simp add: n in_ptable_release)
    qed simp_all
    then show ?thesis
      using p(5) Cons by (simp add: allocproc_take_def at_rest_acquire [OF assms(1)] rbind_assoc del: wp_rbind)
  qed
qed

lemma allocproc_fail_spec:
  assumes "at_rest c s" "pinv {} s" "p < NPROC" "p_state (procs s p) = EMBRYO"
  shows "wp (allocproc_fail c p s) (settled {} (shift (SL EMBRYO) (SL UNUSED) p (view s))
    ((core s)(p := (core s p)\<lparr>p_state := UNUSED\<rparr>)) c s)"
proof -
  let ?b = "\<lambda>s. rbind (remove_or_panic (SL EMBRYO) p EMBRYO ''Process Not Found In EMBRYO List!'' s)
    (\<lambda>s. stateListAdd (SL UNUSED) p (upd_proc p (p_state_update (\<lambda>_. UNUSED)) s))"
  have "wp (rbind (acquire c Lk_ptable s) (\<lambda>s. rbind (?b s) (release c Lk_ptable))) (settled {}
      (shift (SL EMBRYO) (SL UNUSED) p (view s)) ((core s)(p := (core s p)\<lparr>p_state := UNUSED\<rparr>)) c s)"
    by (rule wp_section [OF assms(1)])
      (use effect_remove_add [of "{}" "acquired c Lk_ptable s" p EMBRYO UNUSED] assms in simp)
  then show ?thesis by (simp add: allocproc_fail_def rbind_assoc del: wp_rbind)
qed

lemma fork_detach_spec:
  assumes "at_rest c s" "pinv {} s" "p < NPROC" "p_state (procs s p) = EMBRYO"
  shows "wp (fork_detach c p s) (settled {p} ((view s)(SL EMBRYO := remove1 p (view s (SL EMBRYO)))) (core s) c s)"
  unfolding fork_detach_def
  by (rule wp_section [OF assms(1)])
    (use remove_or_panic_spec [of "{}" "acquired c Lk_ptable s" p "SL EMBRYO" EMBRYO] assms in \<open>simp add: home_simps\<close>)

lemma fork_fail_spec:
  assumes "at_rest c s" "pinv {p} s" "p < NPROC"
  shows "wp (fork_fail c p s) (settled {} ((view s)(SL UNUSED := view s (SL UNUSED) @ [p]))
    ((core s)(p := (core s p)\<lparr>p_kstack := 0, p_state := UNUSED\<rparr>)) c s)"
proof -
  let ?f = "\<lambda>k. k\<lparr>p_kstack := 0, p_state := UNUSED\<rparr>"
  have lf: "link_free ?f" by (simp add: link_free_def)
  have ok: "prio_ok (procs s p)" using pinvD(6) [OF assms(2,3)] .
  let ?s = "upd_proc p ?f s"
  have st: "settled {p} (view s) ((core s)(p := ?f (core s p))) c s ?s"
    by (rule settled_upd [OF settled_self [OF assms(2,1)] lf]) (use ok in \<open>simp add: prio_ok_def\<close>)
  note s = settledD [OF st]
  have "wp (stateListAdd (SL UNUSED) p (acquired c Lk_ptable ?s))
      (effect {} ((view s)(SL UNUSED := view s (SL UNUSED) @ [p])) ((core s)(p := ?f (core s p))) (acquired c Lk_ptable ?s))"
  proof -
    have "wp (stateListAdd (SL UNUSED) p (acquired c Lk_ptable ?s)) (\<lambda>t. pinv ({p} - {p}) t \<and>
        view t = (view (acquired c Lk_ptable ?s))(SL UNUSED := view (acquired c Lk_ptable ?s) (SL UNUSED) @ [p]) \<and>
        core t = core (acquired c Lk_ptable ?s) \<and> same_rest (acquired c Lk_ptable ?s) t)"
      by (rule pinv_add) (use s(1) assms(3) in \<open>simp_all add: home_def\<close>)
    then show ?thesis by (rule wp_mono) (simp add: effect_def s(2,3))
  qed
  then have "wp (rbind (acquire c Lk_ptable ?s) (\<lambda>s. rbind (stateListAdd (SL UNUSED) p s) (release c Lk_ptable)))
      (settled {} ((view s)(SL UNUSED := view s (SL UNUSED) @ [p])) ((core s)(p := ?f (core s p))) c ?s)"
    by (rule wp_section [OF s(5)])
  then show ?thesis unfolding fork_fail_def Let_def by (rule wp_mono) (rule settled_trans [OF st])
qed

lemma make_runnable_spec:
  assumes "at_rest c s" "pinv {p} s" "p < NPROC"
  shows "wp (make_runnable c p s) (settled {} ((view s)(RL (nat (p_priority (procs s p))) :=
      view s (RL (nat (p_priority (procs s p)))) @ [p])) ((core s)(p := (core s p)\<lparr>p_state := RUNNABLE\<rparr>)) c s)"
proof -
  let ?s = "acquired c Lk_ptable s"
  let ?l = "RL (nat (p_priority (procs s p)))"
  let ?b = "\<lambda>s. let s = upd_proc p (p_state_update (\<lambda>_. RUNNABLE)) s
     in rbind (ready_at (p_priority (procs s p))) (\<lambda>l. stateListAdd l p s)"
  have ok: "prio_ok (procs s p)" using pinvD(6) [OF assms(2,3)] .
  have "wp (stateListAdd ?l p (upd_proc p (p_state_update (\<lambda>_. RUNNABLE)) ?s))
      (effect {} ((view ?s)(?l := view ?s ?l @ [p])) ((core ?s)(p := (core ?s p)\<lparr>p_state := RUNNABLE\<rparr>)) ?s)"
    by (rule wp_put) (use assms ok in \<open>simp_all add: place_def\<close>)
  then have "wp (?b ?s) (effect {} ((view s)(?l := view s ?l @ [p])) ((core s)(p := (core s p)\<lparr>p_state := RUNNABLE\<rparr>)) ?s)"
    using ready_at_ok [OF ok] by (simp add: Let_def)
  from wp_section [where body = ?b, OF assms(1) this] show ?thesis
    by (simp add: make_runnable_def Let_def rbind_assoc del: wp_rbind)
qed

section \<open>allocproc and fork\<close>

lemma pinv_upd_idle:
  assumes "pinv X s" "p_state (procs s p) \<noteq> RUNNABLE" "link_free f" "\<And>k. p_state (f k) = p_state k" "prio_ok (f (procs s p))"
  shows "pinv X (upd_proc p f s)"
proof -
  have "home (upd_proc p f s) = home s" using assms(2,4) by (auto simp: home_def fun_eq_iff)
  then show ?thesis
    using assms(1,5) link_free_next [OF assms(3)] by (auto simp: pinv_def)
qed

lemma settled_upd_idle:
  assumes "settled X v co c s t" "p_state (co p) \<noteq> RUNNABLE" "link_free f" "\<And>k. p_state (f k) = p_state k"
    "prio_ok (f (procs t p))"
  shows "settled X v (co(p := f (co p))) c s (upd_proc p f t)"
proof -
  note t = settledD [OF assms(1)]
  have "pinv X (upd_proc p f t)"
    using t(1) assms settled_slot(1) [OF assms(1)] by (intro pinv_upd_idle) auto
  moreover have "at_rest c (upd_proc p f t)" using t(5) by (simp add: at_rest_def lock_free_def)
  ultimately show ?thesis
    using t assms(3) by (simp add: settled_def outer_def link_free_core link_free_next) (simp add: upd_proc_def)
qed

text \<open>A failed allocation: the slots in use, and which they are, have not changed.\<close>

definition unborn :: "nat \<Rightarrow> 'a kstate_scheme \<Rightarrow> 'a kstate_scheme \<Rightarrow> bool" where
  "unborn c s t \<longleftrightarrow> pinv {} t \<and> at_rest c t \<and> c_proc (cpus t c) = c_proc (cpus s c) \<and> initproc t = initproc s \<and>
     (\<forall>q. p_state (procs t q) = UNUSED \<longleftrightarrow> p_state (procs s q) = UNUSED) \<and>
     (\<forall>q. p_state (procs s q) \<noteq> UNUSED \<longrightarrow> core t q = core s q)"

lemma settled_unborn:
  assumes "settled {} v ((core s)(p := k)) c (s\<lparr>nextpid := n\<rparr>) t" "p_state k = UNUSED" "p_state (procs s p) = UNUSED"
  shows "unborn c s t"
  using settledD [OF assms(1)] settled_slot(1) [OF assms(1)] assms(2,3) by (auto simp: unborn_def outer_def)

definition newborn :: "uint \<Rightarrow> uint \<Rightarrow> uint \<Rightarrow> proc \<Rightarrow> proc" where
  "newborn tk pid ks k = fresh_proc tk ((embryo pid k)\<lparr>p_kstack := ks\<rparr>)"

lemma link_free_fresh [simp]: "link_free (fresh_proc tk)"
  by (simp add: link_free_def fresh_proc_def)

lemma allocproc_stack:
  assumes "settled {} (shift (SL UNUSED) (SL EMBRYO) p (view s)) ((core s)(p := embryo (nextpid s) (core s p))) c
      (s\<lparr>nextpid := nextpid s + 1\<rparr>) t" "p < NPROC" "p_state (procs s p) = UNUSED"
  shows "wp (let t = upd_proc p (p_kstack_update (\<lambda>_. k)) t
     in if k = 0 then rbind (allocproc_fail c p t) (\<lambda>s. Ok (None, s)) else Ok (Some p, upd_proc p (fresh_proc (ticks t)) t))
    (\<lambda>(r, u). case r of None \<Rightarrow> unborn c s u
     | Some q \<Rightarrow> q = p \<and> k \<noteq> 0 \<and> settled {} (shift (SL UNUSED) (SL EMBRYO) p (view s))
         ((core s)(p := newborn (ticks s) (nextpid s) k (core s p))) c (s\<lparr>nextpid := nextpid s + 1\<rparr>) u)"
proof -
  let ?t = "upd_proc p (p_kstack_update (\<lambda>_. k)) t"
  have st: "settled {} (shift (SL UNUSED) (SL EMBRYO) p (view s))
      ((core s)(p := (embryo (nextpid s) (core s p))\<lparr>p_kstack := k\<rparr>)) c (s\<lparr>nextpid := nextpid s + 1\<rparr>) ?t"
    using settled_upd [OF assms(1), of "p_kstack_update (\<lambda>_. k)" p] by simp
  note t = settledD [OF st]
  have e: "p_state (procs ?t p) = EMBRYO" using settled_slot(1) [OF st, of p] by (simp add: embryo_def)
  show ?thesis
  proof (cases "k = 0")
    case True
    have "wp (allocproc_fail c p ?t) (unborn c s)"
    proof (rule wp_mono [OF allocproc_fail_spec [OF t(5,1) assms(2) e]])
      fix u
      assume "settled {} (shift (SL EMBRYO) (SL UNUSED) p (view ?t)) ((core ?t)(p := (core ?t p)\<lparr>p_state := UNUSED\<rparr>)) c ?t u"
      from settled_trans [OF st this]
      have "settled {} (shift (SL EMBRYO) (SL UNUSED) p (view ?t)) ((core s)(p := (core ?t p)\<lparr>p_state := UNUSED\<rparr>)) c
          (s\<lparr>nextpid := nextpid s + 1\<rparr>) u" by (simp add: t(3))
      then show "unborn c s u" by (rule settled_unborn) (simp_all add: assms(3))
    qed
    then show ?thesis using True by (simp add: Let_def)
  next
    case False
    have tk: "ticks ?t = ticks s" using t(4) by (simp add: outer_def)
    have "settled {} (shift (SL UNUSED) (SL EMBRYO) p (view s))
         ((core s)(p := newborn (ticks s) (nextpid s) k (core s p))) c (s\<lparr>nextpid := nextpid s + 1\<rparr>) (upd_proc p (fresh_proc (ticks s)) ?t)"
      using settled_upd_idle [OF st, of p "fresh_proc (ticks s)"]
      by (simp add: newborn_def embryo_def fresh_proc_def prio_ok_def DEFAULTPRIO_def MAXPRIO_def link_free_def)
    then show ?thesis using False tk by (simp add: Let_def)
  qed
qed

lemma allocproc_spec:
  assumes "svc_ok sv" "at_rest c s" "pinv {} s"
  shows "wp (allocproc sv c s) (\<lambda>(r, t). case r of
      None \<Rightarrow> unborn c s t
    | Some p \<Rightarrow> \<exists>ys k. view s (SL UNUSED) = p # ys \<and> k \<noteq> 0 \<and> settled {} (shift (SL UNUSED) (SL EMBRYO) p (view s))
         ((core s)(p := newborn (ticks s) (nextpid s) k (core s p))) c (s\<lparr>nextpid := nextpid s + 1\<rparr>) t)"
  unfolding allocproc_def
proof (rule wp_bindI [OF allocproc_take_spec [OF assms(2,3)]], clarify)
  fix r t
  assume a: "case view s (SL UNUSED) of
      [] \<Rightarrow> r = None \<and> settled {} (view s) (core s) c s t
    | p # ys \<Rightarrow> r = Some p \<and> settled {} (shift (SL UNUSED) (SL EMBRYO) p (view s))
        ((core s)(p := embryo (nextpid s) (core s p))) c (s\<lparr>nextpid := nextpid s + 1\<rparr>) t"
  let ?Q = "\<lambda>(r, t). case r of None \<Rightarrow> unborn c s t
    | Some p \<Rightarrow> \<exists>ys k. view s (SL UNUSED) = p # ys \<and> k \<noteq> 0 \<and> settled {} (shift (SL UNUSED) (SL EMBRYO) p (view s))
         ((core s)(p := newborn (ticks s) (nextpid s) k (core s p))) c (s\<lparr>nextpid := nextpid s + 1\<rparr>) t"
  show "wp (case r of None \<Rightarrow> Ok (None, t) | Some p \<Rightarrow> rbind (sv_kalloc sv t) (\<lambda>(k, s).
         let s = upd_proc p (p_kstack_update (\<lambda>_. k)) s
         in if k = 0 then rbind (allocproc_fail c p s) (\<lambda>s. Ok (None, s))
            else Ok (Some p, upd_proc p (fresh_proc (ticks s)) s))) ?Q"
  proof (cases "view s (SL UNUSED)")
    case Nil
    then show ?thesis
      using a settled_slot(1) [of "{}" "view s" "core s" c s t] by (auto simp: unborn_def settled_def outer_def)
  next
    case (Cons p ys)
    note p = head_slot [OF assms(3) Cons]
    from a Cons have r: "r = Some p" and st: "settled {} (shift (SL UNUSED) (SL EMBRYO) p (view s))
        ((core s)(p := embryo (nextpid s) (core s p))) c (s\<lparr>nextpid := nextpid s + 1\<rparr>) t" by simp_all
    show ?thesis
      unfolding r option.case
    proof (rule wp_bindI [OF svc_okD(1) [OF assms(1)]], clarify)
      fix k u
      assume "calm t u"
      note su = settled_calm [OF st this]
      show "wp (let s = upd_proc p (p_kstack_update (\<lambda>_. k)) u
         in if k = 0 then rbind (allocproc_fail c p s) (\<lambda>s. Ok (None, s))
            else Ok (Some p, upd_proc p (fresh_proc (ticks s)) s)) ?Q"
        by (rule wp_mono [OF allocproc_stack [OF su p(1,3)]]) (auto simp: Cons split: option.splits)
    qed
  qed
qed

lemma fork_files_spec:
  assumes "svc_ok sv" "settled {np} v co c s t" "cur \<noteq> np" "p_ofile (co cur) = fs" "np < NPROC"
  shows "wp (fork_files sv is cur np t) (\<lambda>u. \<exists>F. settled {np} v (co(np := (co np)\<lparr>p_ofile := F\<rparr>)) c s u \<and>
    (\<forall>i. F i \<noteq> None \<longleftrightarrow> p_ofile (co np) i \<noteq> None \<or> i \<in> set is \<and> fs i \<noteq> None))"
  using assms(2,4)
proof (induction "is" arbitrary: t co)
  case Nil
  have "co(np := (co np)\<lparr>p_ofile := p_ofile (co np)\<rparr>) = co" by simp
  then have "settled {np} v (co(np := (co np)\<lparr>p_ofile := p_ofile (co np)\<rparr>)) c s t" using Nil by metis
  then show ?case unfolding fork_files.simps wp_simps by (intro exI conjI) (assumption, simp)
next
  case (Cons i "is")
  have f: "p_ofile (procs t cur) = fs"
    using settledD(3) [OF Cons.prems(1)] Cons.prems(2) by (simp flip: core_sel)
  show ?case
  proof (cases "fs i")
    case None
    then have e: "(j \<in> set (i # is) \<and> fs j \<noteq> None) = (j \<in> set is \<and> fs j \<noteq> None)" for j by auto
    have "fork_files sv (i # is) cur np t = fork_files sv is cur np t" using None f by simp
    then show ?thesis using Cons.IH [OF Cons.prems] by (simp only: e)
  next
    case (Some x)
    have "wp (rbind (sv_filedup sv x t) (\<lambda>(g, s). fork_files sv is cur np (upd_proc np (p_ofile_update (\<lambda>fs. fs(i := Some g))) s)))
      (\<lambda>u. \<exists>F. settled {np} v (co(np := (co np)\<lparr>p_ofile := F\<rparr>)) c s u \<and>
        (\<forall>j. F j \<noteq> None \<longleftrightarrow> p_ofile (co np) j \<noteq> None \<or> j \<in> set (i # is) \<and> fs j \<noteq> None))"
    proof (rule wp_bindI [OF svc_okD(7) [OF assms(1)]], clarify)
      fix g u
      assume "calm t u"
      note su = settled_calm [OF Cons.prems(1) this]
      let ?f = "p_ofile_update (\<lambda>fs. fs(i := Some g))"
      have "settled {np} v (co(np := ?f (co np))) c s (upd_proc np ?f u)"
        by (rule settled_upd [OF su]) simp_all
      moreover have "p_ofile ((co(np := ?f (co np))) cur) = fs" using Cons.prems(2) assms(3) by simp
      ultimately have "wp (fork_files sv is cur np (upd_proc np ?f u)) (\<lambda>u. \<exists>F.
          settled {np} v (co(np := (co np)\<lparr>p_ofile := F\<rparr>)) c s u \<and>
          (\<forall>j. F j \<noteq> None \<longleftrightarrow> p_ofile (?f (co np)) j \<noteq> None \<or> j \<in> set is \<and> fs j \<noteq> None))"
        using Cons.IH [of "co(np := ?f (co np))"] by (simp add: fun_upd_same del: fun_upd_apply not_None_eq)
      then show "wp (fork_files sv is cur np (upd_proc np ?f u)) (\<lambda>u. \<exists>F.
          settled {np} v (co(np := (co np)\<lparr>p_ofile := F\<rparr>)) c s u \<and>
          (\<forall>j. F j \<noteq> None \<longleftrightarrow> p_ofile (co np) j \<noteq> None \<or> j \<in> set (i # is) \<and> fs j \<noteq> None))"
      proof (rule wp_mono, clarify)
        fix w F
        assume s: "settled {np} v (co(np := (co np)\<lparr>p_ofile := F\<rparr>)) c s w"
          and F: "\<forall>j. F j \<noteq> None \<longleftrightarrow> p_ofile (?f (co np)) j \<noteq> None \<or> j \<in> set is \<and> fs j \<noteq> None"
        have "F j \<noteq> None \<longleftrightarrow> p_ofile (co np) j \<noteq> None \<or> j \<in> set (i # is) \<and> fs j \<noteq> None" for j
          using F [rule_format, of j] Some by auto
        then show "\<exists>F. settled {np} v (co(np := (co np)\<lparr>p_ofile := F\<rparr>)) c s w \<and>
          (\<forall>j. F j \<noteq> None \<longleftrightarrow> p_ofile (co np) j \<noteq> None \<or> j \<in> set (i # is) \<and> fs j \<noteq> None)"
          using s by blast
      qed
    qed
    then show ?thesis unfolding fork_files.simps f Some option.case .
  qed
qed

text \<open>What the child inherits.\<close>

definition child_of :: "nat \<Rightarrow> proc \<Rightarrow> proc \<Rightarrow> bool" where
  "child_of cur par k \<longleftrightarrow> p_parent k = Some cur \<and> p_sz k = p_sz par \<and> p_tf k = (p_tf par)\<lparr>tf_eax := 0\<rparr> \<and>
     p_uid k = p_uid par \<and> p_gid k = p_gid par \<and> p_name k = take 15 (p_name par) \<and>
     (\<forall>i<NOFILE. p_ofile par i \<noteq> None \<longrightarrow> p_ofile k i \<noteq> None)"

lemma fork_copy_spec:
  assumes "svc_ok sv" "settled {np} v co c s t" "cur \<noteq> np" "np < NPROC"
  shows "wp (fork_copy sv cur np t) (\<lambda>u. \<exists>k. settled {np} v (co(np := k)) c s u \<and> child_of cur (co cur) k \<and>
    p_priority k = p_priority (co np) \<and> p_context k = p_context (co np) \<and> p_pid k = p_pid (co np) \<and>
    p_kstack k = p_kstack (co np) \<and> p_pgdir k = p_pgdir (co np))"
proof -
  have cur: "p_sz (procs t cur) = p_sz (co cur)" "p_tf (procs t cur) = p_tf (co cur)"
    using settledD(3) [OF assms(2)] by (simp_all flip: core_sel)
  let ?f = "\<lambda>k. k\<lparr>p_sz := p_sz (procs t cur), p_parent := Some cur, p_tf := (p_tf (procs t cur))\<lparr>tf_eax := 0\<rparr>\<rparr>"
  let ?k = "?f (co np)"
  have "link_free ?f" by (simp add: link_free_def)
  from settled_upd [OF assms(2) this, of np] have st: "settled {np} v (co(np := ?k)) c s (upd_proc np ?f t)" by simp
  have ofile: "p_ofile ((co(np := ?k)) cur) = p_ofile (co cur)" using assms(3) by simp
  show ?thesis
    unfolding fork_copy_def Let_def
  proof (rule wp_bindI [OF fork_files_spec [OF assms(1) st assms(3) ofile assms(4)]], clarify)
    fix u F
    assume su: "settled {np} v ((co(np := ?k))(np := ((co(np := ?k)) np)\<lparr>p_ofile := F\<rparr>)) c s u"
      and F: "\<forall>i. (F i \<noteq> None) = (p_ofile ((co(np := ?k)) np) i \<noteq> None \<or> i \<in> set [0..<NOFILE] \<and> p_ofile (co cur) i \<noteq> None)"
    show "wp (rbind (sv_idup sv (p_cwd (procs u cur)) u) (\<lambda>(d, s). Ok (upd_proc np (\<lambda>k. k\<lparr>p_cwd := d,
        p_name := take 15 (p_name (procs s cur)), p_uid := p_uid (procs s cur), p_gid := p_gid (procs s cur)\<rparr>) s)))
      (\<lambda>u. \<exists>k. settled {np} v (co(np := k)) c s u \<and> child_of cur (co cur) k \<and>
        p_priority k = p_priority (co np) \<and> p_context k = p_context (co np) \<and> p_pid k = p_pid (co np) \<and>
        p_kstack k = p_kstack (co np) \<and> p_pgdir k = p_pgdir (co np))"
    proof (rule wp_bindI [OF svc_okD(8) [OF assms(1)]], clarify)
      fix d w
      assume "calm u w"
      note sw = settled_calm [OF su this]
      have c2: "p_name (procs w cur) = p_name (co cur)" "p_uid (procs w cur) = p_uid (co cur)" "p_gid (procs w cur) = p_gid (co cur)"
        using settledD(3) [OF sw] assms(3) by (simp_all flip: core_sel)
      let ?g = "\<lambda>k. k\<lparr>p_cwd := d, p_name := take 15 (p_name (procs w cur)), p_uid := p_uid (procs w cur),
        p_gid := p_gid (procs w cur)\<rparr>"
      have "link_free ?g" by (simp add: link_free_def)
      from settled_upd [OF sw this, of np] have "settled {np} v (co(np := ?g (?k\<lparr>p_ofile := F\<rparr>))) c s (upd_proc np ?g w)" by simp
      moreover have "child_of cur (co cur) (?g (?k\<lparr>p_ofile := F\<rparr>))"
        using F by (simp add: child_of_def cur c2)
      ultimately show "wp (Ok (upd_proc np ?g w)) (\<lambda>u. \<exists>k. settled {np} v (co(np := k)) c s u \<and> child_of cur (co cur) k \<and>
        p_priority k = p_priority (co np) \<and> p_context k = p_context (co np) \<and> p_pid k = p_pid (co np) \<and>
        p_kstack k = p_kstack (co np) \<and> p_pgdir k = p_pgdir (co np))"
        unfolding wp_simps by (intro exI [of _ "?g (?k\<lparr>p_ofile := F\<rparr>)"] conjI) simp_all
    qed
  qed
qed

lemma child_of_upd [simp]: "child_of cur par (p_state_update f k) = child_of cur par k"
  by (simp add: child_of_def)

definition forked :: "nat \<Rightarrow> nat \<Rightarrow> 'a kstate_scheme \<Rightarrow> int \<Rightarrow> 'a kstate_scheme \<Rightarrow> bool" where
  "forked c cur s r t \<longleftrightarrow> (\<exists>np ys. view s (SL UNUSED) = np # ys \<and> r = sint (nextpid s) \<and> pinv {} t \<and> at_rest c t \<and>
     nextpid t = nextpid s + 1 \<and> view t = (view s)(SL UNUSED := ys, RL (nat DEFAULTPRIO) := view s (RL (nat DEFAULTPRIO)) @ [np]) \<and>
     p_state (procs t np) = RUNNABLE \<and> p_pid (procs t np) = nextpid s \<and> p_context (procs t np) = K_forkret \<and>
     image_ok (procs t np) \<and> child_of cur (core s cur) (core t np) \<and> (\<forall>q. q \<noteq> np \<longrightarrow> core t q = core s q))"

lemma fork_publish:
  assumes "settled {np} v ((core s)(np := k)) c (s\<lparr>nextpid := nextpid s + 1\<rparr>) t" "view s (SL UNUSED) = np # ys" "pinv {} s"
    "v = (view s)(SL UNUSED := ys)" "child_of cur (core s cur) k" "p_priority k = DEFAULTPRIO" "p_context k = K_forkret"
    "p_pid k = nextpid s" "image_ok k"
  shows "wp (let pid = p_pid (procs t np) in rbind (make_runnable c np t) (\<lambda>s. Ok (sint pid, s))) (\<lambda>(r, t). forked c cur s r t)"
proof -
  note t = settledD [OF assms(1)]
  have np: "np < NPROC" using head_slot(1) [OF assms(3,2)] .
  have pid: "p_pid (procs t np) = nextpid s" "p_priority (procs t np) = DEFAULTPRIO"
    using settled_slot(2,3) [OF assms(1), of np] assms(6,8) by simp_all
  have "wp (make_runnable c np t) (forked c cur s (sint (nextpid s)))"
  proof (rule wp_mono [OF make_runnable_spec [OF t(5,1) np]])
    fix u
    assume "settled {} ((view t)(RL (nat (p_priority (procs t np))) := view t (RL (nat (p_priority (procs t np)))) @ [np]))
      ((core t)(np := (core t np)\<lparr>p_state := RUNNABLE\<rparr>)) c t u"
    from settled_trans [OF assms(1) this] have u: "settled {} ((view s)(SL UNUSED := ys, RL (nat DEFAULTPRIO) := view s (RL (nat DEFAULTPRIO)) @ [np]))
      ((core s)(np := k\<lparr>p_state := RUNNABLE\<rparr>)) c (s\<lparr>nextpid := nextpid s + 1\<rparr>) u"
      by (simp add: t(2,3) pid assms(4))
    note uD = settledD [OF u]
    have "core u np = k\<lparr>p_state := RUNNABLE\<rparr>" by (simp add: uD(3))
    then have "p_state (procs u np) = RUNNABLE" "p_pid (procs u np) = nextpid s" "p_context (procs u np) = K_forkret"
      "image_ok (procs u np)" "child_of cur (core s cur) (core u np)"
      using assms(5,7-9) by (simp_all add: image_ok_def flip: core_sel)
    then show "forked c cur s (sint (nextpid s)) u"
      unfolding forked_def using uD assms(2)
      by (intro exI [of _ np] exI [of _ ys]) (simp add: outer_def)
  qed
  then show ?thesis by (simp add: pid)
qed

lemma fork_nomem:
  assumes "svc_ok sv" "settled {np} v ((core s)(np := k)) c (s\<lparr>nextpid := n\<rparr>) w" "np < NPROC" "p_state (procs s np) = UNUSED"
  shows "wp (rbind (sv_kfree sv a w) (\<lambda>s. rbind (fork_fail c np s) (\<lambda>s. Ok (-1, s)))) (\<lambda>(r, t). r = (-1 :: int) \<and> unborn c s t)"
proof (rule wp_bindI [OF svc_okD(3) [OF assms(1)]])
  fix x
  assume "calm w x"
  note sx = settled_calm [OF assms(2) this]
  note xD = settledD [OF sx]
  have "wp (fork_fail c np x) (unborn c s)"
  proof (rule wp_mono [OF fork_fail_spec [OF xD(5,1) assms(3)]])
    fix y
    assume "settled {} ((view x)(SL UNUSED := view x (SL UNUSED) @ [np])) ((core x)(np := (core x np)\<lparr>p_kstack := 0, p_state := UNUSED\<rparr>)) c x y"
    from settled_trans [OF sx this] have "settled {} ((view x)(SL UNUSED := view x (SL UNUSED) @ [np]))
        ((core s)(np := (core x np)\<lparr>p_kstack := 0, p_state := UNUSED\<rparr>)) c (s\<lparr>nextpid := n\<rparr>) y"
      by (simp only: xD(3) fun_upd_upd)
    then show "unborn c s y" by (rule settled_unborn) (simp_all add: assms(4))
  qed
  then show "wp (rbind (fork_fail c np x) (\<lambda>s. Ok (-1, s))) (\<lambda>(r, t). r = (-1 :: int) \<and> unborn c s t)" by (simp add: wp_mono)
qed

lemma fork_image_spec:
  assumes "svc_ok sv" "pinv {} s" "view s (SL UNUSED) = np # ys" "cur \<noteq> np" "k \<noteq> 0"
    "settled {np} ((view s)(SL UNUSED := ys)) ((core s)(np := newborn (ticks s) (nextpid s) k (core s np))) c (s\<lparr>nextpid := nextpid s + 1\<rparr>) u"
  shows "wp (fork_image sv c cur np u) (\<lambda>(r, t). r = -1 \<and> unborn c s t \<or> forked c cur s r t)"
  unfolding fork_image_def
proof (rule wp_bindI [OF svc_okD(6) [OF assms(1)]], clarify)
  fix pg w
  assume "calm u w"
  note sw = settled_calm [OF assms(6) this]
  note np = head_slot [OF assms(2,3)]
  let ?k = "(newborn (ticks s) (nextpid s) k (core s np))\<lparr>p_pgdir := pg\<rparr>"
  let ?w = "upd_proc np (p_pgdir_update (\<lambda>_. pg)) w"
  let ?Q = "\<lambda>(r, t). r = -1 \<and> unborn c s t \<or> forked c cur s r t"
  have w: "settled {np} ((view s)(SL UNUSED := ys)) ((core s)(np := ?k)) c (s\<lparr>nextpid := nextpid s + 1\<rparr>) ?w"
    using settled_upd [OF sw, of "p_pgdir_update (\<lambda>_. pg)" np] by simp
  have "wp (rbind (fork_copy sv cur np ?w) (\<lambda>s. let pid = p_pid (procs s np) in rbind (make_runnable c np s) (\<lambda>s. Ok (sint pid, s)))) ?Q"
    if "pg \<noteq> 0"
  proof (rule wp_bindI [OF fork_copy_spec [OF assms(1) w assms(4) np(1)]], elim exE conjE)
    fix x kk
    assume x: "settled {np} ((view s)(SL UNUSED := ys)) ((core s)(np := ?k, np := kk)) c (s\<lparr>nextpid := nextpid s + 1\<rparr>) x"
      and ch: "child_of cur (((core s)(np := ?k)) cur) kk"
      and kk: "p_priority kk = p_priority (((core s)(np := ?k)) np)" "p_context kk = p_context (((core s)(np := ?k)) np)"
        "p_pid kk = p_pid (((core s)(np := ?k)) np)" "p_kstack kk = p_kstack (((core s)(np := ?k)) np)"
        "p_pgdir kk = p_pgdir (((core s)(np := ?k)) np)"
    have x': "settled {np} ((view s)(SL UNUSED := ys)) ((core s)(np := kk)) c (s\<lparr>nextpid := nextpid s + 1\<rparr>) x"
      using x by (simp only: fun_upd_upd)
    have "wp (let pid = p_pid (procs x np) in rbind (make_runnable c np x) (\<lambda>s. Ok (sint pid, s))) (\<lambda>(r, t). forked c cur s r t)"
      by (rule fork_publish [OF x' assms(3,2) refl])
        (use ch kk assms(4,5) that in \<open>simp_all add: newborn_def fresh_proc_def embryo_def image_ok_def\<close>)
    then show "wp (let pid = p_pid (procs x np) in rbind (make_runnable c np x) (\<lambda>s. Ok (sint pid, s))) ?Q"
      by (rule wp_mono) auto
  qed
  moreover have "wp (rbind (sv_kfree sv a ?w) (\<lambda>s. rbind (fork_fail c np s) (\<lambda>s. Ok (-1, s)))) ?Q" for a
    by (rule wp_mono [OF fork_nomem [OF assms(1) w np(1,3)]]) auto
  ultimately show "wp (let s = ?w in if pg = 0 then
          rbind (sv_kfree sv (p_kstack (procs s np)) s) (\<lambda>s. rbind (fork_fail c np s) (\<lambda>s. Ok (-1, s)))
        else rbind (fork_copy sv cur np s) (\<lambda>s. let pid = p_pid (procs s np)
          in rbind (make_runnable c np s) (\<lambda>s. Ok (sint pid, s)))) ?Q"
    unfolding Let_def by (cases "pg = 0") (simp_all del: wp_rbind)
qed

lemma fork_rest:
  assumes "svc_ok sv" "pinv {} s" "view s (SL UNUSED) = np # ys" "cur \<noteq> np" "k \<noteq> 0"
    "settled {} (shift (SL UNUSED) (SL EMBRYO) np (view s))
       ((core s)(np := newborn (ticks s) (nextpid s) k (core s np))) c (s\<lparr>nextpid := nextpid s + 1\<rparr>) t"
  shows "wp (rbind (fork_detach c np t) (fork_image sv c cur np)) (\<lambda>(r, t). r = -1 \<and> unborn c s t \<or> forked c cur s r t)"
proof -
  note t = settledD [OF assms(6)]
  note np = head_slot [OF assms(2,3)]
  have e: "p_state (procs t np) = EMBRYO"
    using settled_slot(1) [OF assms(6), of np] by (simp add: newborn_def fresh_proc_def embryo_def)
  have "np \<notin> set (view s (SL EMBRYO))" using pinvD(3) [OF assms(2), of np "SL EMBRYO"] np(3) by (auto simp: home_eq_SL)
  then have v: "(view t)(SL EMBRYO := remove1 np (view t (SL EMBRYO))) = (view s)(SL UNUSED := ys)"
    by (auto simp: t(2) shift_def assms(3) remove1_append fun_eq_iff)
  show ?thesis
  proof (rule wp_bindI [OF fork_detach_spec [OF t(5,1) np(1) e]])
    fix u
    assume "settled {np} ((view t)(SL EMBRYO := remove1 np (view t (SL EMBRYO)))) (core t) c t u"
    from settled_trans [OF assms(6) this] show "wp (fork_image sv c cur np u) (\<lambda>(r, t). r = -1 \<and> unborn c s t \<or> forked c cur s r t)"
      unfolding v t(3) by (rule fork_image_spec [OF assms(1-5)])
  qed
qed

section \<open>Calm critical sections\<close>

lemma calm_trans: "calm s t \<Longrightarrow> calm t u \<Longrightarrow> calm s u"
  by (auto simp: calm_def)

text \<open>A critical section on any lock whose body keeps the table and the machine is calm.\<close>

lemma calm_iff: "calm s t \<longleftrightarrow> mach_eq s t \<and> procs t = procs s \<and> plist t = plist s \<and> ready t = ready s \<and>
    initproc t = initproc s \<and> nextpid t = nextpid s"
  by (auto simp: calm_def mach_eq_def)

lemma calm_section:
  assumes "machine_ok s" "c < ncpu s" "unlocked lk s" "calm (acquired c lk s) t"
  shows "release c lk t = Ok (released c lk t)" "calm s (released c lk t)"
proof -
  have "mach_eq (acquired c lk s) t" using assms(4) by (simp add: calm_iff)
  note m = mach_section [OF assms(1-3) this]
  show "release c lk t = Ok (released c lk t)" by (rule m(1))
  show "calm s (released c lk t)"
    using m(2) assms(4) by (simp add: calm_iff) (simp add: released_def acquired_def popped_def pushed_def set_lock_def touched_def)
qed


text \<open>Services that do nothing but hand out fixed pages: an instance of the contract.\<close>

definition still_services :: "'a kstate_scheme services" where
  "still_services = \<lparr>sv_kalloc = (\<lambda>s. Ok (0x80030000, s)), sv_kfree = (\<lambda>_ s. Ok s), sv_setupkvm = (\<lambda>s. Ok (0x80040000, s)),
     sv_inituvm = (\<lambda>_ s. Ok s), sv_copyuvm = (\<lambda>_ _ s. Ok (0x80050000, s)), sv_freevm = (\<lambda>_ s. Ok s),
     sv_allocuvm = (\<lambda>_ _ n s. Ok (n, s)), sv_deallocuvm = (\<lambda>_ _ n s. Ok (n, s)), sv_filedup = (\<lambda>f s. Ok (f, s)),
     sv_fileclose = (\<lambda>_ s. Ok s), sv_idup = (\<lambda>d s. Ok (d, s)), sv_iput = (\<lambda>_ s. Ok s), sv_begin_op = (\<lambda>s. Ok s),
     sv_end_op = (\<lambda>s. Ok s), sv_namei = (\<lambda>_ s. Ok (None, s))\<rparr>"

lemma still_services_ok: "svc_ok still_services"
  by (simp add: svc_ok_def still_services_def calm_def)


end
