(* ===== verification/Proc_Exit.thy ===== *)
theory Proc_Exit
  imports Proc_Life
begin

text \<open>
  The end of a process under \<open>CS333_P4\<close>: \<open>exit\<close> and \<open>wait\<close> of \<open>proc.c\<close>. \<open>exit\<close> is split at its last
  critical section, since closing files may sleep; \<open>wait\<close> is one round of its loop, which either
  returns or goes to sleep on the caller's own slot until a child wakes it for the next round.
\<close>

section \<open>exit\<close>

fun exit_close :: "'a kstate_scheme services \<Rightarrow> nat list \<Rightarrow> nat \<Rightarrow> 'a kstate_scheme \<Rightarrow> 'a kstate_scheme res" where
  "exit_close sv [] p s = Ok s"
| "exit_close sv (fd # fds) p s =
     (case p_ofile (procs s p) fd of
        None \<Rightarrow> exit_close sv fds p s
      | Some f \<Rightarrow> rbind (sv_fileclose sv f s) (\<lambda>s.
          exit_close sv fds p (upd_proc p (p_ofile_update (\<lambda>fs. fs(fd := None))) s)))"

definition exit_files :: "'a kstate_scheme services \<Rightarrow> nat \<Rightarrow> 'a kstate_scheme \<Rightarrow> 'a kstate_scheme res" where
  "exit_files sv p s =
     (if Some p = initproc s then Panic ''init exiting''
      else
        rbind (exit_close sv [0..<NOFILE] p s) (\<lambda>s.
        rbind (sv_begin_op sv s) (\<lambda>s.
        rbind (sv_iput sv (p_cwd (procs s p)) s) (\<lambda>s.
        rbind (sv_end_op sv s) (\<lambda>s.
        Ok (upd_proc p (p_cwd_update (\<lambda>_. None)) s))))))"

text \<open>\<open>wakeup1(q)\<close> for a process pointer \<open>q\<close>.\<close>

definition chan_of :: "ptr \<Rightarrow> chan option" where
  "chan_of q = map_option Ch_proc q"

fun exit_reparent :: "nat \<Rightarrow> ptr \<Rightarrow> nat \<Rightarrow> 'a kstate_scheme \<Rightarrow> 'a kstate_scheme res" where
  "exit_reparent 0 pp cur s = Hang"
| "exit_reparent (Suc k) pp cur s =
     (case pp of
        None \<Rightarrow> Ok s
      | Some p \<Rightarrow>
          rbind (if p_parent (procs s p) = Some cur then
                   let s = upd_proc p (p_parent_update (\<lambda>_. initproc s)) s
                   in if p_state (procs s p) = ZOMBIE then wakeup1_P4 (chan_of (initproc s)) s else Ok s
                 else Ok s) (\<lambda>s.
          exit_reparent k (p_next (procs s p)) cur s))"

fun exit_reparent_ready :: "nat \<Rightarrow> ptr \<Rightarrow> nat \<Rightarrow> 'a kstate_scheme \<Rightarrow> 'a kstate_scheme res" where
  "exit_reparent_ready 0 pp cur s = Hang"
| "exit_reparent_ready (Suc k) pp cur s =
     (case pp of
        None \<Rightarrow> Ok s
      | Some p \<Rightarrow>
          let s = (if p_parent (procs s p) = Some cur
                   then upd_proc p (p_parent_update (\<lambda>_. initproc s)) s else s)
          in exit_reparent_ready k (p_next (procs s p)) cur s)"

fun reparent_lists :: "listref list \<Rightarrow> nat \<Rightarrow> 'a kstate_scheme \<Rightarrow> 'a kstate_scheme res" where
  "reparent_lists [] cur s = Ok s"
| "reparent_lists (l # ls) cur s =
     rbind (exit_reparent (Suc NPROC) (q_head (get_ptrs l s)) cur s) (reparent_lists ls cur)"

fun reparent_ready_lists :: "listref list \<Rightarrow> nat \<Rightarrow> 'a kstate_scheme \<Rightarrow> 'a kstate_scheme res" where
  "reparent_ready_lists [] cur s = Ok s"
| "reparent_ready_lists (l # ls) cur s =
     rbind (exit_reparent_ready (Suc NPROC) (q_head (get_ptrs l s)) cur s) (reparent_ready_lists ls cur)"

text \<open>From \<open>acquire(&ptable.lock)\<close> on; the switch never comes back here (\<open>K_exit\<close>).\<close>

definition exit_switch :: "nat \<Rightarrow> nat \<Rightarrow> 'a kstate_scheme \<Rightarrow> 'a kstate_scheme res" where
  "exit_switch c p s =
     rbind (acquire c Lk_ptable s) (\<lambda>s.
     rbind (wakeup1_P4 (chan_of (p_parent (procs s p))) s) (\<lambda>s.
     rbind (reparent_lists [SL EMBRYO, SL SLEEPING, SL RUNNING, SL ZOMBIE] p s) (\<lambda>s.
     rbind (reparent_ready_lists ready_lists p s) (\<lambda>s.
     rbind (remove_or_panic (SL RUNNING) p RUNNING ''Process Not Found In Running List!'' s) (\<lambda>s.
     let s = charge_budget p s;
         s = upd_proc p (p_state_update (\<lambda>_. ZOMBIE)) s
     in rbind (stateListAdd (SL ZOMBIE) p s) (\<lambda>s.
        sched c K_exit (upd_proc p (p_sz_update (\<lambda>_. 0)) s)))))))"

definition exit_P4 :: "'a kstate_scheme services \<Rightarrow> nat \<Rightarrow> 'a kstate_scheme \<Rightarrow> 'a kstate_scheme res" where
  "exit_P4 sv c s =
     rbind (myproc c s) (\<lambda>(mp, s).
     case mp of
       None \<Rightarrow> if initproc s = None then Panic ''init exiting'' else Undef
     | Some p \<Rightarrow> rbind (exit_files sv p s) (exit_switch c p))"

section \<open>wait\<close>

text \<open>One list: whether a child was seen, and the first zombie child, at which the walk stops.\<close>

fun wait_walk :: "nat \<Rightarrow> ptr \<Rightarrow> ptr \<Rightarrow> bool \<Rightarrow> 'a kstate_scheme \<Rightarrow> (bool \<times> nat option) res" where
  "wait_walk 0 pp cur havekids s = Hang"
| "wait_walk (Suc k) pp cur havekids s =
     (case pp of
        None \<Rightarrow> Ok (havekids, None)
      | Some p \<Rightarrow>
          if p_parent (procs s p) = cur then
            if p_state (procs s p) = ZOMBIE then Ok (True, Some p)
            else wait_walk k (p_next (procs s p)) cur True s
          else wait_walk k (p_next (procs s p)) cur havekids s)"

fun wait_lists :: "listref list \<Rightarrow> ptr \<Rightarrow> bool \<Rightarrow> 'a kstate_scheme \<Rightarrow> (bool \<times> nat option) res" where
  "wait_lists [] cur havekids s = Ok (havekids, None)"
| "wait_lists (l # ls) cur havekids s =
     rbind (wait_walk (Suc NPROC) (q_head (get_ptrs l s)) cur havekids s) (\<lambda>(havekids, z).
     case z of Some p \<Rightarrow> Ok (True, Some p) | None \<Rightarrow> wait_lists ls cur havekids s)"

fun wait_walk_ready :: "nat \<Rightarrow> ptr \<Rightarrow> ptr \<Rightarrow> bool \<Rightarrow> 'a kstate_scheme \<Rightarrow> bool res" where
  "wait_walk_ready 0 pp cur havekids s = Hang"
| "wait_walk_ready (Suc k) pp cur havekids s =
     (case pp of
        None \<Rightarrow> Ok havekids
      | Some p \<Rightarrow> wait_walk_ready k (p_next (procs s p)) cur (havekids \<or> p_parent (procs s p) = cur) s)"

fun wait_ready_lists :: "listref list \<Rightarrow> ptr \<Rightarrow> bool \<Rightarrow> 'a kstate_scheme \<Rightarrow> bool res" where
  "wait_ready_lists [] cur havekids s = Ok havekids"
| "wait_ready_lists (l # ls) cur havekids s =
     rbind (wait_walk_ready (Suc NPROC) (q_head (get_ptrs l s)) cur havekids s) (\<lambda>havekids.
     wait_ready_lists ls cur havekids s)"

definition reap :: "'a kstate_scheme services \<Rightarrow> nat \<Rightarrow> nat \<Rightarrow> 'a kstate_scheme \<Rightarrow> (int \<times> 'a kstate_scheme) res" where
  "reap sv c p s =
     (let pid = p_pid (procs s p)
      in rbind (sv_kfree sv (p_kstack (procs s p)) s) (\<lambda>s.
         let s = upd_proc p (p_kstack_update (\<lambda>_. 0)) s
         in rbind (sv_freevm sv (p_pgdir (procs s p)) s) (\<lambda>s.
            let s = upd_proc p (\<lambda>k. k\<lparr>p_pid := 0, p_parent := None, p_name := [], p_killed := False\<rparr>) s
            in rbind (remove_or_panic (SL ZOMBIE) p ZOMBIE ''Process Not Found In ZOMBIE List!'' s) (\<lambda>s.
               rbind (stateListAdd (SL UNUSED) p (upd_proc p (p_state_update (\<lambda>_. UNUSED)) s)) (\<lambda>s.
               rbind (release c Lk_ptable s) (\<lambda>s. Ok (sint pid, s)))))))"

text \<open>A round of \<open>for(;;)\<close>: \<open>Inl\<close> a returned value, or \<open>Inr ()\<close> asleep until the next round.\<close>

definition wait_round ::
  "'a kstate_scheme services \<Rightarrow> nat \<Rightarrow> ptr \<Rightarrow> 'a kstate_scheme \<Rightarrow> ((int + unit) \<times> 'a kstate_scheme) res" where
  "wait_round sv c cur s =
     rbind (wait_lists [SL EMBRYO, SL SLEEPING, SL RUNNING, SL ZOMBIE] cur False s) (\<lambda>(havekids, z).
     case z of
       Some p \<Rightarrow> rbind (reap sv c p s) (\<lambda>(r, s). Ok (Inl r, s))
     | None \<Rightarrow>
         rbind (wait_ready_lists ready_lists cur havekids s) (\<lambda>havekids.
         if \<not> havekids then rbind (release c Lk_ptable s) (\<lambda>s. Ok (Inl (-1), s))
         else case cur of
           None \<Rightarrow> Undef
         | Some me \<Rightarrow>
             if p_killed (procs s me) then rbind (release c Lk_ptable s) (\<lambda>s. Ok (Inl (-1), s))
             else rbind (sleep_P4 c (chan_of cur) (Some Lk_ptable) s) (\<lambda>s. Ok (Inr (), s))))"

definition wait_P4 ::
  "'a kstate_scheme services \<Rightarrow> nat \<Rightarrow> 'a kstate_scheme \<Rightarrow> ((int + unit) \<times> 'a kstate_scheme) res" where
  "wait_P4 sv c s =
     rbind (myproc c s) (\<lambda>(cur, s).
     rbind (acquire c Lk_ptable s) (wait_round sv c cur))"

section \<open>Handing children over\<close>

text \<open>What \<open>exit\<close> may do to other slots: give a child of \<open>cur\<close> to \<open>ini\<close>, wake a sleeper on one of the channels \<open>C\<close>.\<close>

definition slot_rel :: "nat \<Rightarrow> ptr \<Rightarrow> chan option set \<Rightarrow> proc \<Rightarrow> proc \<Rightarrow> bool" where
  "slot_rel cur ini C k k' \<longleftrightarrow> k' = k\<lparr>p_state := p_state k', p_parent := p_parent k'\<rparr> \<and>
     (p_parent k' = p_parent k \<or> p_parent k = Some cur \<and> p_parent k' = ini) \<and>
     (p_state k' = p_state k \<or> p_state k = SLEEPING \<and> p_chan k \<in> C \<and> p_state k' = RUNNABLE)"

definition passing :: "nat \<Rightarrow> ptr \<Rightarrow> chan option set \<Rightarrow> 'a kstate_scheme \<Rightarrow> 'a kstate_scheme \<Rightarrow> bool" where
  "passing cur ini C s t \<longleftrightarrow> pinv {} t \<and> same_rest s t \<and> (\<forall>q. slot_rel cur ini C (core s q) (core t q))"

lemma slot_rel_refl [simp]: "slot_rel cur ini C k k"
  by (simp add: slot_rel_def)

lemma slot_rel_trans:
  assumes "slot_rel cur ini C k k'" "slot_rel cur ini C k' k''"
  shows "slot_rel cur ini C k k''"
proof -
  have a: "k' = k\<lparr>p_state := p_state k', p_parent := p_parent k'\<rparr>" "k'' = k'\<lparr>p_state := p_state k'', p_parent := p_parent k''\<rparr>"
    using assms by (simp_all add: slot_rel_def)
  have "k'' = (k\<lparr>p_state := p_state k', p_parent := p_parent k'\<rparr>)\<lparr>p_state := p_state k'', p_parent := p_parent k''\<rparr>"
    using a by metis
  then have "k'' = k\<lparr>p_state := p_state k'', p_parent := p_parent k''\<rparr>" by simp
  moreover have "p_chan k' = p_chan (k\<lparr>p_state := p_state k', p_parent := p_parent k'\<rparr>)" using a(1) by metis
  then have "p_chan k' = p_chan k" by simp
  ultimately show ?thesis using assms unfolding slot_rel_def by auto
qed

lemma passing_refl: "pinv {} s \<Longrightarrow> passing cur ini C s s"
  by (simp add: passing_def)

lemma passing_trans: "passing cur ini C s t \<Longrightarrow> passing cur ini C t u \<Longrightarrow> passing cur ini C s u"
  by (auto simp: passing_def intro: same_rest_trans slot_rel_trans)

lemma passingD:
  assumes "passing cur ini C s t"
  shows "pinv {} t" "same_rest s t"
    "p_state (procs t q) = p_state (procs s q) \<or> p_state (procs s q) = SLEEPING \<and> p_state (procs t q) = RUNNABLE"
    "p_parent (procs t q) = p_parent (procs s q) \<or> p_parent (procs s q) = Some cur \<and> p_parent (procs t q) = ini"
  using assms unfolding passing_def slot_rel_def core_sel by blast+

lemma passing_wakeup:
  assumes "wakeup_effect ch {} s t" "pinv {} s" "ch \<in> C"
  shows "passing cur ini C s t" "st \<noteq> SLEEPING \<Longrightarrow> view t (SL st) = view s (SL st)"
proof -
  have "passing cur ini C s t \<and> (st \<noteq> SLEEPING \<longrightarrow> view t (SL st) = view s (SL st))"
  proof (cases "find (\<lambda>p. p_chan (procs s p) = ch) (view s (SL SLEEPING))")
    case None
    then show ?thesis using assms(1,2) by (simp add: wakeup_effect_def passing_refl)
  next
    case (Some p)
    then have e: "effect {} (shift (SL SLEEPING) (RL (nat (p_priority (procs s p)))) p (view s)) ((core s)(p := woken (core s p))) s t"
      using assms(1) by (simp add: wakeup_effect_def)
    have "p \<in> set (view s (SL SLEEPING))" "p_chan (procs s p) = ch" using Some by (auto simp: find_Some_iff)
    then have "p_state (procs s p) = SLEEPING" using pinvD(3) [OF assms(2), of p "SL SLEEPING"] by (auto simp: home_eq_SL)
    then have "slot_rel cur ini C (core s q) (core t q)" for q
      using effectD(3) [OF e] \<open>p_chan (procs s p) = ch\<close> assms(3) by (simp add: slot_rel_def woken_def)
    then show ?thesis using effectD [OF e] by (auto simp: passing_def shift_def)
  qed
  then show "passing cur ini C s t" "st \<noteq> SLEEPING \<Longrightarrow> view t (SL st) = view s (SL st)" by auto
qed

lemma passing_parent:
  assumes "pinv {} s" "p_parent (procs s p) = Some cur"
  shows "passing cur ini C s (upd_proc p (p_parent_update (\<lambda>_. ini)) s)"
proof -
  have "pinv {} (upd_proc p (p_parent_update (\<lambda>_. ini)) s)" using assms(1) by (intro pinv_upd_field) auto
  moreover have "slot_rel cur ini C (core s q) (core (upd_proc p (p_parent_update (\<lambda>_. ini)) s) q)" for q
    using assms(2) by (simp add: link_free_core slot_rel_def)
  ultimately show ?thesis by (simp add: passing_def)
qed

text \<open>One node of a state list: it is handed over if it is a child, and the list stays as it is.\<close>

lemma reparent_node:
  assumes "pinv {} s" "p \<in> set (view s (SL st))" "initproc s \<noteq> Some cur"
  shows "wp (if p_parent (procs s p) = Some cur then
        let s = upd_proc p (p_parent_update (\<lambda>_. initproc s)) s
        in if p_state (procs s p) = ZOMBIE then wakeup1_P4 (chan_of (initproc s)) s else Ok s
      else Ok s)
    (\<lambda>t. passing cur (initproc s) {chan_of (initproc s)} s t \<and> view t (SL st) = view s (SL st) \<and> p_parent (procs t p) \<noteq> Some cur)"
proof (cases "p_parent (procs s p) = Some cur")
  case False
  then show ?thesis using assms(1) by (simp add: passing_refl)
next
  case True
  let ?ini = "initproc s"
  let ?s = "upd_proc p (p_parent_update (\<lambda>_. ?ini)) s"
  have st: "p_state (procs s p) = st" using pinvD(3) [OF assms(1,2)] by (simp add: home_eq_SL)
  note ps = passing_parent [OF assms(1) True, of ?ini "{chan_of ?ini}"]
  have i: "initproc ?s = ?ini" by (simp add: upd_proc_def)
  have w: "wp (wakeup1_P4 (chan_of ?ini) ?s) (\<lambda>t. passing cur ?ini {chan_of ?ini} s t \<and> view t (SL st) = view s (SL st) \<and>
      p_parent (procs t p) \<noteq> Some cur)" if "st = ZOMBIE"
  proof (rule wp_mono [OF wakeup1_P4_spec [OF passingD(1) [OF ps]]])
    fix t
    assume we: "wakeup_effect (chan_of ?ini) {} ?s t"
    have wk: "passing cur ?ini {chan_of ?ini} ?s t" "view t (SL st) = view ?s (SL st)"
      using passing_wakeup [OF we passingD(1) [OF ps], of "{chan_of ?ini}"] that by simp_all
    have "p_parent (procs t p) \<noteq> Some cur" using passingD(4) [OF wk(1), of p] assms(3) by auto
    then show "passing cur ?ini {chan_of ?ini} s t \<and> view t (SL st) = view s (SL st) \<and> p_parent (procs t p) \<noteq> Some cur"
      using passing_trans [OF ps wk(1)] wk(2) by simp
  qed
  show ?thesis
  proof (cases "st = ZOMBIE")
    case True
    with w show ?thesis using \<open>p_parent (procs s p) = Some cur\<close> st by (simp add: Let_def i)
  next
    case False
    then show ?thesis using \<open>p_parent (procs s p) = Some cur\<close> st ps assms(3) by (simp add: Let_def i)
  qed
qed

lemma exit_reparent_spec:
  assumes "pinv {} s" "view s (SL st) = us @ xs" "linked (nx s) pp xs" "length xs < k" "initproc s = ini" "ini \<noteq> Some cur"
  shows "wp (exit_reparent k pp cur s) (\<lambda>t. passing cur ini {chan_of ini} s t \<and> (\<forall>q\<in>set xs. p_parent (procs t q) \<noteq> Some cur))"
  using assms(1-5)
proof (induction k arbitrary: s pp us xs)
  case (Suc k)
  show ?case
  proof (cases xs)
    case Nil
    with Suc.prems show ?thesis by (simp add: passing_refl)
  next
    case (Cons p ys)
    with Suc.prems have pp: "pp = Some p" and m: "p \<in> set (view s (SL st))" by auto
    have "wp (rbind (if p_parent (procs s p) = Some cur then
          let s = upd_proc p (p_parent_update (\<lambda>_. initproc s)) s
          in if p_state (procs s p) = ZOMBIE then wakeup1_P4 (chan_of (initproc s)) s else Ok s
        else Ok s) (\<lambda>s. exit_reparent k (p_next (procs s p)) cur s))
      (\<lambda>t. passing cur ini {chan_of ini} s t \<and> (\<forall>q\<in>set xs. p_parent (procs t q) \<noteq> Some cur))"
    proof (rule wp_bindI [OF reparent_node [OF Suc.prems(1) m]], use Suc.prems assms(6) in simp, elim conjE)
      fix t
      assume t: "passing cur (initproc s) {chan_of (initproc s)} s t" "view t (SL st) = view s (SL st)" "p_parent (procs t p) \<noteq> Some cur"
      have pt: "passing cur ini {chan_of ini} s t" using t(1) Suc.prems(5) by simp
      have vt: "view t (SL st) = (us @ [p]) @ ys" using t(2) Suc.prems(2) Cons by simp
      have lk: "linked (nx t) (p_next (procs t p)) ys"
        using view_linked(1) [OF pinvD(1) [OF passingD(1) [OF pt]], of "SL st"] linked_suffix [of "nx t" _ us p ys] vt
        by (simp add: nx_def)
      have "initproc t = ini" using same_rest_sel(8) [OF passingD(2) [OF pt]] Suc.prems(5) by simp
      from Suc.IH [OF passingD(1) [OF pt] vt lk _ this]
      have "wp (exit_reparent k (p_next (procs t p)) cur t) (\<lambda>u. passing cur ini {chan_of ini} t u \<and> (\<forall>q\<in>set ys. p_parent (procs u q) \<noteq> Some cur))"
        using Suc.prems(4) Cons by simp
      then show "wp (exit_reparent k (p_next (procs t p)) cur t) (\<lambda>t. passing cur ini {chan_of ini} s t \<and> (\<forall>q\<in>set xs. p_parent (procs t q) \<noteq> Some cur))"
      proof (rule wp_mono, elim conjE)
        fix u
        assume u: "passing cur ini {chan_of ini} t u" "\<forall>q\<in>set ys. p_parent (procs u q) \<noteq> Some cur"
        have "p_parent (procs u p) \<noteq> Some cur" using passingD(4) [OF u(1), of p] t(3) assms(6) by auto
        then show "passing cur ini {chan_of ini} s u \<and> (\<forall>q\<in>set xs. p_parent (procs u q) \<noteq> Some cur)"
          using passing_trans [OF pt u(1)] u(2) Cons by simp
      qed
    qed
    then show ?thesis by (simp only: exit_reparent.simps pp option.case)
  qed
qed simp

lemma reparent_lists_spec:
  assumes "pinv {} s" "initproc s = ini" "ini \<noteq> Some cur"
  shows "wp (reparent_lists (map SL sts) cur s) (\<lambda>t. passing cur ini {chan_of ini} s t \<and>
    (\<forall>q<NPROC. p_state (procs t q) \<in> set sts - {RUNNABLE} \<longrightarrow> p_parent (procs t q) \<noteq> Some cur))"
  using assms(1,2)
proof (induction sts arbitrary: s)
  case Nil
  then show ?case by (simp add: passing_refl)
next
  case (Cons st sts)
  have "wp (rbind (exit_reparent (Suc NPROC) (q_head (get_ptrs (SL st) s)) cur s) (reparent_lists (map SL sts) cur))
    (\<lambda>t. passing cur ini {chan_of ini} s t \<and>
      (\<forall>q<NPROC. p_state (procs t q) \<in> set (st # sts) - {RUNNABLE} \<longrightarrow> p_parent (procs t q) \<noteq> Some cur))"
  proof (rule wp_bindI [OF exit_reparent_spec [where us = "[]", OF Cons.prems(1) _ view_linked [OF pinvD(1) [OF Cons.prems(1)]] Cons.prems(2) assms(3)]],
      simp, elim conjE)
    fix t
    assume t: "passing cur ini {chan_of ini} s t" "\<forall>q\<in>set (view s (SL st)). p_parent (procs t q) \<noteq> Some cur"
    have "initproc t = ini" using same_rest_sel(8) [OF passingD(2) [OF t(1)]] Cons.prems(2) by simp
    from Cons.IH [OF passingD(1) [OF t(1)] this]
    show "wp (reparent_lists (map SL sts) cur t) (\<lambda>t. passing cur ini {chan_of ini} s t \<and>
      (\<forall>q<NPROC. p_state (procs t q) \<in> set (st # sts) - {RUNNABLE} \<longrightarrow> p_parent (procs t q) \<noteq> Some cur))"
    proof (rule wp_mono, elim conjE, intro conjI allI impI)
      fix u q
      assume u: "passing cur ini {chan_of ini} t u"
        "\<forall>q<NPROC. p_state (procs u q) \<in> set sts - {RUNNABLE} \<longrightarrow> p_parent (procs u q) \<noteq> Some cur"
      show "passing cur ini {chan_of ini} s u" using passing_trans [OF t(1) u(1)] .
      assume q: "q < NPROC" "p_state (procs u q) \<in> set (st # sts) - {RUNNABLE}"
      show "p_parent (procs u q) \<noteq> Some cur"
      proof (cases "p_state (procs u q) = st")
        case True
        then have "p_state (procs s q) = st" using passingD(3) [OF u(1), of q] passingD(3) [OF t(1), of q] q(2) by auto
        then have "q \<in> set (view s (SL st))"
          using pinvD(5) [OF Cons.prems(1) q(1)] q(2) True by (simp add: home_simps)
        then show ?thesis using t(2) passingD(4) [OF u(1), of q] assms(3) by auto
      next
        case False
        then show ?thesis using u(2) q by auto
      qed
    qed
  qed
  then show ?case by (simp only: list.map reparent_lists.simps)
qed

lemma exit_reparent_ready_spec:
  assumes "pinv {} s" "linked (nx s) pp xs" "length xs < k" "initproc s = ini" "ini \<noteq> Some cur"
  shows "wp (exit_reparent_ready k pp cur s) (\<lambda>t. passing cur ini C s t \<and> nx t = nx s \<and> (\<forall>q. p_state (procs t q) = p_state (procs s q)) \<and>
    (\<forall>q\<in>set xs. p_parent (procs t q) \<noteq> Some cur))"
  using assms(1-4)
proof (induction k arbitrary: s pp xs)
  case (Suc k)
  show ?case
  proof (cases xs)
    case Nil
    with Suc.prems show ?thesis by (simp add: passing_refl)
  next
    case (Cons p ys)
    with Suc.prems have pp: "pp = Some p" and ys: "linked (nx s) (nx s p) ys" "length ys < k" by auto
    define t where "t = (if p_parent (procs s p) = Some cur then upd_proc p (p_parent_update (\<lambda>_. initproc s)) s else s)"
    have t: "passing cur ini C s t" "nx t = nx s" "p_parent (procs t p) \<noteq> Some cur" "\<forall>q. p_state (procs t q) = p_state (procs s q)"
      using passing_parent [OF Suc.prems(1), of p cur ini C] passing_refl [OF Suc.prems(1), of cur ini C] Suc.prems(4) assms(5)
        nx_upd_other [of "p_parent_update (\<lambda>_. ini)" p s]
      by (auto simp: t_def)
    have nt: "p_next (procs t p) = nx s p" using fun_cong [OF t(2), of p] by (simp add: nx_def)
    have "initproc t = ini" using same_rest_sel(8) [OF passingD(2) [OF t(1)]] Suc.prems(4) by simp
    from Suc.IH [OF passingD(1) [OF t(1)] _ ys(2) this, of "nx s p"] ys(1) t(2)
    have "wp (exit_reparent_ready k (nx s p) cur t) (\<lambda>u. passing cur ini C t u \<and> nx u = nx t \<and>
        (\<forall>q. p_state (procs u q) = p_state (procs t q)) \<and> (\<forall>q\<in>set ys. p_parent (procs u q) \<noteq> Some cur))" by simp
    then have "wp (exit_reparent_ready k (nx s p) cur t) (\<lambda>u. passing cur ini C s u \<and> nx u = nx s \<and>
        (\<forall>q. p_state (procs u q) = p_state (procs s q)) \<and> (\<forall>q\<in>set xs. p_parent (procs u q) \<noteq> Some cur))"
    proof (rule wp_mono, elim conjE)
      fix u
      assume u: "passing cur ini C t u" "nx u = nx t" "\<forall>q. p_state (procs u q) = p_state (procs t q)"
        "\<forall>q\<in>set ys. p_parent (procs u q) \<noteq> Some cur"
      have "p_parent (procs u p) \<noteq> Some cur" using passingD(4) [OF u(1), of p] t(3) assms(5) by auto
      then show "passing cur ini C s u \<and> nx u = nx s \<and>
        (\<forall>q. p_state (procs u q) = p_state (procs s q)) \<and> (\<forall>q\<in>set xs. p_parent (procs u q) \<noteq> Some cur)"
        using passing_trans [OF t(1) u(1)] u(2-4) t(2,4) Cons by simp
    qed
    then show ?thesis by (simp add: pp Let_def nt flip: t_def)
  qed
qed simp

lemma reparent_ready_lists_spec:
  assumes "pinv {} s" "initproc s = ini" "ini \<noteq> Some cur"
  shows "wp (reparent_ready_lists ls cur s) (\<lambda>t. passing cur ini C s t \<and> (\<forall>q. p_state (procs t q) = p_state (procs s q)) \<and>
    (\<forall>l\<in>set ls. \<forall>q<NPROC. home t q = l \<longrightarrow> p_parent (procs t q) \<noteq> Some cur))"
  using assms(1,2)
proof (induction ls arbitrary: s)
  case Nil
  then show ?case by (simp add: passing_refl)
next
  case (Cons l ls)
  have "wp (rbind (exit_reparent_ready (Suc NPROC) (q_head (get_ptrs l s)) cur s) (reparent_ready_lists ls cur))
    (\<lambda>t. passing cur ini C s t \<and> (\<forall>q. p_state (procs t q) = p_state (procs s q)) \<and>
      (\<forall>l\<in>set (l # ls). \<forall>q<NPROC. home t q = l \<longrightarrow> p_parent (procs t q) \<noteq> Some cur))"
  proof (rule wp_bindI [OF exit_reparent_ready_spec [where C = C, OF Cons.prems(1) view_linked [OF pinvD(1) [OF Cons.prems(1)]] Cons.prems(2) assms(3)]],
      elim conjE)
    fix t
    assume t: "passing cur ini C s t" "\<forall>q. p_state (procs t q) = p_state (procs s q)" "\<forall>q\<in>set (view s l). p_parent (procs t q) \<noteq> Some cur"
    have "initproc t = ini" using same_rest_sel(8) [OF passingD(2) [OF t(1)]] Cons.prems(2) by simp
    from Cons.IH [OF passingD(1) [OF t(1)] this]
    show "wp (reparent_ready_lists ls cur t) (\<lambda>t. passing cur ini C s t \<and> (\<forall>q. p_state (procs t q) = p_state (procs s q)) \<and>
      (\<forall>l\<in>set (l # ls). \<forall>q<NPROC. home t q = l \<longrightarrow> p_parent (procs t q) \<noteq> Some cur))"
    proof (rule wp_mono, elim conjE, intro conjI ballI allI impI)
      fix u q m
      assume u: "passing cur ini C t u" "\<forall>q. p_state (procs u q) = p_state (procs t q)"
        "\<forall>l\<in>set ls. \<forall>q<NPROC. home u q = l \<longrightarrow> p_parent (procs u q) \<noteq> Some cur"
      show p: "passing cur ini C s u" using passing_trans [OF t(1) u(1)] .
      show "p_state (procs u q) = p_state (procs s q)" using u(2) t(2) by simp
      assume q: "m \<in> set (l # ls)" "q < NPROC" "home u q = m"
      have pr: "p_priority (procs u q) = p_priority (procs s q)"
      proof -
        have "core u q = (core s q)\<lparr>p_state := p_state (core u q), p_parent := p_parent (core u q)\<rparr>"
          using p by (simp add: passing_def slot_rel_def)
        then have "p_priority (core u q) = p_priority ((core s q)\<lparr>p_state := p_state (core u q), p_parent := p_parent (core u q)\<rparr>)"
          by (rule arg_cong)
        then show ?thesis by simp
      qed
      show "p_parent (procs u q) \<noteq> Some cur"
      proof (cases "m = l")
        case True
        then have "home s q = l" using q(3) pr u(2) t(2) by (auto simp: home_def split: if_splits)
        then have "q \<in> set (view s l)" using pinvD(5) [OF Cons.prems(1) q(2)] by auto
        then show ?thesis using t(3) passingD(4) [OF u(1), of q] assms(3) by auto
      next
        case False
        then show ?thesis using u(3) q by auto
      qed
    qed
  qed
  then show ?case by (simp only: reparent_ready_lists.simps)
qed


section \<open>exit\<close>

lemma passing_used:
  assumes "passing cur ini C s t"
  shows "p_state (procs t q) = UNUSED \<longleftrightarrow> p_state (procs s q) = UNUSED"
  using passingD(3) [OF assms, of q] by auto

lemma reparent_all_spec:
  assumes "pinv {} s" "initproc s = ini" "ini \<noteq> Some cur"
  shows "wp (rbind (reparent_lists [SL EMBRYO, SL SLEEPING, SL RUNNING, SL ZOMBIE] cur s) (reparent_ready_lists ready_lists cur))
    (\<lambda>t. passing cur ini {chan_of ini} s t \<and> (\<forall>q<NPROC. p_state (procs t q) \<noteq> UNUSED \<longrightarrow> p_parent (procs t q) \<noteq> Some cur))"
proof -
  let ?sts = "[EMBRYO, SLEEPING, RUNNING, ZOMBIE]"
  let ?Q = "\<lambda>t. passing cur ini {chan_of ini} s t \<and> (\<forall>q<NPROC. p_state (procs t q) \<noteq> UNUSED \<longrightarrow> p_parent (procs t q) \<noteq> Some cur)"
  have "wp (rbind (reparent_lists (map SL ?sts) cur s) (reparent_ready_lists ready_lists cur)) ?Q"
  proof (rule wp_bindI [OF reparent_lists_spec [OF assms]], elim conjE)
    fix t
    assume t: "passing cur ini {chan_of ini} s t"
      "\<forall>q<NPROC. p_state (procs t q) \<in> set ?sts - {RUNNABLE} \<longrightarrow> p_parent (procs t q) \<noteq> Some cur"
    have "initproc t = ini" using same_rest_sel(8) [OF passingD(2) [OF t(1)]] assms(2) by simp
    from reparent_ready_lists_spec [OF passingD(1) [OF t(1)] this assms(3), of ready_lists "{chan_of ini}"]
    show "wp (reparent_ready_lists ready_lists cur t) ?Q"
    proof (rule wp_mono, elim conjE, intro conjI allI impI)
      fix u q
      assume u: "passing cur ini {chan_of ini} t u" "\<forall>q. p_state (procs u q) = p_state (procs t q)"
        "\<forall>l\<in>set ready_lists. \<forall>q<NPROC. home u q = l \<longrightarrow> p_parent (procs u q) \<noteq> Some cur"
      show "passing cur ini {chan_of ini} s u" using passing_trans [OF t(1) u(1)] .
      assume q: "q < NPROC" "p_state (procs u q) \<noteq> UNUSED"
      show "p_parent (procs u q) \<noteq> Some cur"
      proof (cases "p_state (procs u q) = RUNNABLE")
        case True
        then show ?thesis using u(3) home_in_ready [OF passingD(1) [OF u(1)] q(1)] q(1) by auto
      next
        case False
        then have "p_state (procs t q) \<in> set ?sts - {RUNNABLE}" using q(2) u(2) by (cases "p_state (procs t q)") auto
        then show ?thesis using t(2) q(1) passingD(4) [OF u(1), of q] assms(3) by auto
      qed
    qed
  qed
  then show ?thesis by simp
qed

definition exited :: "uint \<Rightarrow> proc \<Rightarrow> proc" where
  "exited tk k = (charged tk k)\<lparr>p_state := ZOMBIE, p_sz := 0\<rparr>"

lemma exit_leave:
  assumes "in_ptable c s" "pinv {} s" "c_proc (cpus s c) = Some p" "p < NPROC" "p_state (procs s p) = RUNNING"
  shows "wp (rbind (remove_or_panic (SL RUNNING) p RUNNING msg s) (\<lambda>s.
     let s = charge_budget p s; s = upd_proc p (p_state_update (\<lambda>_. ZOMBIE)) s
     in rbind (stateListAdd (SL ZOMBIE) p s) (\<lambda>s. sched c K_exit (upd_proc p (p_sz_update (\<lambda>_. 0)) s))))
    (effect {} (shift (SL RUNNING) (SL ZOMBIE) p (view s))
      ((core s)(p := switched_out (ticks s) (K_exit (c_intena (cpus s c))) (exited (ticks s) (core s p)))) s)"
proof (rule wp_move [where X = "{}" and f = "\<lambda>k. (charged (ticks s) k)\<lparr>p_state := ZOMBIE\<rparr>" and b = "SL ZOMBIE"
      and K' = "\<lambda>s. sched c K_exit (upd_proc p (p_sz_update (\<lambda>_. 0)) s)"])
  let ?f = "\<lambda>k. (charged (ticks s) k)\<lparr>p_state := ZOMBIE\<rparr>"
  show "pinv {} s" "p < NPROC" "p \<notin> {}" "home s p = SL RUNNING" "p_state (procs s p) = RUNNING" "place (?f (procs s p)) = SL ZOMBIE"
    using assms by (simp_all add: home_simps place_def)
  show "link_free ?f" by (rule link_free_comp [OF link_free_upds(1) link_free_charged])
  show "prio_ok (?f (procs s p))" using pinvD(6) [OF assms(2,4)] by simp
  show "wp (sched c K_exit (upd_proc p (p_sz_update (\<lambda>_. 0)) t)) (effect {} (shift (SL RUNNING) (SL ZOMBIE) p (view s))
      ((core s)(p := switched_out (ticks s) (K_exit (c_intena (cpus s c))) (exited (ticks s) (core s p)))) s)"
    if "effect {} (shift (SL RUNNING) (SL ZOMBIE) p (view s)) ((core s)(p := ?f (core s p))) s t" for t
  proof (rule wp_sched_off [OF assms(1,3)])
    note t = effectD [OF that]
    have "pinv {} (upd_proc p (p_sz_update (\<lambda>_. 0)) t)" using t(1) by (intro pinv_upd_field) auto
    then show "effect {} (shift (SL RUNNING) (SL ZOMBIE) p (view s)) ((core s)(p := exited (ticks s) (core s p))) s
        (upd_proc p (p_sz_update (\<lambda>_. 0)) t)"
      using t by (simp add: effect_def link_free_core exited_def)
  qed (simp add: exited_def)
qed (simp add: charge_budget_eq upd_proc_upd_proc same_rest_def Let_def)

text \<open>The table after the exit of \<open>p\<close>, compared with the one before.\<close>

lemma exit_switch_spec:
  assumes "at_rest c s" "c_proc (cpus s c) = Some p" "p < NPROC" "pinv {} s" "p_state (procs s p) = RUNNING" "initproc s \<noteq> Some p"
  shows "wp (exit_switch c p s) (\<lambda>t. \<exists>u w. wakeup_effect (chan_of (p_parent (procs s p))) {} (acquired c Lk_ptable s) u \<and>
    passing p (initproc s) {chan_of (initproc s)} u w \<and> (\<forall>q<NPROC. p_state (procs w q) \<noteq> UNUSED \<longrightarrow> p_parent (procs w q) \<noteq> Some p) \<and>
    effect {} (shift (SL RUNNING) (SL ZOMBIE) p (view w))
      ((core w)(p := switched_out (ticks s) (K_exit (eflags_if s c)) (exited (ticks s) (core w p)))) w t)"
proof -
  let ?s = "acquired c Lk_ptable s"
  let ?ini = "initproc s"
  let ?ch = "chan_of (p_parent (procs s p))"
  have i: "in_ptable c ?s" "pinv {} ?s" using assms by (simp_all add: in_ptable_acquired)
  let ?Q = "\<lambda>t. \<exists>u w. wakeup_effect ?ch {} ?s u \<and> passing p ?ini {chan_of ?ini} u w \<and>
    (\<forall>q<NPROC. p_state (procs w q) \<noteq> UNUSED \<longrightarrow> p_parent (procs w q) \<noteq> Some p) \<and>
    effect {} (shift (SL RUNNING) (SL ZOMBIE) p (view w))
      ((core w)(p := switched_out (ticks s) (K_exit (eflags_if s c)) (exited (ticks s) (core w p)))) w t"
  let ?last = "\<lambda>s. rbind (remove_or_panic (SL RUNNING) p RUNNING ''Process Not Found In Running List!'' s) (\<lambda>s.
     let s = charge_budget p s; s = upd_proc p (p_state_update (\<lambda>_. ZOMBIE)) s
     in rbind (stateListAdd (SL ZOMBIE) p s) (\<lambda>s. sched c K_exit (upd_proc p (p_sz_update (\<lambda>_. 0)) s)))"
  have "wp (rbind (wakeup1_P4 ?ch ?s) (\<lambda>s. rbind (rbind (reparent_lists [SL EMBRYO, SL SLEEPING, SL RUNNING, SL ZOMBIE] p s)
      (reparent_ready_lists ready_lists p)) ?last)) ?Q"
  proof (rule wp_bindI [OF wakeup1_P4_spec [OF i(2)]])
    fix u
    assume u: "wakeup_effect ?ch {} ?s u"
    note pu = passing_wakeup(1) [OF u i(2), of "{?ch}" p ?ini, simplified]
    have iu: "initproc u = ?ini" using same_rest_sel(8) [OF passingD(2) [OF pu]] by simp
    show "wp (rbind (rbind (reparent_lists [SL EMBRYO, SL SLEEPING, SL RUNNING, SL ZOMBIE] p u) (reparent_ready_lists ready_lists p)) ?last) ?Q"
    proof (rule wp_bindI [OF reparent_all_spec [OF passingD(1) [OF pu] iu assms(6)]], elim conjE)
      fix w
      assume w: "passing p ?ini {chan_of ?ini} u w" "\<forall>q<NPROC. p_state (procs w q) \<noteq> UNUSED \<longrightarrow> p_parent (procs w q) \<noteq> Some p"
      have sr: "same_rest ?s w" using same_rest_trans [OF passingD(2) [OF pu] passingD(2) [OF w(1)]] .
      note r = same_rest_sel [OF sr]
      have iw: "in_ptable c w" using in_ptable_cong [OF sr] i(1) by simp
      have st: "p_state (procs w p) = RUNNING" using passingD(3) [OF pu, of p] passingD(3) [OF w(1), of p] assms(5) by simp
      have cp: "c_proc (cpus w c) = Some p" "ticks w = ticks s" "c_intena (cpus w c) = eflags_if s c"
        using r acquired_rest [OF assms(1)] assms(2) by simp_all
      show "wp (?last w) ?Q"
        by (rule wp_mono [OF exit_leave [OF iw passingD(1) [OF w(1)] cp(1) assms(3) st]]) (use u w cp in auto)
    qed
  qed
  then show ?thesis
    unfolding exit_switch_def at_rest_acquire [OF assms(1)] rbind_simps acquired_table by (simp only: rbind_assoc)
qed

text \<open>
  Property C7. The last section of \<open>exit\<close>: the process ends as a \<open>ZOMBIE\<close> at the tail of the zombie
  list with the switch to the scheduler pending; none of the slots in use has it as parent any more,
  its former children belong to \<open>init\<close>; and if its parent is waiting for it alone on its own channel,
  the parent has been made \<open>RUNNABLE\<close>.
\<close>

theorem exit_hands_over:
  assumes "at_rest c s" "c_proc (cpus s c) = Some p" "p < NPROC" "pinv {} s" "p_state (procs s p) = RUNNING" "initproc s \<noteq> Some p"
  shows "wp (exit_switch c p s) (\<lambda>t. pinv {} t \<and> in_ptable c t \<and> p_state (procs t p) = ZOMBIE \<and>
    (\<exists>zs. view t (SL ZOMBIE) = zs @ [p]) \<and> (\<exists>ie. p_context (procs t p) = K_exit ie) \<and>
    (\<forall>q<NPROC. p_state (procs t q) \<noteq> UNUSED \<longrightarrow> p_parent (procs t q) \<noteq> Some p) \<and>
    (\<forall>q<NPROC. q \<noteq> p \<longrightarrow> p_state (procs s q) \<noteq> UNUSED \<longrightarrow> p_parent (procs s q) = Some p \<longrightarrow> p_parent (procs t q) = initproc s) \<and>
    (\<forall>r. p_parent (procs s p) = Some r \<longrightarrow> r \<noteq> p \<longrightarrow> r \<in> set (view s (SL SLEEPING)) \<longrightarrow>
       (\<forall>q\<in>set (view s (SL SLEEPING)). p_chan (procs s q) = Some (Ch_proc r) \<longleftrightarrow> q = r) \<longrightarrow> p_state (procs t r) = RUNNABLE))"
proof (rule wp_mono [OF exit_switch_spec [OF assms]], elim exE conjE)
  fix t u w
  let ?s = "acquired c Lk_ptable s"
  let ?ini = "initproc s"
  assume u: "wakeup_effect (chan_of (p_parent (procs s p))) {} ?s u" and w: "passing p ?ini {chan_of ?ini} u w"
    and par: "\<forall>q<NPROC. p_state (procs w q) \<noteq> UNUSED \<longrightarrow> p_parent (procs w q) \<noteq> Some p"
    and e: "effect {} (shift (SL RUNNING) (SL ZOMBIE) p (view w))
      ((core w)(p := switched_out (ticks s) (K_exit (eflags_if s c)) (exited (ticks s) (core w p)))) w t"
  have i: "pinv {} ?s" using assms(4) by simp
  note pu = passing_wakeup(1) [OF u i, of "{chan_of (p_parent (procs s p))}" p ?ini, simplified]
  have "same_rest ?s t" using same_rest_trans [OF same_rest_trans [OF passingD(2) [OF pu] passingD(2) [OF w]] effectD(4) [OF e]] .
  then have it: "in_ptable c t" using in_ptable_cong in_ptable_acquired [OF assms(1)] by blast
  have used: "p_state (procs w q) \<noteq> UNUSED \<longleftrightarrow> p_state (procs s q) \<noteq> UNUSED" for q
    using passing_used [OF pu, of q] passing_used [OF w, of q] by simp
  have ex: "p_parent (exited (ticks s) k) = p_parent k" "p_state (exited (ticks s) k) = ZOMBIE" for k
    by (simp_all add: exited_def charged_def Let_def)
  have pt: "p_parent (procs t q) = p_parent (procs w q)" for q
    using effect_slot(8) [OF e, of q] by (simp add: switched_out_def ex)
  have stt: "p_state (procs t q) = (if q = p then ZOMBIE else p_state (procs w q))" for q
    using effect_slot(1) [OF e, of q] by (simp add: ex)
  have "p_parent (procs t q) \<noteq> Some p" if "q < NPROC" "p_state (procs t q) \<noteq> UNUSED" for q
    using par that used [of p] assms(3,5) by (auto simp: pt stt split: if_splits)
  moreover have "p_parent (procs t q) = ?ini" if "q < NPROC" "p_state (procs s q) \<noteq> UNUSED" "p_parent (procs s q) = Some p" for q
    using par [rule_format, OF that(1)] used [of q] that passingD(4) [OF pu, of q] passingD(4) [OF w, of q] by (auto simp: pt)
  moreover have "p_state (procs t r) = RUNNABLE"
    if r: "p_parent (procs s p) = Some r" "r \<noteq> p" "r \<in> set (view s (SL SLEEPING))"
      "\<forall>q\<in>set (view s (SL SLEEPING)). p_chan (procs s q) = Some (Ch_proc r) \<longleftrightarrow> q = r" for r
  proof -
    have "find (\<lambda>q. p_chan (procs s q) = Some (Ch_proc r)) (view s (SL SLEEPING)) \<noteq> None"
      using r(3,4) by (auto simp: find_None_iff)
    then obtain q where q: "find (\<lambda>q. p_chan (procs s q) = Some (Ch_proc r)) (view s (SL SLEEPING)) = Some q" by auto
    then have "q = r" using r(4) by (auto simp: find_Some_iff)
    with q u r(1) have eu: "effect {} (shift (SL SLEEPING) (RL (nat (p_priority (procs s r)))) r (view s)) ((core s)(r := woken (core s r))) ?s u"
      by (simp add: wakeup_effect_def chan_of_def)
    then have "p_state (procs u r) = RUNNABLE" using effect_slot(1) [OF eu, of r] by (simp add: woken_def)
    then show ?thesis using passingD(3) [OF w, of r] r(2) by (simp add: stt)
  qed
  moreover have "view t (SL ZOMBIE) = view w (SL ZOMBIE) @ [p]" using effectD(2) [OF e] by (simp add: shift_def)
  moreover have "p_context (procs t p) = K_exit (eflags_if s c)" using effect_slot(7) [OF e, of p] by simp
  ultimately show "pinv {} t \<and> in_ptable c t \<and> p_state (procs t p) = ZOMBIE \<and>
    (\<exists>zs. view t (SL ZOMBIE) = zs @ [p]) \<and> (\<exists>ie. p_context (procs t p) = K_exit ie) \<and>
    (\<forall>q<NPROC. p_state (procs t q) \<noteq> UNUSED \<longrightarrow> p_parent (procs t q) \<noteq> Some p) \<and>
    (\<forall>q<NPROC. q \<noteq> p \<longrightarrow> p_state (procs s q) \<noteq> UNUSED \<longrightarrow> p_parent (procs s q) = Some p \<longrightarrow> p_parent (procs t q) = initproc s) \<and>
    (\<forall>r. p_parent (procs s p) = Some r \<longrightarrow> r \<noteq> p \<longrightarrow> r \<in> set (view s (SL SLEEPING)) \<longrightarrow>
       (\<forall>q\<in>set (view s (SL SLEEPING)). p_chan (procs s q) = Some (Ch_proc r) \<longleftrightarrow> q = r) \<longrightarrow> p_state (procs t r) = RUNNABLE)"
    using effectD(1) [OF e] it stt [of p] by auto
qed

theorem exit_hands_over_witness:
  "wp (exit_switch 0 0 sample) (\<lambda>t. pinv {} t \<and> in_ptable 0 t \<and> p_state (procs t 0) = ZOMBIE \<and>
     p_parent (procs t 5) = Some 1 \<and> p_parent (procs t 6) = Some 1 \<and> p_state (procs t 1) = RUNNABLE)"
proof -
  have "\<forall>q\<in>set (view sample (SL SLEEPING)). p_chan (procs sample q) = Some (Ch_proc 1) \<longleftrightarrow> q = 1"
    by (simp add: sample_view sample_lists_def sample_proc_def)
  moreover have "p_state (sample_proc 5) \<noteq> UNUSED \<and> p_parent (sample_proc 5) = Some 0 \<and>
      p_state (sample_proc 6) \<noteq> UNUSED \<and> p_parent (sample_proc 6) = Some 0"
    by (simp add: sample_proc_def)
  ultimately show ?thesis
    by (intro wp_mono [OF exit_hands_over [OF sample_at_rest _ _ sample_pinv]])
      (auto simp: NPROC_def sample_view sample_lists_def)
qed

section \<open>Reaping\<close>

definition reaped :: "proc \<Rightarrow> proc" where
  "reaped k = k\<lparr>p_kstack := 0, p_pid := 0, p_parent := None, p_name := [], p_killed := False, p_state := UNUSED\<rparr>"

definition zombie_child :: "ptr \<Rightarrow> 'a kstate_scheme \<Rightarrow> nat \<Rightarrow> bool" where
  "zombie_child cur s p \<longleftrightarrow> p_parent (procs s p) = cur \<and> p_state (procs s p) = ZOMBIE"

lemma wait_walk_eq:
  assumes "linked (nx s) pp xs" "length xs < k"
  shows "wait_walk k pp cur hk s =
    Ok (case find (zombie_child cur s) xs of
          None \<Rightarrow> (hk \<or> (\<exists>p\<in>set xs. p_parent (procs s p) = cur), None)
        | Some p \<Rightarrow> (True, Some p))"
  using assms
proof (induction k arbitrary: pp xs hk)
  case (Suc k)
  then show ?case
    by (cases xs) (auto simp: nx_def zombie_child_def split: option.split)
qed simp

lemma wait_lists_eq:
  assumes "qinv s"
  shows "wait_lists ls cur hk s =
    Ok (case find (zombie_child cur s) (concat (map (view s) ls)) of
          None \<Rightarrow> (hk \<or> (\<exists>l\<in>set ls. \<exists>p\<in>set (view s l). p_parent (procs s p) = cur), None)
        | Some p \<Rightarrow> (True, Some p))"
proof (induction ls arbitrary: hk)
  case (Cons l ls)
  then show ?case
    using wait_walk_eq [OF view_linked [OF assms, of l]]
    by (auto simp: find_append del: wait_walk.simps split: option.split)
qed simp

lemma wait_walk_ready_eq:
  assumes "linked (nx s) pp xs" "length xs < k"
  shows "wait_walk_ready k pp cur hk s = Ok (hk \<or> (\<exists>p\<in>set xs. p_parent (procs s p) = cur))"
  using assms
proof (induction k arbitrary: pp xs hk)
  case (Suc k)
  then show ?case by (cases xs) (auto simp: nx_def)
qed simp

lemma wait_ready_lists_eq:
  assumes "qinv s"
  shows "wait_ready_lists ls cur hk s = Ok (hk \<or> (\<exists>l\<in>set ls. \<exists>p\<in>set (view s l). p_parent (procs s p) = cur))"
proof (induction ls arbitrary: hk)
  case (Cons l ls)
  then show ?case
    using wait_walk_ready_eq [OF view_linked [OF assms, of l]]
    by (auto simp del: wait_walk_ready.simps)
qed simp

lemma reap_spec:
  assumes "svc_ok sv" "in_ptable c s" "pinv {} s" "p < NPROC" "p_state (procs s p) = ZOMBIE"
  shows "wp (reap sv c p s) (\<lambda>(r, t). r = sint (p_pid (procs s p)) \<and> pinv {} t \<and> at_rest c t \<and>
    view t = shift (SL ZOMBIE) (SL UNUSED) p (view s) \<and> core t = (core s)(p := reaped (core s p)) \<and>
    c_proc (cpus t c) = c_proc (cpus s c))"
  unfolding reap_def Let_def
proof (rule wp_bindI [OF svc_okD(3) [OF assms(1)]], rule wp_bindI [OF svc_okD(4) [OF assms(1)]])
  fix a d :: "'a kstate_scheme"
  let ?b = "upd_proc p (p_kstack_update (\<lambda>_. 0)) a"
  let ?g = "\<lambda>k. k\<lparr>p_pid := 0, p_parent := None, p_name := [], p_killed := False\<rparr>"
  let ?e = "upd_proc p ?g d"
  let ?Q = "\<lambda>(r, t). r = sint (p_pid (procs s p)) \<and> pinv {} t \<and> at_rest c t \<and>
    view t = shift (SL ZOMBIE) (SL UNUSED) p (view s) \<and> core t = (core s)(p := reaped (core s p)) \<and>
    c_proc (cpus t c) = c_proc (cpus s c)"
  assume a: "calm s a" and d: "calm ?b d"
  note ta = calm_table [OF a] calm_machine [OF a]
  note td = calm_table [OF d] calm_machine [OF d]
  have lf: "link_free ?g" by (simp add: link_free_def)
  have b: "pinv {} ?b" using assms(3) ta by (intro pinv_upd_field) auto
  have e: "pinv {} ?e" using b td link_free_next [OF lf] by (intro pinv_upd_field) auto
  have ve: "view ?e = view s" using ta td link_free_next [OF lf] by simp
  have ce: "core ?e = (core s)(p := ?g ((core s p)\<lparr>p_kstack := 0\<rparr>))"
    using ta td lf by (simp add: link_free_core)
  have me: "in_ptable c ?e" "c_proc (cpus ?e c) = c_proc (cpus s c)" "p_state (procs ?e p) = ZOMBIE"
    using ta td assms(2,5) by simp_all
  show "wp (rbind (remove_or_panic (SL ZOMBIE) p ZOMBIE ''Process Not Found In ZOMBIE List!'' ?e) (\<lambda>s'.
      rbind (stateListAdd (SL UNUSED) p (upd_proc p (p_state_update (\<lambda>_. UNUSED)) s')) (\<lambda>s'.
      rbind (release c Lk_ptable s') (\<lambda>s'. Ok (sint (p_pid (procs s p)), s'))))) ?Q"
  proof (rule wp_move [OF e assms(4), where f = "p_state_update (\<lambda>_. UNUSED)" and b = "SL UNUSED"
        and K' = "\<lambda>s'. rbind (release c Lk_ptable s') (\<lambda>s'. Ok (sint (p_pid (procs s p)), s'))"])
    show "home ?e p = SL ZOMBIE" "place ((procs ?e p)\<lparr>p_state := UNUSED\<rparr>) = SL UNUSED"
      using me(3) by (simp_all add: home_simps place_def)
    show "prio_ok ((procs ?e p)\<lparr>p_state := UNUSED\<rparr>)" using pinvD(6) [OF e assms(4)] by simp
    show "wp (rbind (release c Lk_ptable t) (\<lambda>s'. Ok (sint (p_pid (procs s p)), s'))) ?Q"
      if t: "effect {} (shift (SL ZOMBIE) (SL UNUSED) p (view ?e)) ((core ?e)(p := p_state_update (\<lambda>_. UNUSED) (core ?e p))) ?e t" for t
    proof -
      have i: "in_ptable c t" by (rule effect_in_ptable [OF t me(1)])
      have co: "core t = (core s)(p := reaped (core s p))"
        using effectD(3) [OF t] unfolding ce reaped_def by simp
      show ?thesis
        using effectD(1,2) [OF t] released_state [OF i] same_rest_machine(4) [OF effectD(4) [OF t]] me(2) ve co
        by (simp add: in_ptable_release [OF i])
    qed
  qed (use me(3) in simp_all)
qed

definition has_child :: "nat \<Rightarrow> 'a kstate_scheme \<Rightarrow> bool" where
  "has_child me s \<longleftrightarrow> (\<exists>p<NPROC. p_state (procs s p) \<noteq> UNUSED \<and> p_parent (procs s p) = Some me)"

text \<open>What a round of \<open>wait\<close> leaves: a reaped child, a refusal with nothing changed, or the caller asleep.\<close>

definition waited :: "nat \<Rightarrow> nat \<Rightarrow> 'a kstate_scheme \<Rightarrow> int + unit \<Rightarrow> 'a kstate_scheme \<Rightarrow> bool" where
  "waited c me s r t \<longleftrightarrow> pinv {} t \<and>
     (case r of
        Inl v \<Rightarrow> at_rest c t \<and>
          ((\<exists>p<NPROC. zombie_child (Some me) s p \<and> v = sint (p_pid (procs s p)) \<and>
              view t = shift (SL ZOMBIE) (SL UNUSED) p (view s) \<and> core t = (core s)(p := reaped (core s p))) \<or>
           v = -1 \<and> (\<forall>p<NPROC. \<not> zombie_child (Some me) s p) \<and> (has_child me s \<longrightarrow> p_killed (procs s me)) \<and>
              view t = view s \<and> core t = core s)
      | Inr _ \<Rightarrow> in_ptable c t \<and> (\<forall>p<NPROC. \<not> zombie_child (Some me) s p) \<and> has_child me s \<and> \<not> p_killed (procs s me) \<and>
          view t = shift (SL RUNNING) (SL SLEEPING) me (view s) \<and>
          (\<forall>q. q \<noteq> me \<longrightarrow> core t q = core s q) \<and> p_chan (procs t me) = Some (Ch_proc me))"

lemma zombie_find:
  assumes "pinv {} s"
  shows "find (zombie_child cur s) (concat (map (view s) [SL EMBRYO, SL SLEEPING, SL RUNNING, SL ZOMBIE])) = None
    \<longleftrightarrow> (\<forall>p<NPROC. \<not> zombie_child cur s p)"
    "find (zombie_child cur s) (concat (map (view s) [SL EMBRYO, SL SLEEPING, SL RUNNING, SL ZOMBIE])) = Some p
    \<Longrightarrow> p < NPROC \<and> zombie_child cur s p"
proof -
  have "p \<in> set (view s (SL ZOMBIE))" if "p < NPROC" "zombie_child cur s p" for p
    using pinvD(5) [OF assms that(1)] that(2) by (simp add: zombie_child_def home_simps)
  moreover have "p < NPROC" if "p \<in> set (view s l)" for p l using pinvD(4) [OF assms that] .
  ultimately show "find (zombie_child cur s) (concat (map (view s) [SL EMBRYO, SL SLEEPING, SL RUNNING, SL ZOMBIE])) = None
      \<longleftrightarrow> (\<forall>p<NPROC. \<not> zombie_child cur s p)"
    by (auto simp: find_None_iff)
  assume "find (zombie_child cur s) (concat (map (view s) [SL EMBRYO, SL SLEEPING, SL RUNNING, SL ZOMBIE])) = Some p"
  then have "zombie_child cur s p" "p \<in> set (concat (map (view s) [SL EMBRYO, SL SLEEPING, SL RUNNING, SL ZOMBIE]))"
    by (metis (no_types, lifting) find_Some_iff nth_mem)+
  then show "p < NPROC \<and> zombie_child cur s p" using pinvD(4) [OF assms] by auto
qed

lemma wait_kids:
  assumes "pinv {} s"
  shows "(\<exists>l\<in>set kill_lists. \<exists>p\<in>set (view s l). p_parent (procs s p) = Some me) \<longleftrightarrow> has_child me s"
  using kill_lists_used [OF assms] unfolding has_child_def by blast

lemma wait_round_spec:
  assumes "svc_ok sv" "in_ptable c s" "c_proc (cpus s c) = Some me" "me < NPROC" "pinv {} s" "p_state (procs s me) = RUNNING"
  shows "wp (wait_round sv c (Some me) s) (\<lambda>(r, t). waited c me s r t)"
proof (cases "find (zombie_child (Some me) s) (concat (map (view s) [SL EMBRYO, SL SLEEPING, SL RUNNING, SL ZOMBIE]))")
  case (Some p)
  note p = zombie_find(2) [OF assms(5) Some]
  have "wp (reap sv c p s) (\<lambda>(r, t). waited c me s (Inl r) t)"
    by (rule wp_mono [OF reap_spec [OF assms(1,2,5)]]) (use p in \<open>auto simp: waited_def zombie_child_def\<close>)
  then show ?thesis
    using Some by (simp add: wait_round_def wait_lists_eq [OF pinvD(1) [OF assms(5)]] wp_rbind case_prod_beta')
next
  case None
  let ?kids = "has_child me s"
  note z = zombie_find(1) [OF assms(5), THEN iffD1, OF None]
  have k: "((\<exists>l\<in>set [SL EMBRYO, SL SLEEPING, SL RUNNING, SL ZOMBIE]. \<exists>p\<in>set (view s l). p_parent (procs s p) = Some me) \<or>
      (\<exists>l\<in>set ready_lists. \<exists>p\<in>set (view s l). p_parent (procs s p) = Some me)) \<longleftrightarrow> ?kids"
    unfolding wait_kids [OF assms(5), symmetric] kill_lists_def by auto
  have refuse: "wp (rbind (release c Lk_ptable s) (\<lambda>s. Ok (Inl (-1), s))) (\<lambda>(r, t). waited c me s r t)"
    if "?kids \<longrightarrow> p_killed (procs s me)"
    using that z assms(5) released_state(1) [OF assms(2)] by (auto simp: in_ptable_release [OF assms(2)] waited_def)
  have rest: "wp (rbind (sleep_P4 c (chan_of (Some me)) (Some Lk_ptable) s) (\<lambda>s. Ok (Inr (), s))) (\<lambda>(r, t). waited c me s r t)"
    if c: "?kids" "\<not> p_killed (procs s me)"
  proof -
    have cs: "can_sleep c (Some Lk_ptable) s" using assms(2) by (simp add: can_sleep_def)
    have "wp (sleep_P4 c (chan_of (Some me)) (Some Lk_ptable) s) (\<lambda>t. waited c me s (Inr ()) t)"
    proof (rule wp_mono [OF sleep_P4_spec [OF cs assms(3-6)]])
      fix t
      assume t: "effect {} (shift (SL RUNNING) (SL SLEEPING) me (view s)) ((core s)(me := switched_out (ticks s)
        (K_sleep (c_intena (cpus (sleeping_locked c (Some Lk_ptable) s) c)) (Some Lk_ptable))
        (put_to_sleep (ticks s) (chan_of (Some me)) (core s me)))) (sleeping_locked c (Some Lk_ptable) s) t"
      have sl: "sleeping_locked c (Some Lk_ptable) s = s" by (simp add: sleeping_locked_def)
      have "p_chan (core t me) = Some (Ch_proc me)"
        unfolding effectD(3) [OF t] by (simp add: switched_out_def put_to_sleep_def charged_def Let_def chan_of_def)
      then have "p_chan (procs t me) = Some (Ch_proc me)" by simp
      then show "waited c me s (Inr ()) t"
        unfolding waited_def sum.case
        using effectD(1,2) [OF t] effectD(3) [OF t] effect_in_ptable [OF t] assms(2) c z by (simp add: sl)
    qed
    then show ?thesis by (simp add: wp_rbind)
  qed
  show ?thesis
    using refuse rest None k
    by (simp add: wait_round_def wait_lists_eq [OF pinvD(1) [OF assms(5)]] wait_ready_lists_eq [OF pinvD(1) [OF assms(5)]]
        del: bex_simps split del: if_split) (simp split: if_split)
qed



end
