(* ===== verification/Cstring.thy ===== *)
theory Cstring
  imports Prelude
begin

text \<open>
  The kernel's memory and string routines (\<open>string.c\<close>) on a byte memory. Addresses are 32-bit words
  and wrap; a C string is a run of nonzero bytes with a zero byte after it (\<open>str_at\<close>).
\<close>

type_synonym bmem = "uint \<Rightarrow> uchar"

section \<open>The routines\<close>

text \<open>\<open>rep stosb\<close> and \<open>rep stosl\<close> of \<open>x86.h\<close>.\<close>

fun stosb :: "bmem \<Rightarrow> uint \<Rightarrow> uchar \<Rightarrow> nat \<Rightarrow> bmem" where
  "stosb m a b 0 = m"
| "stosb m a b (Suc n) = stosb (m(a := b)) (a + 1) b n"

definition store32 :: "bmem \<Rightarrow> uint \<Rightarrow> uint \<Rightarrow> bmem" where
  "store32 m a w = m(a := ucast w, a + 1 := ucast (drop_bit 8 w), a + 2 := ucast (drop_bit 16 w),
     a + 3 := ucast (drop_bit 24 w))"

fun stosl :: "bmem \<Rightarrow> uint \<Rightarrow> uint \<Rightarrow> nat \<Rightarrow> bmem" where
  "stosl m a w 0 = m"
| "stosl m a w (Suc n) = stosl (store32 m a w) (a + 4) w n"

definition memset :: "bmem \<Rightarrow> uint \<Rightarrow> uint \<Rightarrow> uint \<Rightarrow> bmem" where
  "memset m dst c n =
     (if unat dst mod 4 = 0 \<and> unat n mod 4 = 0 then
        let c = c AND 0xFF
        in stosl m dst (push_bit 24 c OR push_bit 16 c OR push_bit 8 c OR c) (unat n div 4)
      else stosb m dst (ucast c) (unat n))"

fun memcmp_loop :: "bmem \<Rightarrow> uint \<Rightarrow> uint \<Rightarrow> nat \<Rightarrow> int" where
  "memcmp_loop m s1 s2 0 = 0"
| "memcmp_loop m s1 s2 (Suc n) =
     (if m s1 \<noteq> m s2 then uint (m s1) - uint (m s2) else memcmp_loop m (s1 + 1) (s2 + 1) n)"

definition memcmp :: "bmem \<Rightarrow> uint \<Rightarrow> uint \<Rightarrow> uint \<Rightarrow> int" where
  "memcmp m v1 v2 n = memcmp_loop m v1 v2 (unat n)"

fun move_fwd :: "bmem \<Rightarrow> uint \<Rightarrow> uint \<Rightarrow> nat \<Rightarrow> bmem" where
  "move_fwd m d s 0 = m"
| "move_fwd m d s (Suc n) = move_fwd (m(d := m s)) (d + 1) (s + 1) n"

fun move_bwd :: "bmem \<Rightarrow> uint \<Rightarrow> uint \<Rightarrow> nat \<Rightarrow> bmem" where
  "move_bwd m d s 0 = m"
| "move_bwd m d s (Suc n) = move_bwd (m(d - 1 := m (s - 1))) (d - 1) (s - 1) n"

definition memmove :: "bmem \<Rightarrow> uint \<Rightarrow> uint \<Rightarrow> uint \<Rightarrow> bmem" where
  "memmove m dst src n =
     (if src < dst \<and> dst < src + n then move_bwd m (dst + n) (src + n) (unat n)
      else move_fwd m dst src (unat n))"

definition memcpy :: "bmem \<Rightarrow> uint \<Rightarrow> uint \<Rightarrow> uint \<Rightarrow> bmem" where
  "memcpy m dst src n = memmove m dst src n"

fun strncmp_loop :: "bmem \<Rightarrow> uint \<Rightarrow> uint \<Rightarrow> nat \<Rightarrow> int" where
  "strncmp_loop m p q 0 = 0"
| "strncmp_loop m p q (Suc n) =
     (if m p \<noteq> 0 \<and> m p = m q then strncmp_loop m (p + 1) (q + 1) n else uint (m p) - uint (m q))"

definition strncmp :: "bmem \<Rightarrow> uint \<Rightarrow> uint \<Rightarrow> uint \<Rightarrow> int" where
  "strncmp m p q n = strncmp_loop m p q (unat n)"

fun strncpy_pad :: "bmem \<Rightarrow> uint \<Rightarrow> nat \<Rightarrow> bmem" where
  "strncpy_pad m s 0 = m"
| "strncpy_pad m s (Suc n) = strncpy_pad (m(s := 0)) (s + 1) n"

fun strncpy_copy :: "bmem \<Rightarrow> uint \<Rightarrow> uint \<Rightarrow> nat \<Rightarrow> bmem" where
  "strncpy_copy m s t 0 = m"
| "strncpy_copy m s t (Suc n) =
     (let c = m t; m = m(s := c)
      in if c \<noteq> 0 then strncpy_copy m (s + 1) (t + 1) n else strncpy_pad m (s + 1) n)"

definition strncpy :: "bmem \<Rightarrow> uint \<Rightarrow> uint \<Rightarrow> int \<Rightarrow> bmem" where
  "strncpy m s t n = strncpy_copy m s t (nat n)"

text \<open>The loop of \<open>safestrcpy\<close> with at most \<open>k\<close> rounds left, and the final \<open>*s = 0\<close>.\<close>

fun safestrcpy_copy :: "bmem \<Rightarrow> uint \<Rightarrow> uint \<Rightarrow> nat \<Rightarrow> bmem" where
  "safestrcpy_copy m s t 0 = m(s := 0)"
| "safestrcpy_copy m s t (Suc k) =
     (let c = m t; m = m(s := c)
      in if c \<noteq> 0 then safestrcpy_copy m (s + 1) (t + 1) k else m(s + 1 := 0))"

definition safestrcpy :: "bmem \<Rightarrow> uint \<Rightarrow> uint \<Rightarrow> int \<Rightarrow> bmem" where
  "safestrcpy m s t n = (if n \<le> 0 then m else safestrcpy_copy m s t (nat (n - 1)))"

text \<open>The count of \<open>strlen\<close> is an \<open>int\<close>: counting past \<open>2^31 - 1\<close> is undefined.\<close>

function strlen_from :: "bmem \<Rightarrow> uint \<Rightarrow> nat \<Rightarrow> nat res" where
  "strlen_from m s n =
     (if m (s + of_nat n) = 0 then Ok n
      else if n + 1 < 2 ^ 31 then strlen_from m s (n + 1) else Undef)"
  by auto
termination by (relation "measure (\<lambda>(m, s, n). 2 ^ 31 - n)") auto

definition strlen :: "bmem \<Rightarrow> uint \<Rightarrow> nat res" where
  "strlen m s = strlen_from m s 0"

declare strlen_from.simps [simp del]

section \<open>Filling\<close>

lemma stosl_stosb:
  assumes "ucast w = b" "ucast (drop_bit 8 w) = b" "ucast (drop_bit 16 w) = b" "ucast (drop_bit 24 w) = b"
  shows "stosl m a w n = stosb m a b (4 * n)"
proof (induction n arbitrary: m a)
  case (Suc n)
  have "stosb m a b (4 * Suc n) = stosb (m(a := b, a + 1 := b, a + 2 := b, a + 3 := b)) (a + 4) b (4 * n)"
    by (simp add: numeral_eq_Suc add.assoc)
  then show ?case using Suc assms by (simp add: store32_def del: fun_upd_apply)
qed simp

lemma ucast_byte: "(ucast (c AND 0xFF :: uint) :: uchar) = ucast c"
proof (rule bit_word_eqI)
  fix i
  assume "i < LENGTH(8)"
  then have "bit (0xFF :: uint) i"
    by (auto simp: less_Suc_eq numeral_eq_Suc)
  then show "bit (ucast (c AND 0xFF :: uint) :: uchar) i = bit (ucast c :: uchar) i"
    using \<open>i < LENGTH(8)\<close> by (simp add: bit_simps)
qed

lemma bit_byte: "bit (c AND 0xFF :: uint) i \<longleftrightarrow> bit c i \<and> i < 8"
proof -
  have "(0xFF :: uint) = mask 8" by (simp add: mask_eq_exp_minus_1)
  then show ?thesis by (simp only: bit_and_iff bit_mask_iff) (auto dest: bit_imp_le_length)
qed

lemma spread_bytes:
  assumes "w = (push_bit 24 c OR push_bit 16 c OR push_bit 8 c OR c :: uint)" "c = d AND 0xFF"
  shows "(ucast w :: uchar) = ucast c" "(ucast (drop_bit 8 w) :: uchar) = ucast c"
    "(ucast (drop_bit 16 w) :: uchar) = ucast c" "(ucast (drop_bit 24 w) :: uchar) = ucast c"
  unfolding assms
  by (rule bit_word_eqI; auto simp: bit_simps bit_byte)+

lemma memset_stosb: "memset m dst c n = stosb m dst (ucast c) (unat n)"
proof (cases "unat dst mod 4 = 0 \<and> unat n mod 4 = 0")
  case True
  let ?c = "c AND 0xFF"
  have "4 * (unat n div 4) = unat n" using True by auto
  then show ?thesis
    using True stosl_stosb [OF spread_bytes [OF refl refl], of m dst c "unat n div 4"]
    by (simp add: memset_def Let_def ucast_byte)
qed (auto simp: memset_def)

lemma unat_Suc: "unat (a :: uint) + Suc n \<le> 2 ^ 32 \<Longrightarrow> 0 < n \<Longrightarrow> unat (a + 1) = Suc (unat a)"
  using unat_add_lem [of a 1] by simp

lemma stosb_apply:
  assumes "unat d + n \<le> 2 ^ 32"
  shows "stosb m d b n a = (if unat d \<le> unat a \<and> unat a < unat d + n then b else m a)"
  using assms
proof (induction n arbitrary: m d)
  case (Suc n)
  show ?case
  proof (cases "n = 0")
    case True
    then show ?thesis using word_unat_eq_iff [of a d] by (cases "a = d") auto
  next
    case False
    have u: "unat (d + 1) = Suc (unat d)" using unat_Suc [OF Suc.prems] False by simp
    have "stosb (m(d := b)) (d + 1) b n a = (if unat (d + 1) \<le> unat a \<and> unat a < unat (d + 1) + n then b else (m(d := b)) a)"
      using Suc.prems u by (intro Suc.IH) simp
    then show ?thesis using u word_unat_eq_iff [of a d] by auto
  qed
qed auto

section \<open>Moving\<close>

lemma move_fwd_apply:
  assumes "unat d + n \<le> 2 ^ 32" "unat s + n \<le> 2 ^ 32" "d \<le> s \<or> unat s + n \<le> unat d"
  shows "move_fwd m d s n a = (if unat d \<le> unat a \<and> unat a < unat d + n then m (s + (a - d)) else m a)"
  using assms
proof (induction n arbitrary: m d s)
  case (Suc n)
  show ?case
  proof (cases "n = 0")
    case True
    then show ?thesis using word_unat_eq_iff [of a d] by (cases "a = d") auto
  next
    case False
    have u: "unat (d + 1) = Suc (unat d)" "unat (s + 1) = Suc (unat s)"
      using unat_Suc [OF Suc.prems(1)] unat_Suc [OF Suc.prems(2)] False by simp_all
    have "d + 1 \<le> s + 1 \<or> unat (s + 1) + n \<le> unat (d + 1)"
      using Suc.prems(3) u by (auto simp: word_le_nat_alt)
    then have IH: "move_fwd (m(d := m s)) (d + 1) (s + 1) n a =
        (if unat (d + 1) \<le> unat a \<and> unat a < unat (d + 1) + n then (m(d := m s)) (s + 1 + (a - (d + 1))) else (m(d := m s)) a)"
      using Suc.prems u by (intro Suc.IH) simp_all
    have ne: "s + (a - d) \<noteq> d" if "Suc (unat d) \<le> unat a" "unat a < Suc (unat d) + n"
    proof -
      have "unat (a - d) = unat a - unat d" using that by (simp add: unat_sub word_le_nat_alt)
      moreover have "unat (s + (a - d)) = unat s + unat (a - d)"
        using calculation that Suc.prems(2) by (subst unat_add_lem [symmetric]) auto
      ultimately have "unat (s + (a - d)) \<noteq> unat d"
        using that Suc.prems(3) by (auto simp: word_le_nat_alt)
      then show ?thesis by metis
    qed
    show ?thesis
    proof (cases "a = d")
      case False
      then have "unat a \<noteq> unat d" by (simp add: word_unat_eq_iff)
      then show ?thesis using IH u ne False by (auto simp: algebra_simps)
    qed (use IH u in simp)
  qed
qed auto

lemma move_bwd_apply:
  assumes "n \<le> unat d" "n \<le> unat s" "s \<le> d"
  shows "move_bwd m d s n a = (if unat d - n \<le> unat a \<and> unat a < unat d then m (s - (d - a)) else m a)"
  using assms
proof (induction n arbitrary: m d s)
  case (Suc n)
  have u: "unat (d - 1) = unat d - 1" "unat (s - 1) = unat s - 1"
    using Suc.prems(1,2) by (simp_all add: unat_sub word_le_nat_alt)
  have IH: "move_bwd (m(d - 1 := m (s - 1))) (d - 1) (s - 1) n a =
      (if unat (d - 1) - n \<le> unat a \<and> unat a < unat (d - 1) then (m(d - 1 := m (s - 1))) (s - 1 - (d - 1 - a))
       else (m(d - 1 := m (s - 1))) a)"
    using Suc.prems u by (intro Suc.IH) (simp_all add: word_le_nat_alt)
  have ne: "s - (d - a) \<noteq> d - 1" if "unat d - Suc n \<le> unat a" "unat a < unat d - 1"
  proof -
    have da: "unat (d - a) = unat d - unat a" using that by (simp add: unat_sub word_le_nat_alt)
    then have "unat (s - (d - a)) = unat s - (unat d - unat a)"
      using that Suc.prems by (subst unat_sub) (auto simp: word_le_nat_alt)
    then have "unat (s - (d - a)) \<noteq> unat (d - 1)"
      using that Suc.prems u da by (simp add: word_le_nat_alt)
    then show ?thesis by metis
  qed
  have e: "s - 1 - (d - 1 - a) = s - (d - a)" by (simp add: algebra_simps)
  show ?case
  proof (cases "a = d - 1")
    case False
    then have "unat a \<noteq> unat d - 1" using u(1) by (metis word_unat_eq_iff)
    then show ?thesis using IH u ne False unfolding e by (auto simp del: fun_upd_apply) (auto simp: fun_upd_def)
  next
    case True
    have "unat a = unat d - 1" using u(1) unfolding True .
    moreover have "s - (d - a) = s - 1" unfolding True by simp
    moreover have "unat d - Suc n \<le> unat d - 1" by simp
    ultimately show ?thesis using IH u Suc.prems True by (simp add: e)
  qed
qed auto

text \<open>
  Property C18. \<open>memmove\<close> copies the old contents of \<open>src..src+n\<close> to \<open>dst..dst+n\<close> and changes no other byte,
  also when the two ranges overlap, as long as neither wraps around the end of the address space.
\<close>

theorem memmove_copies:
  assumes "unat src + unat n < 2 ^ 32" "unat dst + unat n < 2 ^ 32"
  shows "memmove m dst src n a = (if unat dst \<le> unat a \<and> unat a < unat dst + unat n then m (src + (a - dst)) else m a)"
proof -
  have u: "unat (src + n) = unat src + unat n" "unat (dst + n) = unat dst + unat n"
    using unat_add_lem [of src n] unat_add_lem [of dst n] assms by simp_all
  show ?thesis
  proof (cases "src < dst \<and> dst < src + n")
    case True
    have "move_bwd m (dst + n) (src + n) (unat n) a =
        (if unat (dst + n) - unat n \<le> unat a \<and> unat a < unat (dst + n) then m (src + n - (dst + n - a)) else m a)"
      using True u by (intro move_bwd_apply) (simp_all add: word_le_nat_alt word_less_nat_alt)
    then show ?thesis using True u by (simp add: memmove_def algebra_simps)
  next
    case False
    then have "dst \<le> src \<or> unat src + unat n \<le> unat dst" using u by (auto simp: word_less_nat_alt word_le_nat_alt)
    then show ?thesis
      using move_fwd_apply [of dst "unat n" src m a] assms False by (auto simp: memmove_def)
  qed
qed

section \<open>Strings\<close>

fun str_at :: "bmem \<Rightarrow> uint \<Rightarrow> uchar list \<Rightarrow> bool" where
  "str_at m a [] = (m a = 0)"
| "str_at m a (x # xs) = (m a = x \<and> x \<noteq> 0 \<and> str_at m (a + 1) xs)"

lemma str_at_nth: "str_at m a xs \<longleftrightarrow> (\<forall>i<length xs. m (a + of_nat i) = xs ! i \<and> xs ! i \<noteq> 0) \<and> m (a + of_nat (length xs)) = 0"
proof (induction xs arbitrary: a)
  case (Cons x xs)
  have "(\<forall>i<length (x # xs). m (a + of_nat i) = (x # xs) ! i \<and> (x # xs) ! i \<noteq> 0) \<longleftrightarrow>
      m a = x \<and> x \<noteq> 0 \<and> (\<forall>i<length xs. m (a + 1 + of_nat i) = xs ! i \<and> xs ! i \<noteq> 0)"
    by (auto simp: All_less_Suc2 add.assoc)
  then show ?case using Cons [of "a + 1"] by (auto simp: add.assoc)
qed simp

lemma strlen_from_skip:
  assumes "\<forall>i<k. m (s + of_nat (n + i)) \<noteq> 0" "n + k < 2 ^ 31"
  shows "strlen_from m s n = strlen_from m s (n + k)"
  using assms
proof (induction k arbitrary: n)
  case (Suc k)
  have "m (s + of_nat n) \<noteq> 0" using Suc.prems(1) [rule_format, of 0] by simp
  then have "strlen_from m s n = strlen_from m s (n + 1)"
    using Suc.prems(2) by (subst strlen_from.simps) simp
  also have "\<dots> = strlen_from m s (n + 1 + k)"
  proof (rule Suc.IH)
    show "\<forall>i<k. m (s + of_nat (n + 1 + i)) \<noteq> 0"
      using Suc.prems(1) [rule_format, of "Suc i" for i] by (simp add: ac_simps)
  qed (use Suc.prems(2) in simp)
  finally show ?case by simp
qed simp

lemma strlen_str_at:
  assumes "str_at m s xs" "length xs < 2 ^ 31"
  shows "strlen m s = Ok (length xs)"
  using assms strlen_from_skip [of "length xs" m s 0]
  by (simp add: strlen_def str_at_nth strlen_from.simps [of m s "length xs"])

lemma strncmp_str_at:
  assumes "str_at m p xs" "str_at m q ys"
  shows "strncmp m p q n = 0 \<longleftrightarrow> take (unat n) xs = take (unat n) ys"
proof -
  have "strncmp_loop m p q k = 0 \<longleftrightarrow> take k xs = take k ys" for k
    using assms
  proof (induction k arbitrary: p q xs ys)
    case (Suc k)
    then show ?case by (cases xs; cases ys) (auto simp: word_uint_eq_iff)
  qed simp
  then show ?thesis by (simp add: strncmp_def)
qed

lemma offset_eq: "i < 2 ^ 32 \<Longrightarrow> j < 2 ^ 32 \<Longrightarrow> (s :: uint) + of_nat i = s + of_nat j \<longleftrightarrow> i = j"
  by (simp add: word_of_nat_eq_iff take_bit_nat_eq_self)

lemma str_at_upd:
  assumes "\<forall>j\<le>length xs. a \<noteq> t + of_nat j"
  shows "str_at (m(a := v)) t xs = str_at m t xs"
proof -
  have "t + of_nat j \<noteq> a" if "j \<le> length xs" for j using assms that by metis
  then show ?thesis unfolding str_at_nth by (simp add: less_imp_le)
qed

lemma safestrcpy_copy_spec:
  assumes "str_at m t xs" "k < 2 ^ 32 - 1" "\<forall>i\<le>k. \<forall>j\<le>length xs. s + of_nat i \<noteq> t + of_nat j"
  shows "str_at (safestrcpy_copy m s t k) s (take k xs) \<and>
    (\<forall>a. (\<forall>i\<le>k. a \<noteq> s + of_nat i) \<longrightarrow> safestrcpy_copy m s t k a = m a)"
  using assms
proof (induction k arbitrary: m s t xs)
  case (Suc k)
  show ?case
  proof (cases xs)
    case Nil
    have "a \<noteq> s \<and> a \<noteq> s + 1" if "\<forall>i\<le>Suc k. a \<noteq> s + of_nat i" for a
      using that [rule_format, of 0] that [rule_format, of 1] by simp
    then show ?thesis using Nil Suc.prems(1) by auto
  next
    case (Cons x ys)
    let ?m = "m(s := x)"
    have shift: "s + 1 + of_nat i = s + of_nat (Suc i)" "t + 1 + of_nat i = t + of_nat (Suc i)" for i by simp_all
    have "\<forall>j\<le>length ys. s \<noteq> t + 1 + of_nat j"
      using Suc.prems(3) [rule_format, of 0] Cons unfolding shift by (auto simp del: of_nat_Suc)
    then have "str_at ?m (t + 1) ys" using Suc.prems(1) Cons by (simp add: str_at_upd)
    moreover have "\<forall>i\<le>k. \<forall>j\<le>length ys. s + 1 + of_nat i \<noteq> t + 1 + of_nat j"
      using Suc.prems(3) Cons unfolding shift by (auto simp del: of_nat_Suc)
    ultimately have IH: "str_at (safestrcpy_copy ?m (s + 1) (t + 1) k) (s + 1) (take k ys)"
      "\<And>a. (\<forall>i\<le>k. a \<noteq> s + 1 + of_nat i) \<Longrightarrow> safestrcpy_copy ?m (s + 1) (t + 1) k a = ?m a"
      using Suc.IH [of ?m "t + 1" ys "s + 1"] Suc.prems(2) by (auto simp del: fun_upd_apply)
    have "\<forall>i\<le>k. s \<noteq> s + 1 + of_nat i"
    proof (intro allI impI)
      fix i
      assume "i \<le> k"
      then show "s \<noteq> s + 1 + of_nat i"
        using offset_eq [of 0 "Suc i" s] Suc.prems(2) unfolding shift by (simp del: of_nat_Suc)
    qed
    then have "safestrcpy_copy ?m (s + 1) (t + 1) k s = x" using IH(2) by simp
    moreover have "safestrcpy_copy ?m (s + 1) (t + 1) k a = m a" if "\<forall>i\<le>Suc k. a \<noteq> s + of_nat i" for a
    proof -
      have "\<forall>i\<le>k. a \<noteq> s + 1 + of_nat i" using that unfolding shift by (auto simp del: of_nat_Suc)
      then show ?thesis using IH(2) that [rule_format, of 0] by simp
    qed
    ultimately show ?thesis using IH(1) Suc.prems(1) Cons by (simp add: Let_def del: fun_upd_apply)
  qed
next
  case 0
  have "a \<noteq> s" if "\<forall>i\<le>0. a \<noteq> s + of_nat i" for a using that by simp
  then show ?case by simp
qed

text \<open>
  Property C19. \<open>safestrcpy\<close> into a buffer of \<open>n\<close> bytes apart from the source leaves there the longest prefix of the
  source string that fits, terminated by a zero byte, and writes to no byte outside the buffer.
\<close>

theorem safestrcpy_fits:
  assumes "str_at m t xs" "0 < n" "n < 2 ^ 31" "\<forall>i<nat n. \<forall>j\<le>length xs. s + of_nat i \<noteq> t + of_nat j"
  shows "str_at (safestrcpy m s t n) s (take (nat n - 1) xs) \<and>
    (\<forall>a. (\<forall>i<nat n. a \<noteq> s + of_nat i) \<longrightarrow> safestrcpy m s t n a = m a)"
proof -
  have e: "nat (n - 1) = nat n - 1" "i \<le> nat n - 1 \<longleftrightarrow> i < nat n" for i using assms(2) by auto
  show ?thesis
    using safestrcpy_copy_spec [OF assms(1), of "nat n - 1" s] assms(2-4) unfolding e
    by (simp add: safestrcpy_def e)
qed

theorem safestrcpy_fits_witness:
  "str_at (safestrcpy ((\<lambda>_. 0)(100 := 65, 101 := 66, 102 := 67)) 200 100 3) 200 [65, 66]"
proof -
  let ?m = "((\<lambda>_. 0)(100 := 65, 101 := 66, 102 := 67)) :: bmem"
  have "str_at ?m 100 [65, 66, 67]" by simp
  moreover have "\<forall>i<nat 3. \<forall>j\<le>length [65, 66, 67 :: uchar]. (200 :: uint) + of_nat i \<noteq> 100 + of_nat j"
    by (auto simp: numeral_3_eq_3 less_Suc_eq le_Suc_eq)
  ultimately show ?thesis using safestrcpy_fits [of ?m 100 "[65, 66, 67]" 3 200] by simp
qed

theorem memmove_copies_witness:
  "memmove (\<lambda>a. ucast a) 12 10 5 13 = 11 \<and> memmove (\<lambda>a. ucast a) 12 10 5 17 = 17"
  using memmove_copies [of 10 5 12 "\<lambda>a. ucast a" 13] memmove_copies [of 10 5 12 "\<lambda>a. ucast a" 17] by simp

end
