(* ===== verification/Console_Out.thy ===== *)
theory Console_Out
  imports Proc_Life Cstring
begin

text \<open>
  The output half of the console (\<open>console.c\<close>, with \<open>uartputc\<close> of \<open>uart.c\<close>): the CGA screen and its
  cursor, the serial line, the number printer and \<open>cprintf\<close>. The kernel state is extended by the
  state of the console, its input line buffer included. The bytes sent down the serial line are
  kept in \<open>uart_out\<close>; the wait for the line to be ready, at most 128 delays, leaves no trace.
\<close>

record input =
  in_buf :: "nat \<Rightarrow> uchar"
  in_r :: uint
  in_w :: uint
  in_e :: uint

record cons_state = kstate +
  cons_locking :: bool
  panicked :: bool
  crt :: "nat \<Rightarrow> ushort"
  crt_pos :: ushort
  uart :: bool
  uart_out :: "uchar list"
  input :: input

section \<open>Characters to the devices\<close>

definition BACKSPACE :: uint where "BACKSPACE = 0x100"

definition uartputc :: "uchar \<Rightarrow> 'a cons_state_scheme \<Rightarrow> 'a cons_state_scheme" where
  "uartputc b s = (if \<not> uart s then s else s\<lparr>uart_out := uart_out s @ [b]\<rparr>)"

text \<open>The cursor lives in registers 14 and 15 of the CRT controller: sixteen bits.\<close>

definition cga_place :: "nat \<Rightarrow> 'a cons_state_scheme \<Rightarrow> 'a cons_state_scheme res" where
  "cga_place pos s =
     (if 25 * 80 < pos then Panic ''pos under/overflow''
      else
        let (pos, s) =
          (if 24 \<le> pos div 80 then
             let m = (\<lambda>i. if i < 23 * 80 then crt s (i + 80) else crt s i);
                 pos = pos - 80
             in (pos, s\<lparr>crt := (\<lambda>i. if pos \<le> i \<and> i < 24 * 80 then 0 else m i)\<rparr>)
           else (pos, s))
        in Ok (s\<lparr>crt_pos := of_nat pos, crt := (crt s)(pos := 0x20 OR 0x0700)\<rparr>))"

definition cgaputc :: "uint \<Rightarrow> 'a cons_state_scheme \<Rightarrow> 'a cons_state_scheme res" where
  "cgaputc ch s =
     (let pos = unat (crt_pos s)
      in if ch = 10 then cga_place (pos + (80 - pos mod 80)) s
         else if ch = BACKSPACE then cga_place (if 0 < pos then pos - 1 else pos) s
         else cga_place (pos + 1) (s\<lparr>crt := (crt s)(pos := ucast (ch AND 0xff) OR 0x0700)\<rparr>))"

definition consputc :: "uint \<Rightarrow> 'a cons_state_scheme \<Rightarrow> 'a cons_state_scheme res" where
  "consputc ch s =
     (if panicked s then Hang
      else cgaputc ch (if ch = BACKSPACE then uartputc 8 (uartputc 0x20 (uartputc 8 s)) else uartputc (ucast ch) s))"

text \<open>A C \<open>char\<close> as an \<open>int\<close>: sign-extended.\<close>

definition char_int :: "char \<Rightarrow> uint" where
  "char_int ch = scast (of_char ch :: uchar)"

fun putstr :: "string \<Rightarrow> 'a cons_state_scheme \<Rightarrow> 'a cons_state_scheme res" where
  "putstr [] s = Ok s"
| "putstr (ch # cs) s = rbind (consputc (char_int ch) s) (putstr cs)"

section \<open>Numbers\<close>

text \<open>
  The \<open>do ... while\<close> of \<open>printint\<close>, least significant digit first. Every call has base 10 or 16.
\<close>

definition digit :: "string \<Rightarrow> nat \<Rightarrow> char" where
  "digit tab d = tab ! d"

function rev_digits :: "string \<Rightarrow> nat \<Rightarrow> nat \<Rightarrow> string" where
  "rev_digits tab base x =
     digit tab (x mod base) # (if x div base = 0 \<or> base < 2 then [] else rev_digits tab base (x div base))"
  by auto
termination by (relation "measure (\<lambda>(tab, base, x). x)") (auto intro!: div_less_dividend gr0I)

declare rev_digits.simps [simp del]

definition printint_str :: "string \<Rightarrow> uint \<Rightarrow> nat \<Rightarrow> bool \<Rightarrow> string" where
  "printint_str tab xx base sign =
     (let neg = sign \<and> sint xx < 0;
          x = (if neg then - xx else xx);
          buf = rev_digits tab base (unat x) @ (if neg then ''-'' else [])
      in rev buf)"

definition printint :: "uint \<Rightarrow> nat \<Rightarrow> bool \<Rightarrow> 'a cons_state_scheme \<Rightarrow> 'a cons_state_scheme res" where
  "printint xx base sign s = putstr (printint_str ''0123456789abcdef'' xx base sign) s"

section \<open>cprintf\<close>

text \<open>An argument is a word or a string pointer (\<open>None\<close> the null pointer); a missing or a mismatched one is undefined.\<close>

datatype fmtarg = Num uint | Str "string option"

fun cprintf_body :: "string \<Rightarrow> fmtarg list \<Rightarrow> 'a cons_state_scheme \<Rightarrow> 'a cons_state_scheme res" where
  "cprintf_body [] args s = Ok s"
| "cprintf_body [ch] args s =
     (if ch \<noteq> CHR ''%'' then consputc (of_char ch) s else Ok s)"
| "cprintf_body (ch # f # fs) args s =
     (if ch \<noteq> CHR ''%'' then rbind (consputc (of_char ch) s) (cprintf_body (f # fs) args)
      else if f = CHR ''d'' then
        (case args of Num x # args \<Rightarrow> rbind (printint x 10 True s) (cprintf_body fs args) | _ \<Rightarrow> Undef)
      else if f = CHR ''x'' \<or> f = CHR ''p'' then
        (case args of Num x # args \<Rightarrow> rbind (printint x 16 False s) (cprintf_body fs args) | _ \<Rightarrow> Undef)
      else if f = CHR ''s'' then
        (case args of
           Str p # args \<Rightarrow>
             rbind (putstr (case p of None \<Rightarrow> ''(null)'' | Some str \<Rightarrow> str) s) (cprintf_body fs args)
         | _ \<Rightarrow> Undef)
      else if f = CHR ''%'' then rbind (consputc (of_char CHR ''%'') s) (cprintf_body fs args)
      else
        rbind (consputc (of_char CHR ''%'') s) (\<lambda>s.
        rbind (consputc (of_char f) s) (cprintf_body fs args)))"

definition cprintf :: "nat \<Rightarrow> string \<Rightarrow> fmtarg list \<Rightarrow> 'a cons_state_scheme \<Rightarrow> 'a cons_state_scheme res" where
  "cprintf c fmt args s =
     (let locking = cons_locking s
      in rbind (if locking then acquire c Lk_cons s else Ok s) (\<lambda>s.
         rbind (cprintf_body fmt args s) (\<lambda>s.
         if locking then release c Lk_cons s else Ok s)))"

text \<open>What \<open>panic\<close> prints before it stops the machine: the message, then ten return addresses.\<close>

fun panic_pcs :: "nat \<Rightarrow> uint list \<Rightarrow> 'a cons_state_scheme \<Rightarrow> 'a cons_state_scheme res" where
  "panic_pcs c [] s = Ok s"
| "panic_pcs c (pc # pcs) s = rbind (cprintf c '' %p'' [Num pc] s) (panic_pcs c pcs)"

definition panic_report :: "nat \<Rightarrow> (uint \<Rightarrow> uint) \<Rightarrow> uint \<Rightarrow> string \<Rightarrow> 'a cons_state_scheme \<Rightarrow> 'a cons_state_scheme res" where
  "panic_report c mem frame msg s =
     (let s = (cli c s)\<lparr>cons_locking := False\<rparr>
      in rbind (cprintf c ''lapicid %d: panic: '' [Num (ucast (lapic_id s c))] s) (\<lambda>s.
         rbind (cprintf c msg [] s) (\<lambda>s.
         rbind (cprintf c ''\<newline>'' [] s) (\<lambda>s.
         rbind (panic_pcs c (getcallerpcs mem frame) s) (\<lambda>s. Ok (s\<lparr>panicked := True\<rparr>))))))"

section \<open>The device write\<close>

text \<open>\<open>iunlock\<close> and \<open>ilock\<close> of the device's inode are parameters.\<close>

fun write_bytes :: "uchar list \<Rightarrow> 'a cons_state_scheme \<Rightarrow> 'a cons_state_scheme res" where
  "write_bytes [] s = Ok s"
| "write_bytes (b # bs) s = rbind (consputc (ucast b) s) (write_bytes bs)"

definition consolewrite ::
  "('a cons_state_scheme \<Rightarrow> 'a cons_state_scheme res) \<Rightarrow> ('a cons_state_scheme \<Rightarrow> 'a cons_state_scheme res) \<Rightarrow> nat \<Rightarrow>
   uchar list \<Rightarrow> 'a cons_state_scheme \<Rightarrow> (int \<times> 'a cons_state_scheme) res" where
  "consolewrite iunlock ilock c buf s =
     rbind (iunlock s) (\<lambda>s.
     rbind (acquire c Lk_cons s) (\<lambda>s.
     rbind (write_bytes buf s) (\<lambda>s.
     rbind (release c Lk_cons s) (\<lambda>s.
     rbind (ilock s) (\<lambda>s. Ok (int (length buf), s))))))"

section \<open>The screen never overflows\<close>

definition cons_ok :: "'a cons_state_scheme \<Rightarrow> bool" where
  "cons_ok s \<longleftrightarrow> \<not> panicked s \<and> unat (crt_pos s) < 24 * 80"

text \<open>Output changes the screen, the cursor and the serial line, nothing else.\<close>

definition printed :: "uchar list \<Rightarrow> 'a cons_state_scheme \<Rightarrow> 'a cons_state_scheme \<Rightarrow> bool" where
  "printed bs s t \<longleftrightarrow> cons_ok t \<and> uart_out t = uart_out s @ (if uart s then bs else []) \<and>
     t\<lparr>crt := crt s, crt_pos := crt_pos s, uart_out := uart_out s\<rparr> = s"

definition cons_bytes :: "uint \<Rightarrow> uchar list" where
  "cons_bytes ch = (if ch = BACKSPACE then [8, 0x20, 8] else [ucast ch])"

lemma next_row: "(p :: nat) < 24 * 80 \<Longrightarrow> p + (80 - p mod 80) \<le> 24 * 80"
proof -
  assume "p < 24 * 80"
  then have "p div 80 < 24" by simp
  moreover have "p = 80 * (p div 80) + p mod 80" by simp
  moreover have "p mod 80 < 80" by simp
  ultimately show ?thesis by linarith
qed

lemma unat_pos: "p \<le> 24 * 80 \<Longrightarrow> unat (of_nat p :: ushort) = p"
  by (simp add: unat_of_nat take_bit_nat_eq_self)

lemma cga_place_spec:
  assumes "pos \<le> 24 * 80"
  shows "wp (cga_place pos s) (\<lambda>t. unat (crt_pos t) < 24 * 80 \<and> t\<lparr>crt := crt s, crt_pos := crt_pos s\<rparr> = s)"
  using assms unat_pos [of "pos - 80"]
  by (auto simp: cga_place_def Let_def unat_pos simp del: of_nat_diff)

lemma cgaputc_spec:
  assumes "unat (crt_pos s) < 24 * 80"
  shows "wp (cgaputc ch s) (\<lambda>t. unat (crt_pos t) < 24 * 80 \<and> t\<lparr>crt := crt s, crt_pos := crt_pos s\<rparr> = s)"
proof -
  let ?n = "s\<lparr>crt := (crt s)(unat (crt_pos s) := ucast (ch AND 0xff) OR 0x0700)\<rparr>"
  have "wp (cga_place (unat (crt_pos s) + 1) ?n) (\<lambda>t. unat (crt_pos t) < 24 * 80 \<and> t\<lparr>crt := crt s, crt_pos := crt_pos s\<rparr> = s)"
  proof (rule wp_mono [OF cga_place_spec], use assms in simp)
    fix t
    assume t: "unat (crt_pos t) < 24 * 80 \<and> t\<lparr>crt := crt ?n, crt_pos := crt_pos ?n\<rparr> = ?n"
    show "unat (crt_pos t) < 24 * 80 \<and> t\<lparr>crt := crt s, crt_pos := crt_pos s\<rparr> = s"
      using conjunct1 [OF t] arg_cong [OF conjunct2 [OF t], of "\<lambda>t. t\<lparr>crt := crt s, crt_pos := crt_pos s\<rparr>"] by simp
  qed
  then show ?thesis
    using cga_place_spec [OF next_row [OF assms], of s] cga_place_spec [of _ s] assms
    by (simp add: cgaputc_def Let_def BACKSPACE_def)
qed

lemma consputc_spec:
  assumes "cons_ok s"
  shows "wp (consputc ch s) (printed (cons_bytes ch) s)"
proof -
  let ?s = "if ch = BACKSPACE then uartputc 8 (uartputc 0x20 (uartputc 8 s)) else uartputc (ucast ch) s"
  have u: "?s = s\<lparr>uart_out := uart_out s @ (if uart s then cons_bytes ch else [])\<rparr>"
    by (simp add: uartputc_def cons_bytes_def)
  have "wp (cgaputc ch ?s) (printed (cons_bytes ch) s)"
    unfolding u
  proof (rule wp_mono [OF cgaputc_spec], use assms in \<open>simp add: cons_ok_def\<close>)
    fix t
    let ?u = "s\<lparr>uart_out := uart_out s @ (if uart s then cons_bytes ch else [])\<rparr>"
    assume t: "unat (crt_pos t) < 24 * 80 \<and> t\<lparr>crt := crt ?u, crt_pos := crt_pos ?u\<rparr> = ?u"
    then have e: "t\<lparr>crt := crt s, crt_pos := crt_pos s\<rparr> = ?u" by simp
    have "uart_out t = uart_out ?u" "panicked t = panicked ?u" using arg_cong [OF e, of uart_out] arg_cong [OF e, of panicked] by simp_all
    moreover have "t\<lparr>crt := crt s, crt_pos := crt_pos s, uart_out := uart_out s\<rparr> = s"
      using arg_cong [OF e, of "uart_out_update (\<lambda>_. uart_out s)"] by simp
    ultimately show "printed (cons_bytes ch) s t" using t assms by (simp add: printed_def cons_ok_def)
  qed
  then show ?thesis using assms by (simp add: consputc_def cons_ok_def)
qed

lemma printed_nil: "cons_ok s \<Longrightarrow> printed [] s s"
  by (simp add: printed_def)

lemma printedD:
  assumes "printed bs s t"
  shows "cons_ok t" "uart_out t = uart_out s @ (if uart s then bs else [])"
    "t\<lparr>crt := crt s, crt_pos := crt_pos s, uart_out := uart_out s\<rparr> = s"
  using assms by (simp_all add: printed_def)

lemma printed_sel:
  assumes "printed bs s t"
  shows "uart t = uart s" "procs t = procs s" "plist t = plist s" "ready t = ready s" "cpus t = cpus s" "ncpu t = ncpu s"
    "lapic_id t = lapic_id s" "eflags_if t = eflags_if s" "locks t = locks s" "ticks t = ticks s" "cons_locking t = cons_locking s"
    "input t = input s"
proof -
  note e = arg_cong [OF printedD(3) [OF assms]]
  show "uart t = uart s" "procs t = procs s" "plist t = plist s" "ready t = ready s" "cpus t = cpus s" "ncpu t = ncpu s"
    "lapic_id t = lapic_id s" "eflags_if t = eflags_if s" "locks t = locks s" "ticks t = ticks s" "cons_locking t = cons_locking s"
    "input t = input s"
    using e [of uart] e [of procs] e [of plist] e [of ready] e [of cpus] e [of ncpu] e [of lapic_id] e [of eflags_if] e [of locks]
      e [of ticks] e [of cons_locking] e [of input] by simp_all
qed

lemma printed_trans:
  assumes "printed bs s t" "printed bs' t u"
  shows "printed (bs @ bs') s u"
proof -
  have "u\<lparr>crt := crt s, crt_pos := crt_pos s, uart_out := uart_out s\<rparr> = s"
    using arg_cong [OF printedD(3) [OF assms(2)], of "\<lambda>u. u\<lparr>crt := crt s, crt_pos := crt_pos s, uart_out := uart_out s\<rparr>"]
      printedD(3) [OF assms(1)] by simp
  then show ?thesis
    using printedD(1,2) [OF assms(2)] printedD(2) [OF assms(1)] printed_sel(1) [OF assms(1)] by (simp add: printed_def)
qed

lemma printed_then:
  assumes "wp m (printed bs s)" "\<And>t. cons_ok t \<Longrightarrow> wp (f t) (printed bs' t)"
  shows "wp (rbind m f) (printed (bs @ bs') s)"
  by (rule wp_bindI [OF assms(1)])
    (auto intro: wp_mono [OF assms(2)] printed_trans dest: printedD(1))

definition str_bytes :: "string \<Rightarrow> uchar list" where
  "str_bytes = map of_char"

lemma str_bytes_simps [simp]:
  "str_bytes [] = []" "str_bytes (ch # cs) = of_char ch # str_bytes cs" "str_bytes (xs @ ys) = str_bytes xs @ str_bytes ys"
  by (simp_all add: str_bytes_def)

lemma byte_uchar [simp]: "cons_bytes (of_char ch) = [of_char ch]"
proof -
  have lt: "of_char ch < (256 :: nat)" by simp
  have "(of_char ch :: uint) = of_nat (of_char ch)" "(of_char ch :: uchar) = of_nat (of_char ch)"
    by (simp_all only: of_nat_of_char)
  moreover have "(of_nat n :: uint) \<noteq> 0x100 \<and> (ucast (of_nat n :: uint) :: uchar) = of_nat n" if "n < 256" for n
    using that word_of_nat_eq_iff [of n 256] by (auto simp: unsigned_of_nat take_bit_nat_eq_self)
  ultimately show ?thesis using lt by (simp add: cons_bytes_def BACKSPACE_def)
qed

lemma byte_char_int [simp]: "cons_bytes (char_int ch) = [of_char ch]"
proof -
  have "char_int ch \<noteq> 0x100"
  proof
    assume "char_int ch = 0x100"
    then have "bit (char_int ch) 8 \<and> \<not> bit (char_int ch) 7" by (simp add: bit_numeral_rec)
    then show False by (simp add: char_int_def bit_simps)
  qed
  moreover have "(ucast (scast b :: uint) :: uchar) = b" for b :: uchar
  proof (rule bit_word_eqI)
    fix n
    assume "n < LENGTH(8)"
    then have "7 \<le> n \<Longrightarrow> n = 7" by simp
    then show "bit (ucast (scast b :: uint) :: uchar) n = bit b n"
      using \<open>n < LENGTH(8)\<close> by (cases "n = 7") (auto simp: bit_simps min_def)
  qed
  ultimately show ?thesis by (simp add: cons_bytes_def BACKSPACE_def char_int_def)
qed

lemma putstr_spec: "cons_ok s \<Longrightarrow> wp (putstr str s) (printed (str_bytes str) s)"
proof (induction str arbitrary: s)
  case (Cons ch str)
  show ?case using printed_then [OF consputc_spec [OF Cons.prems, of "char_int ch"] Cons.IH] by simp
qed (simp add: printed_nil)

section \<open>What a format prints\<close>

fun render :: "string \<Rightarrow> fmtarg list \<Rightarrow> string res" where
  "render [] args = Ok []"
| "render [ch] args = Ok (if ch \<noteq> CHR ''%'' then [ch] else [])"
| "render (ch # f # fs) args =
     (if ch \<noteq> CHR ''%'' then rbind (render (f # fs) args) (\<lambda>r. Ok (ch # r))
      else if f = CHR ''d'' then
        (case args of Num x # args \<Rightarrow> rbind (render fs args) (\<lambda>r. Ok (printint_str ''0123456789abcdef'' x 10 True @ r)) | _ \<Rightarrow> Undef)
      else if f = CHR ''x'' \<or> f = CHR ''p'' then
        (case args of Num x # args \<Rightarrow> rbind (render fs args) (\<lambda>r. Ok (printint_str ''0123456789abcdef'' x 16 False @ r)) | _ \<Rightarrow> Undef)
      else if f = CHR ''s'' then
        (case args of Str p # args \<Rightarrow> rbind (render fs args) (\<lambda>r. Ok ((case p of None \<Rightarrow> ''(null)'' | Some str \<Rightarrow> str) @ r))
         | _ \<Rightarrow> Undef)
      else rbind (render fs args) (\<lambda>r. Ok (if f = CHR ''%'' then CHR ''%'' # r else CHR ''%'' # f # r)))"

lemma cprintf_body_spec:
  assumes "cons_ok s" "render fmt args = Ok str"
  shows "wp (cprintf_body fmt args s) (printed (str_bytes str) s)"
  using assms
proof (induction fmt args arbitrary: s str rule: render.induct)
  case (1 args)
  then show ?case by (simp add: printed_nil)
next
  case (2 ch args)
  then show ?case
    using consputc_spec [of s "of_char ch"] by (auto simp: printed_nil)
next
  case (3 ch f fs args)
  note one = consputc_spec [OF 3(6)]
  consider (plain) "ch \<noteq> CHR ''%''" | (d) "ch = CHR ''%''" "f = CHR ''d''" | (x) "ch = CHR ''%''" "f = CHR ''x'' \<or> f = CHR ''p''"
    | (s) "ch = CHR ''%''" "f = CHR ''s''" | (rest) "ch = CHR ''%''" "f \<notin> {CHR ''d'', CHR ''x'', CHR ''p'', CHR ''s''}"
    by auto
  then show ?case
  proof cases
    case plain
    then obtain r where r: "render (f # fs) args = Ok r" "str = ch # r" using 3(7) by (auto simp: rbind_Ok_iff)
    show ?thesis using printed_then [OF one [of "of_char ch"] 3(1) [OF plain _ r(1)]] plain r(2) by simp
  next
    case d
    then obtain x as r where r: "args = Num x # as" "render fs as = Ok r" "str = printint_str ''0123456789abcdef'' x 10 True @ r"
      using 3(7) by (auto simp: rbind_Ok_iff split: list.splits fmtarg.splits)
    show ?thesis
      using printed_then [OF putstr_spec [OF 3(6), of "printint_str ''0123456789abcdef'' x 10 True"] 3(2) [OF _ d(2) r(1) refl _ r(2)]] d r(1,3)
      by (simp add: printint_def)
  next
    case x
    then obtain x as r where r: "args = Num x # as" "render fs as = Ok r" "str = printint_str ''0123456789abcdef'' x 16 False @ r"
      using 3(7) by (auto simp: rbind_Ok_iff split: list.splits fmtarg.splits)
    show ?thesis
      using printed_then [OF putstr_spec [OF 3(6), of "printint_str ''0123456789abcdef'' x 16 False"] 3(3) [OF _ _ x(2) r(1) refl _ r(2)]] x r(1,3)
      by (auto simp: printint_def)
  next
    case s
    then obtain p as r where r: "args = Str p # as" "render fs as = Ok r" "str = (case p of None \<Rightarrow> ''(null)'' | Some str \<Rightarrow> str) @ r"
      using 3(7) by (auto simp: rbind_Ok_iff split: list.splits fmtarg.splits)
    show ?thesis
      using printed_then [OF putstr_spec [OF 3(6), of "case p of None \<Rightarrow> ''(null)'' | Some str \<Rightarrow> str"] 3(4) [OF _ _ _ s(2) r(1) refl _ r(2)]] s r(1,3)
      by simp
  next
    case rest
    then obtain r where r: "render fs args = Ok r" "str = (if f = CHR ''%'' then CHR ''%'' # r else CHR ''%'' # f # r)"
      using 3(7) by (auto simp: rbind_Ok_iff)
    have IH: "cons_ok s \<Longrightarrow> wp (cprintf_body fs args s) (printed (str_bytes r) s)" for s :: "'a cons_state_scheme"
      by (rule 3(5) [OF _ _ _ _ _ r(1)]) (use rest in auto)
    have b: "cons_bytes 37 = [37]" by (simp add: cons_bytes_def BACKSPACE_def)
    show ?thesis
    proof (cases "f = CHR ''%''")
      case True
      then show ?thesis using rest r(2) printed_then [OF one [of "of_char CHR ''%''"] IH] by (simp add: b)
    next
      case False
      then show ?thesis
        using rest r(2) printed_then [OF one [of "of_char CHR ''%''"] printed_then [OF consputc_spec [of _ "of_char f"] IH]]
        by (simp add: b)
    qed
  qed
qed

section \<open>cprintf under its lock\<close>

text \<open>A core that may print: the console lock, if it is used at all, is free.\<close>

definition can_print :: "nat \<Rightarrow> 'a cons_state_scheme \<Rightarrow> bool" where
  "can_print c s \<longleftrightarrow> machine_ok s \<and> c < ncpu s \<and> cons_ok s \<and> unlocked Lk_cons s"

text \<open>After output of \<open>bs\<close>: process table, locks and core are as before.\<close>

definition said :: "uchar list \<Rightarrow> 'a cons_state_scheme \<Rightarrow> 'a cons_state_scheme \<Rightarrow> bool" where
  "said bs s t \<longleftrightarrow> calm s t \<and> cons_ok t \<and> uart_out t = uart_out s @ (if uart s then bs else []) \<and>
     uart t = uart s \<and> cons_locking t = cons_locking s \<and> input t = input s"

lemma cons_acquired [simp]:
  "cons_ok (acquired c lk s) = cons_ok s" "uart (acquired c lk s) = uart s" "uart_out (acquired c lk s) = uart_out s"
  "cons_locking (acquired c lk s) = cons_locking s" "input (acquired c lk s) = input s"
  by (simp_all add: acquired_def set_lock_def pushed_def cons_ok_def)

lemma cons_released [simp]:
  "cons_ok (released c lk s) = cons_ok s" "uart (released c lk s) = uart s" "uart_out (released c lk s) = uart_out s"
  "cons_locking (released c lk s) = cons_locking s" "input (released c lk s) = input s"
  by (simp_all add: released_def set_lock_def popped_def touched_def cons_ok_def)

lemma printed_calm:
  assumes "printed bs s t"
  shows "calm s t"
proof -
  have "initproc t = initproc s" "nextpid t = nextpid s"
    using arg_cong [OF printedD(3) [OF assms], of initproc] arg_cong [OF printedD(3) [OF assms], of nextpid] by simp_all
  then show ?thesis using printed_sel [OF assms] by (simp add: calm_def)
qed

lemma cprintf_spec:
  assumes "can_print c s" "render fmt args = Ok str"
  shows "wp (cprintf c fmt args s) (said (str_bytes str) s)"
proof (cases "cons_locking s")
  case True
  note m = assms(1) [unfolded can_print_def]
  let ?a = "acquired c Lk_cons s"
  have ac: "acquire c Lk_cons s = Ok ?a" using m by (intro acquire_eq) (auto simp: unlocked_def lock_free_def)
  have "wp (cprintf_body fmt args ?a) (printed (str_bytes str) ?a)"
    using m assms(2) by (intro cprintf_body_spec) simp_all
  then have "wp (rbind (cprintf_body fmt args ?a) (release c Lk_cons)) (said (str_bytes str) s)"
  proof (rule wp_bindI)
    fix t
    assume t: "printed (str_bytes str) ?a t"
    note r = calm_section [OF _ _ _ printed_calm [OF t]]
    show "wp (release c Lk_cons t) (said (str_bytes str) s)"
      using m r printedD(1,2) [OF t] printed_sel [OF t] by (simp add: said_def)
  qed
  then show ?thesis using True ac by (simp add: cprintf_def)
next
  case False
  have "wp (cprintf_body fmt args s) (said (str_bytes str) s)"
    using assms by (intro wp_mono [OF cprintf_body_spec [OF _ assms(2)]])
      (auto simp: can_print_def said_def printed_calm printedD printed_sel)
  then show ?thesis using False by (simp add: cprintf_def)
qed

lemma said_print:
  assumes "said bs s t" "can_print c s"
  shows "can_print c t"
  using assms by (simp add: said_def can_print_def calm_def machine_ok_def unlocked_def)

lemma said_trans: "said bs s t \<Longrightarrow> said bs' t u \<Longrightarrow> said (bs @ bs') s u"
  by (auto simp: said_def intro: calm_trans)

text \<open>
  Property C20. On a machine whose console lock is free, \<open>cprintf\<close> returns, sends exactly the text of its format down the
  serial line, keeps the cursor inside the 24 scrolling rows (so its overflow panic is never reached), and leaves
  the locks, the interrupt flags and the process table as they were.
\<close>

theorem cprintf_prints:
  assumes "can_print c s" "render fmt args = Ok str"
  shows "wp (cprintf c fmt args s) (\<lambda>t. uart_out t = uart_out s @ (if uart s then str_bytes str else []) \<and>
    unat (crt_pos t) < 24 * 80 \<and> locks t = locks s \<and> eflags_if t = eflags_if s \<and> procs t = procs s \<and>
    plist t = plist s \<and> ready t = ready s)"
  by (rule wp_mono [OF cprintf_spec [OF assms]]) (auto simp: said_def cons_ok_def calm_def)

definition sample_cons :: cons_state where
  "sample_cons = kstate.extend sample (cons_state.fields True False (\<lambda>_. 0) 1919 True []
     \<lparr>in_buf = (\<lambda>_. 0), in_r = 0, in_w = 0, in_e = 0\<rparr>)"

lemma sample_cons_fields [simp]:
  "procs sample_cons = procs sample" "plist sample_cons = plist sample" "ready sample_cons = ready sample"
  "locks sample_cons = locks sample" "cpus sample_cons = cpus sample" "ncpu sample_cons = ncpu sample"
  "lapic_id sample_cons = lapic_id sample" "eflags_if sample_cons = eflags_if sample" "ticks sample_cons = ticks sample"
  "uart sample_cons" "uart_out sample_cons = []" "crt_pos sample_cons = 1919" "\<not> panicked sample_cons" "cons_locking sample_cons"
  "input sample_cons = \<lparr>in_buf = (\<lambda>_. 0), in_r = 0, in_w = 0, in_e = 0\<rparr>"
  by (simp_all add: sample_cons_def kstate.defs cons_state.defs)

lemma sample_can_print: "can_print 0 sample_cons"
proof -
  have "machine_ok sample" "locks sample Lk_cons = \<lparr>lk_locked = False, lk_cpu = None\<rparr>"
    using sample_at_rest by (simp_all add: at_rest_def sample_def)
  then show ?thesis by (simp add: can_print_def cons_ok_def unlocked_def machine_ok_def)
qed

theorem cprintf_prints_witness:
  "render ''pid %d: %s %%%x'' [Num (- 5), Str None, Num 0xbeef] = Ok ''pid -5: (null) %beef'' \<and>
   wp (cprintf 0 ''pid %d: %s %%%x'' [Num (- 5), Str None, Num 0xbeef] sample_cons)
     (\<lambda>t. uart_out t = str_bytes ''pid -5: (null) %beef'')"
proof -
  have r: "render ''pid %d: %s %%%x'' [Num (- 5), Str None, Num 0xbeef] = Ok ''pid -5: (null) %beef''"
    by (simp add: printint_str_def rev_digits.simps digit_def)
  show ?thesis
    using r wp_mono [OF cprintf_prints [OF sample_can_print r]] by simp
qed

end
