(* ===== verification/Proc_Query.thy ===== *)
theory Proc_Query
  imports Proc_Exit Console_Out
begin

text \<open>
  Reading the process table: the credentials and \<open>getprocs\<close> of \<open>proc.c\<close> and the console dumps
  (\<open>procdump\<close> in its four compile-time variants, \<open>runnabledump\<close>, \<open>unuseddump\<close>, \<open>sleepdump\<close>,
  \<open>zombiedump\<close>).
\<close>

section \<open>Credentials\<close>

definition getuid :: "nat \<Rightarrow> 'a kstate_scheme \<Rightarrow> (int \<times> 'a kstate_scheme) res" where
  "getuid c s =
     rbind (acquire c Lk_ptable s) (\<lambda>s.
     rbind (myproc c s) (\<lambda>(mp, s).
     case mp of
       None \<Rightarrow> Undef
     | Some p \<Rightarrow> let ret = sint (p_uid (procs s p)) in rbind (release c Lk_ptable s) (\<lambda>s. Ok (ret, s))))"

definition getgid :: "nat \<Rightarrow> 'a kstate_scheme \<Rightarrow> (int \<times> 'a kstate_scheme) res" where
  "getgid c s =
     rbind (acquire c Lk_ptable s) (\<lambda>s.
     rbind (myproc c s) (\<lambda>(mp, s).
     case mp of
       None \<Rightarrow> Undef
     | Some p \<Rightarrow> let ret = sint (p_gid (procs s p)) in rbind (release c Lk_ptable s) (\<lambda>s. Ok (ret, s))))"

text \<open>\<open>if(p->parent == NULL) p->pid else p->parent->pid\<close>.\<close>

definition ppid_of :: "'a kstate_scheme \<Rightarrow> nat \<Rightarrow> uint" where
  "ppid_of s p = (case p_parent (procs s p) of None \<Rightarrow> p_pid (procs s p) | Some q \<Rightarrow> p_pid (procs s q))"

definition getppid :: "nat \<Rightarrow> 'a kstate_scheme \<Rightarrow> (int \<times> 'a kstate_scheme) res" where
  "getppid c s =
     rbind (acquire c Lk_ptable s) (\<lambda>s.
     rbind (myproc c s) (\<lambda>(mp, s).
     case mp of
       None \<Rightarrow> Undef
     | Some p \<Rightarrow> let ret = sint (ppid_of s p) in rbind (release c Lk_ptable s) (\<lambda>s. Ok (ret, s))))"

definition setuid :: "nat \<Rightarrow> uint \<Rightarrow> 'a kstate_scheme \<Rightarrow> (int \<times> 'a kstate_scheme) res" where
  "setuid c uid s =
     rbind (acquire c Lk_ptable s) (\<lambda>s.
     rbind (myproc c s) (\<lambda>(mp, s).
     case mp of
       None \<Rightarrow> Undef
     | Some p \<Rightarrow> rbind (release c Lk_ptable (upd_proc p (p_uid_update (\<lambda>_. uid)) s)) (\<lambda>s. Ok (0, s))))"

definition setgid :: "nat \<Rightarrow> uint \<Rightarrow> 'a kstate_scheme \<Rightarrow> (int \<times> 'a kstate_scheme) res" where
  "setgid c gid s =
     rbind (acquire c Lk_ptable s) (\<lambda>s.
     rbind (myproc c s) (\<lambda>(mp, s).
     case mp of
       None \<Rightarrow> Undef
     | Some p \<Rightarrow> rbind (release c Lk_ptable (upd_proc p (p_gid_update (\<lambda>_. gid)) s)) (\<lambda>s. Ok (0, s))))"

section \<open>getprocs\<close>

definition STRMAX :: nat where "STRMAX = 32"

record uproc =
  u_pid :: uint
  u_uid :: uint
  u_gid :: uint
  u_ppid :: uint
  u_priority :: uint
  u_elapsed_ticks :: uint
  u_CPU_total_ticks :: uint
  u_state :: string
  u_size :: uint
  u_name :: string

definition states :: "procstate \<Rightarrow> string" where
  "states st = (case st of UNUSED \<Rightarrow> ''unused'' | EMBRYO \<Rightarrow> ''embryo'' | SLEEPING \<Rightarrow> ''sleep ''
     | RUNNABLE \<Rightarrow> ''runble'' | RUNNING \<Rightarrow> ''run   '' | ZOMBIE \<Rightarrow> ''zombie'')"

definition uproc_of :: "'a kstate_scheme \<Rightarrow> nat \<Rightarrow> uproc" where
  "uproc_of s p =
     \<lparr>u_pid = p_pid (procs s p), u_uid = p_uid (procs s p), u_gid = p_gid (procs s p), u_ppid = ppid_of s p,
      u_priority = of_int (p_priority (procs s p)), u_elapsed_ticks = ticks s - p_start_ticks (procs s p),
      u_CPU_total_ticks = p_cpu_ticks_total (procs s p),
      u_state = take (STRMAX - 1) (states (p_state (procs s p))), u_size = p_sz (procs s p),
      u_name = take (STRMAX - 1) (p_name (procs s p))\<rparr>"

text \<open>The rows written so far; the test \<open>num == max\<close> comes after the row is written.\<close>

fun getprocs_loop :: "nat list \<Rightarrow> int \<Rightarrow> uproc list \<Rightarrow> 'a kstate_scheme \<Rightarrow> uproc list" where
  "getprocs_loop [] mx rows s = rows"
| "getprocs_loop (p # ps) mx rows s =
     (let rows = (if p_state (procs s p) \<in> {RUNNABLE, SLEEPING, RUNNING, ZOMBIE} then rows @ [uproc_of s p] else rows)
      in if int (length rows) = mx then rows else getprocs_loop ps mx rows s)"

definition getprocs :: "nat \<Rightarrow> int \<Rightarrow> 'a kstate_scheme \<Rightarrow> (int \<times> uproc list \<times> 'a kstate_scheme) res" where
  "getprocs c mx s =
     rbind (acquire c Lk_ptable s) (\<lambda>s.
     let rows = getprocs_loop [0..<NPROC] mx [] s
     in rbind (release c Lk_ptable s) (\<lambda>s. Ok (int (length rows), rows, s)))"

section \<open>Console dumps\<close>

definition TAB :: string where "TAB = [CHR 0x09]"

fun spaces :: "nat \<Rightarrow> nat \<Rightarrow> 'a cons_state_scheme \<Rightarrow> 'a cons_state_scheme res" where
  "spaces c 0 s = Ok s"
| "spaces c (Suc k) s = rbind (cprintf c '' '' [] s) (spaces c k)"

text \<open>A tick count as seconds and milliseconds; \<open>t\<close> is an \<open>int\<close>, \<open>/\<close> and \<open>%\<close> truncate.\<close>

definition put_time :: "nat \<Rightarrow> uint \<Rightarrow> string \<Rightarrow> fmtarg list \<Rightarrow> 'a cons_state_scheme \<Rightarrow> 'a cons_state_scheme res" where
  "put_time c t rest args s =
     (let sec = sgn (sint t) * (abs (sint t) div 1000);
          mill = sgn (sint t) * (abs (sint t) mod 1000);
          nums = [Num (of_int sec), Num (of_int mill)]
      in if mill < 10 then cprintf c (''%d.00%d'' @ rest) (nums @ args) s
         else if 10 \<le> mill \<and> mill < 100 then cprintf c (''%d.0%d'' @ rest) (nums @ args) s
         else cprintf c (''%d.%d'' @ rest) (nums @ args) s)"

definition put_name :: "nat \<Rightarrow> nat \<Rightarrow> 'a cons_state_scheme \<Rightarrow> 'a cons_state_scheme res" where
  "put_name c p s =
     (let spacer = 13 - int (length (p_name (procs s p)))
      in rbind (cprintf c (''%d'' @ TAB @ ''%s'') [Num (p_pid (procs s p)), Str (Some (p_name (procs s p)))] s)
           (spaces c (nat spacer)))"

definition procdumpP4 :: "nat \<Rightarrow> nat \<Rightarrow> string \<Rightarrow> 'a cons_state_scheme \<Rightarrow> 'a cons_state_scheme res" where
  "procdumpP4 c p st s =
     rbind (put_name c p s) (\<lambda>s.
     rbind (cprintf c (''%d'' @ TAB @ TAB @ ''%d'' @ TAB @ ''%d'' @ TAB @ ''%d'' @ TAB)
       [Num (p_uid (procs s p)), Num (p_gid (procs s p)), Num (ppid_of s p), Num (of_int (p_priority (procs s p)))] s) (\<lambda>s.
     rbind (put_time c (ticks s - p_start_ticks (procs s p)) TAB [] s) (\<lambda>s.
     rbind (put_time c (p_cpu_ticks_total (procs s p)) TAB [] s) (\<lambda>s.
     cprintf c (''%s'' @ TAB @ ''%d'' @ TAB) [Str (Some st), Num (p_sz (procs s p))] s))))"

definition procdumpP3 :: "nat \<Rightarrow> nat \<Rightarrow> string \<Rightarrow> 'a cons_state_scheme \<Rightarrow> 'a cons_state_scheme res" where
  "procdumpP3 c p st s =
     rbind (put_name c p s) (\<lambda>s.
     rbind (cprintf c (''%d'' @ TAB @ TAB @ ''%d'' @ TAB @ ''%d'' @ TAB)
       [Num (p_uid (procs s p)), Num (p_gid (procs s p)), Num (ppid_of s p)] s) (\<lambda>s.
     rbind (put_time c (ticks s - p_start_ticks (procs s p)) TAB [] s) (\<lambda>s.
     rbind (put_time c (p_cpu_ticks_total (procs s p)) TAB [] s) (\<lambda>s.
     cprintf c (''%s'' @ TAB @ ''%d'' @ TAB) [Str (Some st), Num (p_sz (procs s p))] s))))"

text \<open>The P2 variant is the P3 one, line for line.\<close>

definition procdumpP2 :: "nat \<Rightarrow> nat \<Rightarrow> string \<Rightarrow> 'a cons_state_scheme \<Rightarrow> 'a cons_state_scheme res" where
  "procdumpP2 c p st s =
     rbind (put_name c p s) (\<lambda>s.
     rbind (cprintf c (''%d'' @ TAB @ TAB @ ''%d'' @ TAB @ ''%d'' @ TAB)
       [Num (p_uid (procs s p)), Num (p_gid (procs s p)), Num (ppid_of s p)] s) (\<lambda>s.
     rbind (put_time c (ticks s - p_start_ticks (procs s p)) TAB [] s) (\<lambda>s.
     rbind (put_time c (p_cpu_ticks_total (procs s p)) TAB [] s) (\<lambda>s.
     cprintf c (''%s'' @ TAB @ ''%d'' @ TAB) [Str (Some st), Num (p_sz (procs s p))] s))))"

definition procdumpP1 :: "nat \<Rightarrow> nat \<Rightarrow> string \<Rightarrow> 'a cons_state_scheme \<Rightarrow> 'a cons_state_scheme res" where
  "procdumpP1 c p st s =
     rbind (put_name c p s) (\<lambda>s.
     put_time c (ticks s - p_start_ticks (procs s p)) (TAB @ ''%s'' @ TAB @ ''%d'' @ TAB)
       [Str (Some st), Num (p_sz (procs s p))] s)"

text \<open>The project the kernel was built for selects the heading and the row.\<close>

datatype project = P0 | P1 | P2 | P3 | P4

definition HEADER :: "project \<Rightarrow> string" where
  "HEADER pj = (case pj of
       P4 \<Rightarrow> ''\<newline>PID'' @ TAB @ ''Name         UID'' @ TAB @ ''GID'' @ TAB @ ''PPID'' @ TAB @ ''Prio'' @ TAB @ ''Elapsed'' @ TAB
               @ ''CPU'' @ TAB @ ''State'' @ TAB @ ''Size'' @ TAB @ '' PCs\<newline>''
     | P3 \<Rightarrow> ''\<newline>PID'' @ TAB @ ''Name         UID'' @ TAB @ ''GID'' @ TAB @ ''PPID'' @ TAB @ ''Elapsed'' @ TAB
               @ ''CPU'' @ TAB @ ''State'' @ TAB @ ''Size'' @ TAB @ '' PCs\<newline>''
     | P2 \<Rightarrow> ''\<newline>PID'' @ TAB @ ''Name         UID'' @ TAB @ ''GID'' @ TAB @ ''PPID'' @ TAB @ ''Elapsed'' @ TAB
               @ ''CPU'' @ TAB @ ''State'' @ TAB @ ''Size'' @ TAB @ '' PCs\<newline>''
     | P1 \<Rightarrow> ''\<newline>PID'' @ TAB @ ''Name         Elapsed'' @ TAB @ ''State'' @ TAB @ ''Size'' @ TAB @ '' PCs\<newline>''
     | P0 \<Rightarrow> ''\<newline>'')"

definition procdump_row :: "project \<Rightarrow> nat \<Rightarrow> nat \<Rightarrow> string \<Rightarrow> 'a cons_state_scheme \<Rightarrow> 'a cons_state_scheme res" where
  "procdump_row pj c p st s =
     (case pj of
        P4 \<Rightarrow> procdumpP4 c p st s
      | P3 \<Rightarrow> procdumpP3 c p st s
      | P2 \<Rightarrow> procdumpP2 c p st s
      | P1 \<Rightarrow> procdumpP1 c p st s
      | P0 \<Rightarrow> cprintf c (''%d'' @ TAB @ ''%s'' @ TAB @ ''%s'' @ TAB)
                [Num (p_pid (procs s p)), Str (Some (p_name (procs s p))), Str (Some st)] s)"

fun put_pcs :: "nat \<Rightarrow> uint list \<Rightarrow> 'a cons_state_scheme \<Rightarrow> 'a cons_state_scheme res" where
  "put_pcs c [] s = Ok s"
| "put_pcs c (pc # pcs) s = (if pc = 0 then Ok s else rbind (cprintf c '' %p'' [Num pc] s) (put_pcs c pcs))"

text \<open>\<open>ebp p\<close> is the frame pointer saved in the context of \<open>p\<close>, \<open>mem\<close> the words of the kernel stacks.\<close>

fun procdump_loop ::
  "project \<Rightarrow> nat \<Rightarrow> (uint \<Rightarrow> uint) \<Rightarrow> (nat \<Rightarrow> uint) \<Rightarrow> nat list \<Rightarrow> 'a cons_state_scheme \<Rightarrow> 'a cons_state_scheme res" where
  "procdump_loop pj c mem ebp [] s = Ok s"
| "procdump_loop pj c mem ebp (p # ps) s =
     (if p_state (procs s p) = UNUSED then procdump_loop pj c mem ebp ps s
      else
        rbind (procdump_row pj c p (states (p_state (procs s p))) s) (\<lambda>s.
        rbind (if p_state (procs s p) = SLEEPING then put_pcs c (getcallerpcs mem (ebp p + 8)) s else Ok s) (\<lambda>s.
        rbind (cprintf c ''\<newline>'' [] s) (procdump_loop pj c mem ebp ps))))"

definition procdump ::
  "project \<Rightarrow> nat \<Rightarrow> (uint \<Rightarrow> uint) \<Rightarrow> (nat \<Rightarrow> uint) \<Rightarrow> 'a cons_state_scheme \<Rightarrow> 'a cons_state_scheme res" where
  "procdump pj c mem ebp s =
     rbind (cprintf c (HEADER pj) [] s) (\<lambda>s.
     rbind (procdump_loop pj c mem ebp [0..<NPROC] s) (\<lambda>s.
     if pj = P0 then Ok s else cprintf c ''$ '' [] s))"

text \<open>
  The walk shared by the list dumps: print the node, then an arrow if another follows. At most
  \<open>NPROC\<close> nodes on an acyclic list.
\<close>

fun dump_walk ::
  "(nat \<Rightarrow> 'a cons_state_scheme \<Rightarrow> 'a cons_state_scheme res) \<Rightarrow> nat \<Rightarrow> nat \<Rightarrow> ptr \<Rightarrow> 'a cons_state_scheme \<Rightarrow> 'a cons_state_scheme res" where
  "dump_walk row c 0 pp s = Hang"
| "dump_walk row c (Suc k) pp s =
     (case pp of
        None \<Rightarrow> Ok s
      | Some p \<Rightarrow>
          rbind (row p s) (\<lambda>s.
          rbind (if p_next (procs s p) \<noteq> None then cprintf c ''->'' [] s else Ok s) (\<lambda>s.
          dump_walk row c k (p_next (procs s p)) s)))"

definition row_pid :: "nat \<Rightarrow> nat \<Rightarrow> 'a cons_state_scheme \<Rightarrow> 'a cons_state_scheme res" where
  "row_pid c p s = cprintf c ''%d'' [Num (p_pid (procs s p))] s"

definition row_budget :: "nat \<Rightarrow> nat \<Rightarrow> 'a cons_state_scheme \<Rightarrow> 'a cons_state_scheme res" where
  "row_budget c p s = cprintf c ''(%d, %d)'' [Num (p_pid (procs s p)), Num (p_budget (procs s p))] s"

definition row_zombie :: "nat \<Rightarrow> nat \<Rightarrow> 'a cons_state_scheme \<Rightarrow> 'a cons_state_scheme res" where
  "row_zombie c p s = cprintf c ''(%d, %d)'' [Num (p_pid (procs s p)), Num (ppid_of s p)] s"

fun dump_ready :: "nat \<Rightarrow> nat list \<Rightarrow> 'a cons_state_scheme \<Rightarrow> 'a cons_state_scheme res" where
  "dump_ready c [] s = Ok s"
| "dump_ready c (i # is) s =
     (let pp = q_head (get_ptrs (RL i) s)
      in rbind (cprintf c ''%d: '' [Num (of_nat i)] s) (\<lambda>s.
         rbind (dump_walk (row_budget c) c (Suc NPROC) pp s) (\<lambda>s.
         rbind (cprintf c ''\<newline>'' [] s) (dump_ready c is))))"

definition runnabledump_P4 :: "nat \<Rightarrow> 'a cons_state_scheme \<Rightarrow> 'a cons_state_scheme res" where
  "runnabledump_P4 c s =
     rbind (cprintf c ''Ready List Processes:\<newline>'' [] s) (\<lambda>s.
     rbind (acquire c Lk_ptable s) (\<lambda>s.
     rbind (dump_ready c (rev [0..<Suc (nat MAXPRIO)]) s) (\<lambda>s.
     rbind (release c Lk_ptable s) (\<lambda>s.
     rbind (cprintf c ''\<newline>'' [] s) (\<lambda>s.
     cprintf c ''$ '' [] s)))))"

text \<open>\<open>runnabledump\<close> (P3), \<open>sleepdump\<close> and \<open>zombiedump\<close> differ in the title, the list and the row.\<close>

definition list_dump ::
  "string \<Rightarrow> listref \<Rightarrow> (nat \<Rightarrow> 'a cons_state_scheme \<Rightarrow> 'a cons_state_scheme res) \<Rightarrow> nat \<Rightarrow> 'a cons_state_scheme \<Rightarrow> 'a cons_state_scheme res" where
  "list_dump title l row c s =
     rbind (cprintf c title [] s) (\<lambda>s.
     rbind (acquire c Lk_ptable s) (\<lambda>s.
     let pp = q_head (get_ptrs l s)
     in rbind (if pp \<noteq> None then cprintf c ''\<newline> '' [] s else Ok s) (\<lambda>s.
        rbind (dump_walk row c (Suc NPROC) pp s) (\<lambda>s.
        rbind (release c Lk_ptable s) (\<lambda>s.
        rbind (cprintf c ''\<newline>'' [] s) (\<lambda>s.
        cprintf c ''$ '' [] s))))))"

definition runnabledump_P3 :: "nat \<Rightarrow> 'a cons_state_scheme \<Rightarrow> 'a cons_state_scheme res" where
  "runnabledump_P3 c s = list_dump ''Ready List Processes:'' (SL RUNNABLE) (row_pid c) c s"

definition sleepdump :: "nat \<Rightarrow> 'a cons_state_scheme \<Rightarrow> 'a cons_state_scheme res" where
  "sleepdump c s = list_dump ''Sleep List Processes:'' (SL SLEEPING) (row_pid c) c s"

definition zombiedump :: "nat \<Rightarrow> 'a cons_state_scheme \<Rightarrow> 'a cons_state_scheme res" where
  "zombiedump c s = list_dump ''Zombie List Processes:'' (SL ZOMBIE) (row_zombie c) c s"

fun count_list :: "nat \<Rightarrow> ptr \<Rightarrow> nat \<Rightarrow> 'a kstate_scheme \<Rightarrow> nat res" where
  "count_list 0 pp u s = Hang"
| "count_list (Suc k) pp u s = (case pp of None \<Rightarrow> Ok u | Some p \<Rightarrow> count_list k (p_next (procs s p)) (u + 1) s)"

definition unuseddump :: "nat \<Rightarrow> 'a cons_state_scheme \<Rightarrow> 'a cons_state_scheme res" where
  "unuseddump c s =
     rbind (acquire c Lk_ptable s) (\<lambda>s.
     rbind (count_list (Suc NPROC) (q_head (get_ptrs (SL UNUSED) s)) 0 s) (\<lambda>u.
     rbind (release c Lk_ptable s) (\<lambda>s.
     rbind (cprintf c ''Free List Size: %d Processes\<newline>'' [Num (of_nat u)] s) (\<lambda>s.
     cprintf c ''$ '' [] s))))"

section \<open>Credentials\<close>

lemma in_ptable_myproc: "in_ptable c s \<Longrightarrow> myproc c s = Ok (c_proc (cpus s c), s)"
  by (simp add: in_ptable_def myproc_eq touched_nested)

lemma ppid_of_acquired [simp]: "ppid_of (acquired c lk s) p = ppid_of s p"
  by (simp add: ppid_of_def split: option.split)

text \<open>A critical section that updates one slot.\<close>

definition section_upd :: "nat \<Rightarrow> nat \<Rightarrow> (proc \<Rightarrow> proc) \<Rightarrow> 'a kstate_scheme \<Rightarrow> 'a kstate_scheme" where
  "section_upd c p f s = released c Lk_ptable (upd_proc p f (acquired c Lk_ptable s))"

lemma section_upd_simps:
  assumes "at_rest c s"
  shows "at_rest c (section_upd c p f s)" "c_proc (cpus (section_upd c p f s) c) = c_proc (cpus s c)"
    "procs (section_upd c p f s) = (procs s)(p := f (procs s p))"
proof -
  have i: "in_ptable c (upd_proc p f (acquired c Lk_ptable s))" using in_ptable_acquired [OF assms] by simp
  show "at_rest c (section_upd c p f s)" "c_proc (cpus (section_upd c p f s) c) = c_proc (cpus s c)"
    unfolding section_upd_def using released_state(1,3) [OF i] acquired_rest(2) [OF assms] by simp_all
  show "procs (section_upd c p f s) = (procs s)(p := f (procs s p))" by (simp add: section_upd_def upd_proc_def)
qed

lemma credentials_eq:
  assumes "at_rest c s" "c_proc (cpus s c) = Some p"
  shows "setuid c u s = Ok (0, section_upd c p (p_uid_update (\<lambda>_. u)) s)"
    "setgid c u s = Ok (0, section_upd c p (p_gid_update (\<lambda>_. u)) s)"
    "getuid c s = Ok (sint (p_uid (procs s p)), section_upd c p (\<lambda>k. k) s)"
    "getgid c s = Ok (sint (p_gid (procs s p)), section_upd c p (\<lambda>k. k) s)"
    "getppid c s = Ok (sint (ppid_of s p), section_upd c p (\<lambda>k. k) s)"
proof -
  let ?a = "acquired c Lk_ptable s"
  have a: "in_ptable c ?a" by (rule in_ptable_acquired [OF assms(1)])
  have m: "myproc c ?a = Ok (Some p, ?a)"
    using in_ptable_myproc [OF a] acquired_rest(2) [OF assms(1)] assms(2) by simp
  have r: "release c Lk_ptable (upd_proc p f ?a) = Ok (section_upd c p f s)" for f
    using in_ptable_release [of c "upd_proc p f ?a"] a by (simp add: section_upd_def)
  have id: "upd_proc p (\<lambda>k. k) ?a = ?a" by (simp add: upd_proc_def)
  show "setuid c u s = Ok (0, section_upd c p (p_uid_update (\<lambda>_. u)) s)"
    "setgid c u s = Ok (0, section_upd c p (p_gid_update (\<lambda>_. u)) s)"
    "getuid c s = Ok (sint (p_uid (procs s p)), section_upd c p (\<lambda>k. k) s)"
    "getgid c s = Ok (sint (p_gid (procs s p)), section_upd c p (\<lambda>k. k) s)"
    "getppid c s = Ok (sint (ppid_of s p), section_upd c p (\<lambda>k. k) s)"
    using r [of "\<lambda>k. k"] unfolding id
    by (simp_all add: setuid_def setgid_def getuid_def getgid_def getppid_def at_rest_acquire [OF assms(1)] m r)
qed

text \<open>
  Property C23. The credentials round trip: after \<open>setuid\<close> and \<open>setgid\<close> by a running process, \<open>getuid\<close> and \<open>getgid\<close> return
  the values given, as signed ints, whatever they are, and no other slot has changed.
\<close>

theorem setuid_getuid:
  assumes "at_rest c s" "c_proc (cpus s c) = Some p"
  shows "wp (rbind (setuid c u s) (\<lambda>(r, s). rbind (setgid c g s) (\<lambda>(r', s). rbind (getuid c s) (\<lambda>(u', s).
      rbind (getgid c s) (\<lambda>(g', s). Ok (r, r', u', g', s))))))
    (\<lambda>(r, r', u', g', t). r = 0 \<and> r' = 0 \<and> u' = sint u \<and> g' = sint g \<and> at_rest c t \<and>
       procs t = (procs s)(p := (procs s p)\<lparr>p_uid := u, p_gid := g\<rparr>))"
  using assms by (simp add: credentials_eq section_upd_simps)

theorem setuid_getuid_witness:
  "wp (rbind (setuid 0 7 sample) (\<lambda>(r, s). rbind (setgid 0 (- 1) s) (\<lambda>(r', s). rbind (getuid 0 s) (\<lambda>(u', s).
      rbind (getgid 0 s) (\<lambda>(g', s). Ok (r, r', u', g', s))))))
    (\<lambda>(r, r', u', g', t). r = 0 \<and> u' = 7 \<and> g' = -1 \<and> p_pid (procs t 0) = 2)"
  by (rule wp_mono [OF setuid_getuid [OF sample_at_rest, of 0 7 "- 1"]]) (auto simp: sample_proc_def user_proc_def)

section \<open>getprocs\<close>

definition active_rows :: "'a kstate_scheme \<Rightarrow> nat list \<Rightarrow> uproc list" where
  "active_rows s ps = map (uproc_of s) (filter (\<lambda>p. p_state (procs s p) \<in> {RUNNABLE, SLEEPING, RUNNING, ZOMBIE}) ps)"

lemma getprocs_loop_take:
  assumes "0 < mx" "int (length rows) < mx"
  shows "getprocs_loop ps mx rows s = take (nat mx) (rows @ active_rows s ps)"
  using assms
proof (induction ps arbitrary: rows)
  case Nil
  then show ?case by (simp add: active_rows_def)
next
  case (Cons p ps)
  let ?r = "if p_state (procs s p) \<in> {RUNNABLE, SLEEPING, RUNNING, ZOMBIE} then rows @ [uproc_of s p] else rows"
  have e: "rows @ active_rows s (p # ps) = ?r @ active_rows s ps" by (simp add: active_rows_def)
  show ?case
  proof (cases "int (length ?r) = mx")
    case True
    then have "take (nat mx) (?r @ active_rows s ps) = ?r" by auto
    then show ?thesis using True unfolding e by (simp add: Let_def split del: if_split)
  next
    case False
    then have "int (length ?r) < mx" using Cons.prems by (auto split: if_splits)
    then have "getprocs_loop ps mx ?r s = take (nat mx) (?r @ active_rows s ps)" using Cons.IH [of ?r] Cons.prems(1) by simp
    then show ?thesis using False unfolding e by (simp add: Let_def split del: if_split)
  qed
qed

text \<open>With a bound of zero or less the limit has no effect once a row is written.\<close>

lemma getprocs_loop_all:
  assumes "mx \<le> 0" "rows \<noteq> [] \<or> mx < 0"
  shows "getprocs_loop ps mx rows s = rows @ active_rows s ps"
  using assms
proof (induction ps arbitrary: rows)
  case (Cons p ps)
  then show ?case by (auto simp: active_rows_def Let_def)
qed (simp add: active_rows_def)

text \<open>
  Property C22. \<open>getprocs(max, table)\<close> for a positive bound writes at most \<open>max\<close> rows and never more than the table of
  processes holds: the rows are the first \<open>max\<close> active processes in slot order, and the result is their number.
  (With a bound of zero or less the limit has no effect.)
\<close>

theorem getprocs_rows:
  assumes "at_rest c s" "0 < mx"
  shows "wp (getprocs c mx s) (\<lambda>(r, rows, t). r = int (length rows) \<and> r \<le> mx \<and> length rows \<le> NPROC \<and> at_rest c t \<and>
    procs t = procs s \<and>
    rows = take (nat mx) (active_rows s [0..<NPROC]))"
proof -
  let ?a = "acquired c Lk_ptable s"
  note a = in_ptable_acquired [OF assms(1)]
  have u: "uproc_of ?a = uproc_of s" using acquired_rest(3) [OF assms(1)] by (simp add: uproc_of_def fun_eq_iff)
  have "active_rows ?a ps = active_rows s ps" for ps by (simp add: active_rows_def u)
  moreover have "length (active_rows s [0..<NPROC]) \<le> NPROC"
    unfolding active_rows_def length_map using length_filter_le by (rule order_trans) simp
  ultimately show ?thesis
    using released_state(1) [OF a] assms(2)
    by (simp add: getprocs_def at_rest_acquire [OF assms(1)] in_ptable_release [OF a] getprocs_loop_take min.coboundedI2 min.coboundedI1)
qed

theorem getprocs_rows_witness:
  "wp (getprocs 0 2 sample) (\<lambda>(r, rows, t). r = 2 \<and> map u_pid rows = [2, 1])"
proof -
  have "[0..<NPROC] = 0 # 1 # [2..<NPROC]" by (simp add: NPROC_def upt_rec)
  then have "take 2 (active_rows sample [0..<NPROC]) = [uproc_of sample 0, uproc_of sample 1]"
    by (simp add: active_rows_def sample_proc_def user_proc_def)
  then show ?thesis
    by (intro wp_mono [OF getprocs_rows [OF sample_at_rest, of 2]]) (auto simp: uproc_of_def sample_proc_def user_proc_def)
qed

section \<open>Dumps change nothing but the console\<close>

definition utters :: "'a cons_state_scheme \<Rightarrow> 'a cons_state_scheme res \<Rightarrow> bool" where
  "utters s m \<longleftrightarrow> wp m (\<lambda>t. \<exists>bs. said bs s t)"

lemma utters_cprintf:
  assumes "can_print c s" "wp (render fmt args) (\<lambda>_. True)"
  shows "utters s (cprintf c fmt args s)"
proof -
  obtain str where "render fmt args = Ok str" using assms(2) by (auto simp: wp_iff)
  then show ?thesis unfolding utters_def using cprintf_spec [OF assms(1)] by (blast intro: wp_mono)
qed

lemma said_refl: "cons_ok s \<Longrightarrow> said [] s s"
  by (simp add: said_def calm_def)

lemma utters_Ok: "can_print c s \<Longrightarrow> utters s (Ok s)"
  by (auto simp: utters_def can_print_def intro: said_refl)

lemma utters_bind:
  assumes "can_print c s" "utters s m" "\<And>t. can_print c t \<Longrightarrow> calm s t \<Longrightarrow> utters t (f t)"
  shows "utters s (rbind m f)"
  unfolding utters_def
proof (rule wp_bindI [OF assms(2) [unfolded utters_def]], elim exE)
  fix t bs
  assume t: "said bs s t"
  then have "can_print c t" "calm s t" using said_print [OF t assms(1)] by (simp_all add: said_def)
  then have "utters t (f t)" by (rule assms(3))
  then show "wp (f t) (\<lambda>t. \<exists>bs. said bs s t)"
    unfolding utters_def by (rule wp_mono) (use said_trans [OF t] in blast)
qed

lemma utters_section:
  assumes "can_print c s" "unlocked Lk_ptable s" "\<And>t. can_print c t \<Longrightarrow> calm (acquired c Lk_ptable s) t \<Longrightarrow> utters t (m t)"
  shows "utters s (rbind (acquire c Lk_ptable s) (\<lambda>s. rbind (m s) (release c Lk_ptable)))"
proof -
  let ?a = "acquired c Lk_ptable s"
  have m: "machine_ok s" "c < ncpu s" using assms(1) by (simp_all add: can_print_def)
  have "machine_ok ?a" "c < ncpu ?a" "locks ?a Lk_cons = locks s Lk_cons"
    using m by (simp add: acquired_def, simp add: acquired_def, simp add: acquired_def set_lock_def pushed_def)
  then have "can_print c ?a" using assms(1) by (simp add: can_print_def unlocked_def)
  then have "utters ?a (m ?a)" by (intro assms(3)) (simp_all add: calm_def)
  then have "wp (rbind (m ?a) (release c Lk_ptable)) (\<lambda>t. \<exists>bs. said bs s t)"
    unfolding utters_def
  proof (rule wp_bindI, elim exE)
    fix t bs
    assume t: "said bs ?a t"
    then have "calm ?a t" by (simp add: said_def)
    note r = calm_section [OF m assms(2) this]
    have "said bs s (released c Lk_ptable t)" using t r(2) by (simp add: said_def)
    then show "wp (release c Lk_ptable t) (\<lambda>t. \<exists>bs. said bs s t)" using r(1) by auto
  qed
  moreover have "acquire c Lk_ptable s = Ok ?a"
    using m assms(2) by (intro acquire_eq) (simp_all add: unlocked_def lock_free_def)
  ultimately show ?thesis by (simp add: utters_def)
qed

lemmas utters_intros = utters_bind utters_cprintf utters_Ok

lemma utters_spaces: "can_print c s \<Longrightarrow> utters s (spaces c k s)"
proof (induction k arbitrary: s)
  case (Suc k)
  then show ?case unfolding spaces.simps by (intro utters_intros) simp_all
qed (simp add: utters_Ok)

lemma utters_put_name: "can_print c s \<Longrightarrow> utters s (put_name c p s)"
  unfolding put_name_def Let_def by (intro utters_intros utters_spaces) (simp_all add: TAB_def)

lemma utters_put_time:
  assumes "can_print c s" "wp (render rest args) (\<lambda>_. True)" "rest \<noteq> []"
  shows "utters s (put_time c t rest args s)"
proof -
  obtain r rs where r: "rest = r # rs" using assms(3) by (cases rest) auto
  have w: "wp (render (''%d.00%d'' @ rest) (Num x # Num y # args)) (\<lambda>_. True)"
    "wp (render (''%d.0%d'' @ rest) (Num x # Num y # args)) (\<lambda>_. True)"
    "wp (render (''%d.%d'' @ rest) (Num x # Num y # args)) (\<lambda>_. True)" for x y
    using assms(2) unfolding r by simp_all
  show ?thesis
    unfolding put_time_def Let_def using assms(1) w
    by (auto intro!: utters_cprintf)
qed

lemma utters_procdump_row:
  assumes "can_print c s"
  shows "utters s (procdump_row pj c p st s)"
proof -
  have t: "can_print c s \<Longrightarrow> utters s (put_time c t TAB [] s)" for t and s :: "'a cons_state_scheme"
    by (rule utters_put_time) (simp_all add: TAB_def)
  show ?thesis
    using assms
    by (cases pj) (simp_all only: procdump_row_def project.case procdumpP1_def procdumpP2_def procdumpP3_def procdumpP4_def;
      intro utters_intros utters_put_name t utters_put_time; simp add: TAB_def)+
qed

lemma utters_put_pcs: "can_print c s \<Longrightarrow> utters s (put_pcs c pcs s)"
proof (induction pcs arbitrary: s)
  case (Cons pc pcs)
  then show ?case unfolding put_pcs.simps by (auto intro!: utters_intros)
qed (simp add: utters_Ok)

lemma utters_procdump:
  assumes "can_print c s"
  shows "utters s (procdump pj c mem ebp s)"
proof -
  have loop: "utters s (procdump_loop pj c mem ebp ps s)" if "can_print c s" for ps and s :: "'a cons_state_scheme"
    using that
  proof (induction ps arbitrary: s)
    case (Cons p ps)
    have "utters s (rbind (procdump_row pj c p (states (p_state (procs s p))) s) (\<lambda>s.
        rbind (if p_state (procs s p) = SLEEPING then put_pcs c (getcallerpcs mem (ebp p + 8)) s else Ok s) (\<lambda>s.
        rbind (cprintf c ''\<newline>'' [] s) (procdump_loop pj c mem ebp ps))))"
      by (intro utters_bind [where c = c] utters_procdump_row utters_cprintf Cons.IH)
        (use Cons.prems in \<open>auto intro: utters_put_pcs utters_Ok\<close>)
    then show ?case using Cons by simp
  qed (simp add: utters_Ok)
  have "wp (render (HEADER pj) []) (\<lambda>_. True)" by (cases pj) (simp_all add: HEADER_def TAB_def)
  then show ?thesis
    unfolding procdump_def using assms
    by (intro utters_bind utters_cprintf loop) (auto intro: utters_Ok utters_cprintf)
qed

lemma utters_dump_walk:
  assumes "can_print c s" "\<And>p t. can_print c t \<Longrightarrow> utters t (row p t)" "linked (nx s) pp xs" "length xs < k"
  shows "utters s (dump_walk row c k pp s)"
  using assms(1,3,4)
proof (induction k arbitrary: s pp xs)
  case (Suc k)
  show ?case
  proof (cases xs)
    case Nil
    then show ?thesis using Suc.prems by (auto intro: utters_Ok)
  next
    case (Cons p ys)
    have "utters s (rbind (row p s) (\<lambda>s. rbind (if p_next (procs s p) \<noteq> None then cprintf c ''->'' [] s else Ok s) (\<lambda>s.
          dump_walk row c k (p_next (procs s p)) s)))"
    proof (intro utters_bind [where c = c] assms(2) Suc.prems(1))
      fix t u
      assume t: "can_print c t" "calm s t"
      show "utters t (if p_next (procs t p) \<noteq> None then cprintf c ''->'' [] t else Ok t)"
        using t(1) by (auto intro!: utters_cprintf utters_Ok)
      assume u: "can_print c u" "calm t u"
      have "procs u = procs s" using t(2) u(2) by (simp add: calm_def)
      then have "linked (nx u) (p_next (procs u p)) ys" using Suc.prems(2) Cons by (simp add: nx_def [abs_def])
      then show "utters u (dump_walk row c k (p_next (procs u p)) u)" using Suc.prems(3) Cons by (intro Suc.IH [OF u(1)]) auto
    qed
    then show ?thesis using Suc.prems(2) Cons by simp
  qed
qed simp

definition table_eq :: "'a kstate_scheme \<Rightarrow> 'b kstate_scheme \<Rightarrow> bool" where
  "table_eq s t \<longleftrightarrow> procs t = procs s \<and> plist t = plist s \<and> ready t = ready s"

lemma table_eq_calm: "calm s t \<Longrightarrow> table_eq s t"
  by (simp add: table_eq_def calm_def)

lemma table_eq_section: "calm s t \<Longrightarrow> calm (acquired c lk t) u \<Longrightarrow> table_eq s u"
  by (simp add: table_eq_def calm_def acquired_def set_lock_def pushed_def)

lemma table_eq_view:
  assumes "table_eq s t" "qinv s"
  shows "linked (nx t) (q_head (get_ptrs l t)) (view s l)" "length (view s l) < Suc NPROC"
proof -
  have "nx t = nx s" "get_ptrs l t = get_ptrs l s"
    using assms(1) by (simp_all add: table_eq_def nx_def [abs_def] get_ptrs_def split: listref.split)
  then show "linked (nx t) (q_head (get_ptrs l t)) (view s l)" "length (view s l) < Suc NPROC"
    using view_linked [OF assms(2), of l] by simp_all
qed

lemma utters_rows:
  "can_print c t \<Longrightarrow> utters t (row_pid c p t)" "can_print c t \<Longrightarrow> utters t (row_budget c p t)"
  "can_print c t \<Longrightarrow> utters t (row_zombie c p t)"
  by (simp_all add: row_pid_def row_budget_def row_zombie_def utters_cprintf)

lemma utters_tail:
  assumes "can_print c s"
  shows "utters s (rbind (cprintf c ''\<newline>'' [] s) (cprintf c ''$ '' []))"
  using assms by (intro utters_bind [where c = c] utters_cprintf) simp_all

lemma utters_list_body:
  assumes "can_print c t" "table_eq s t" "qinv s" "\<And>p t. can_print c t \<Longrightarrow> utters t (row p t)"
  shows "utters t (rbind (if q_head (get_ptrs l t) \<noteq> None then cprintf c ''\<newline> '' [] t else Ok t)
    (dump_walk row c (Suc NPROC) (q_head (get_ptrs l t))))"
proof (rule utters_bind [OF assms(1)])
  show "utters t (if q_head (get_ptrs l t) \<noteq> None then cprintf c ''\<newline> '' [] t else Ok t)"
    using assms(1) by (auto intro!: utters_cprintf utters_Ok)
  fix u
  assume u: "can_print c u" "calm t u"
  have "nx u = nx t" using u(2) by (simp add: calm_def nx_def [abs_def])
  then show "utters u (dump_walk row c (Suc NPROC) (q_head (get_ptrs l t)) u)"
    using table_eq_view [OF assms(2,3), of l] by (intro utters_dump_walk [OF u(1) assms(4)]) simp_all
qed

lemma utters_list_dump:
  assumes "can_print c s" "unlocked Lk_ptable s" "qinv s" "wp (render title []) (\<lambda>_. True)"
    "\<And>p t. can_print c t \<Longrightarrow> utters t (row p t)"
  shows "utters s (list_dump title l row c s)"
proof -
  let ?m = "\<lambda>s. rbind (if q_head (get_ptrs l s) \<noteq> None then cprintf c ''\<newline> '' [] s else Ok s)
    (dump_walk row c (Suc NPROC) (q_head (get_ptrs l s)))"
  have sec: "utters t (rbind (acquire c Lk_ptable t) (\<lambda>s. rbind (?m s) (release c Lk_ptable)))" if t: "can_print c t" "calm s t" for t
  proof (rule utters_section [OF t(1)])
    show "unlocked Lk_ptable t" using assms(2) t(2) by (simp add: calm_def unlocked_def)
    show "utters u (?m u)" if u: "can_print c u" "calm (acquired c Lk_ptable t) u" for u
      by (rule utters_list_body [OF u(1) table_eq_section [OF t(2) u(2)] assms(3,5)])
  qed
  have "utters s (rbind (cprintf c title [] s) (\<lambda>s. rbind (rbind (acquire c Lk_ptable s) (\<lambda>s. rbind (?m s) (release c Lk_ptable)))
      (\<lambda>s. rbind (cprintf c ''\<newline>'' [] s) (cprintf c ''$ '' []))))"
    by (rule utters_bind [OF assms(1) utters_cprintf [OF assms(1,4)]]) (rule utters_bind, assumption, rule sec, assumption+, rule utters_tail)
  then show ?thesis by (simp add: list_dump_def Let_def rbind_assoc)
qed

lemma utters_dump_ready:
  assumes "can_print c t" "table_eq s t" "qinv s"
  shows "utters t (dump_ready c is t)"
  using assms(1,2)
proof (induction "is" arbitrary: t)
  case (Cons i js)
  show ?case
    unfolding dump_ready.simps Let_def
  proof (rule utters_bind [OF Cons.prems(1)])
    show "utters t (cprintf c ''%d: '' [Num (of_nat i)] t)" using Cons.prems(1) by (intro utters_cprintf) simp_all
    fix u
    assume u: "can_print c u" "calm t u"
    have "nx u = nx t" using u(2) by (simp add: calm_def nx_def [abs_def])
    then have "utters u (dump_walk (row_budget c) c (Suc NPROC) (q_head (get_ptrs (RL i) t)) u)"
      using table_eq_view [OF Cons.prems(2) assms(3), of "RL i"] by (intro utters_dump_walk [OF u(1) utters_rows(2)]) simp_all
    then show "utters u (rbind (dump_walk (row_budget c) c (Suc NPROC) (q_head (get_ptrs (RL i) t)) u) (\<lambda>s.
         rbind (cprintf c ''\<newline>'' [] s) (dump_ready c js)))"
    proof (rule utters_bind [OF u(1)])
      fix v
      assume v: "can_print c v" "calm u v"
      show "utters v (rbind (cprintf c ''\<newline>'' [] v) (dump_ready c js))"
      proof (rule utters_bind [OF v(1)])
        show "utters v (cprintf c ''\<newline>'' [] v)" using v(1) by (intro utters_cprintf) simp_all
        show "utters w (dump_ready c js w)" if "can_print c w" "calm v w" for w
          using Cons.prems(2) u(2) v(2) that by (intro Cons.IH) (auto simp: table_eq_def calm_def)
      qed
    qed
  qed
qed (simp add: utters_Ok)

lemma utters_runnabledump:
  assumes "can_print c s" "unlocked Lk_ptable s" "qinv s"
  shows "utters s (runnabledump_P4 c s)"
proof -
  let ?m = "dump_ready c (rev [0..<Suc (nat MAXPRIO)])"
  have sec: "utters t (rbind (acquire c Lk_ptable t) (\<lambda>s. rbind (?m s) (release c Lk_ptable)))" if t: "can_print c t" "calm s t" for t
  proof (rule utters_section [OF t(1)])
    show "unlocked Lk_ptable t" using assms(2) t(2) by (simp add: calm_def unlocked_def)
    show "utters u (?m u)" if u: "can_print c u" "calm (acquired c Lk_ptable t) u" for u
      by (rule utters_dump_ready [OF u(1) table_eq_section [OF t(2) u(2)] assms(3)])
  qed
  have "utters s (rbind (cprintf c ''Ready List Processes:\<newline>'' [] s) (\<lambda>s. rbind (rbind (acquire c Lk_ptable s) (\<lambda>s. rbind (?m s) (release c Lk_ptable)))
      (\<lambda>s. rbind (cprintf c ''\<newline>'' [] s) (cprintf c ''$ '' []))))"
    by (rule utters_bind [OF assms(1) utters_cprintf [OF assms(1)]], simp)
      (rule utters_bind, assumption, rule sec, assumption+, rule utters_tail)
  then show ?thesis by (simp add: runnabledump_P4_def rbind_assoc del: upt_Suc)
qed

lemma count_list_eq:
  assumes "linked (nx s) pp xs" "length xs < k"
  shows "count_list k pp u s = Ok (u + length xs)"
  using assms
proof (induction k arbitrary: pp xs u)
  case (Suc k)
  then show ?case by (cases xs) (auto simp: nx_def)
qed simp

lemma unuseddump_spec:
  assumes "can_print c s" "unlocked Lk_ptable s" "qinv s"
  defines "n \<equiv> printint_str ''0123456789abcdef'' (of_nat (length (view s (SL UNUSED)))) 10 True"
  shows "wp (unuseddump c s) (said (str_bytes (''Free List Size: '' @ n @ '' Processes\<newline>$ '')) s)"
proof -
  let ?a = "acquired c Lk_ptable s"
  let ?u = "length (view s (SL UNUSED))"
  have m: "machine_ok s" "c < ncpu s" using assms(1) by (simp_all add: can_print_def)
  have ac: "acquire c Lk_ptable s = Ok ?a" using m assms(2) by (intro acquire_eq) (simp_all add: unlocked_def lock_free_def)
  have "calm ?a ?a" by (simp add: calm_def)
  note r = calm_section [OF m assms(2) this]
  let ?b = "released c Lk_ptable ?a"
  have sb: "said [] s ?b" using r(2) assms(1) by (simp add: said_def can_print_def)
  note pb = said_print [OF sb assms(1)]
  have "calm s s" by (simp add: calm_def)
  note ta = table_eq_section [OF this \<open>calm ?a ?a\<close>]
  have cnt: "count_list (Suc NPROC) (q_head (get_ptrs (SL UNUSED) ?a)) 0 ?a = Ok ?u"
    using count_list_eq [OF table_eq_view [OF ta assms(3), of "SL UNUSED"], of 0] by (simp del: count_list.simps)
  have "render ''Free List Size: %d Processes\<newline>'' [Num (of_nat ?u)] = Ok (''Free List Size: '' @ n @ '' Processes\<newline>'')"
    by (simp add: n_def)
  note c1 = cprintf_spec [OF pb this]
  have "wp (rbind (cprintf c ''Free List Size: %d Processes\<newline>'' [Num (of_nat ?u)] ?b) (cprintf c ''$ '' []))
      (said (str_bytes (''Free List Size: '' @ n @ '' Processes\<newline>$ '')) s)"
  proof (rule wp_bindI [OF c1])
    fix t
    assume t: "said (str_bytes (''Free List Size: '' @ n @ '' Processes\<newline>'')) ?b t"
    have "wp (cprintf c ''$ '' [] t) (said (str_bytes ''$ '') t)" by (rule cprintf_spec [OF said_print [OF t pb]]) simp
    then show "wp (cprintf c ''$ '' [] t) (said (str_bytes (''Free List Size: '' @ n @ '' Processes\<newline>$ '')) s)"
      by (rule wp_mono) (use said_trans [OF said_trans [OF sb t]] in force)
  qed
  then show ?thesis by (simp add: unuseddump_def ac cnt r(1) del: count_list.simps)
qed

text \<open>
  Property C21. The console dumps only print: on a machine with the console and table locks free they all return, and leave
  the process table, its lists, the locks and the interrupt flags as they were; \<open>unuseddump\<close> prints the length of
  the free list.
\<close>

theorem dumps_only_print:
  assumes "can_print c s" "unlocked Lk_ptable s" "pinv {} s"
  shows "wp (procdump pj c mem ebp s) (calm s) \<and> wp (runnabledump_P4 c s) (calm s) \<and> wp (sleepdump c s) (calm s) \<and>
    wp (zombiedump c s) (calm s) \<and>
    wp (unuseddump c s) (\<lambda>t. calm s t \<and> uart_out t = uart_out s @ (if uart s then str_bytes (''Free List Size: '' @
      printint_str ''0123456789abcdef'' (of_nat (length (view s (SL UNUSED)))) 10 True @ '' Processes\<newline>$ '') else []))"
proof -
  note q = pinvD(1) [OF assms(3)]
  have u: "utters s m \<Longrightarrow> wp m (calm s)" for m unfolding utters_def by (erule wp_mono) (auto simp: said_def)
  have "utters s (sleepdump c s)" "utters s (zombiedump c s)"
    unfolding sleepdump_def zombiedump_def using utters_rows by (auto intro!: utters_list_dump [OF assms(1,2) q])
  then show ?thesis
    using u [OF utters_procdump [OF assms(1)]] u [OF utters_runnabledump [OF assms(1,2) q]] u
      wp_mono [OF unuseddump_spec [OF assms(1,2) q]] by (auto simp: said_def)
qed

theorem dumps_only_print_witness:
  "wp (unuseddump 0 sample_cons) (\<lambda>t. uart_out t = str_bytes ''Free List Size: 57 Processes\<newline>$ '')"
proof -
  have v: "view sample_cons = view sample" by (rule view_cong) simp_all
  have "pinv {} sample_cons = pinv {} sample" by (rule pinv_cong) simp_all
  then have p: "pinv {} sample_cons" using sample_pinv by simp
  have "unlocked Lk_ptable sample_cons" by (simp add: unlocked_def) (simp add: sample_def)
  from dumps_only_print [OF sample_can_print this p]
  show ?thesis
    by (auto simp: v sample_view sample_lists_def printint_str_def rev_digits.simps digit_def intro: wp_mono)
qed

end
