(* ===== verification/Ring.thy ===== *)
theory Ring
  imports Prelude
begin

text \<open>
  Ring buffers with free-running 32-bit indices, as the console input line (128 bytes) and the pipes
  (512 bytes) use them: index \<open>i\<close> is kept in slot \<open>i mod N\<close>. Since \<open>N\<close> divides \<open>2^32\<close> the indices may
  wrap around freely. \<open>ring N buf a n\<close> reads the \<open>n\<close> elements from index \<open>a\<close> on.
\<close>

definition rslot :: "nat \<Rightarrow> uint \<Rightarrow> nat" where
  "rslot N i = unat i mod N"

definition ring :: "nat \<Rightarrow> (nat \<Rightarrow> 'b) \<Rightarrow> uint \<Rightarrow> nat \<Rightarrow> 'b list" where
  "ring N buf a n = map (\<lambda>k. buf (rslot N (a + of_nat k))) [0..<n]"

locale ring_size =
  fixes N :: nat
  assumes pos: "0 < N" and dvd: "N dvd 2 ^ 32"
begin

lemma slot_add: "rslot N (a + of_nat k) = (unat a + k) mod N"
proof -
  have "unat (a + of_nat k) = (unat a + unat (of_nat k :: uint)) mod 2 ^ 32"
    by (simp add: unat_word_ariths)
  also have "\<dots> = (unat a + k) mod 2 ^ 32"
    by (simp add: unat_of_nat take_bit_eq_mod mod_simps)
  finally have "rslot N (a + of_nat k) = (unat a + k) mod 2 ^ 32 mod N" by (simp add: rslot_def)
  then show ?thesis by (simp only: mod_mod_cancel [OF dvd])
qed

lemma slot_range: "rslot N a < N"
  using pos by (simp add: rslot_def)

lemma mod_apart: "i < j \<Longrightarrow> j < N \<Longrightarrow> (u + i) mod N \<noteq> (u + j) mod N"
  using mod_eq_dvd_iff_nat [of "u + i" "u + j" N] nat_dvd_not_less [of "j - i" N] by auto

lemma slot_inj: "i < N \<Longrightarrow> j < N \<Longrightarrow> rslot N (a + of_nat i) = rslot N (a + of_nat j) \<longleftrightarrow> i = j"
  unfolding slot_add using mod_apart [of i j "unat a"] mod_apart [of j i "unat a"] by (cases i j rule: linorder_cases) auto

lemma ring_push:
  assumes "n < N"
  shows "ring N (buf(rslot N (a + of_nat n) := b)) a (Suc n) = ring N buf a n @ [b]"
  using assms by (auto simp: ring_def slot_inj)

lemma ring_split: "ring N buf a (m + n) = ring N buf a m @ ring N buf (a + of_nat m) n"
proof -
  have "[0..<m + n] = [0..<m] @ [m..<m + n]" using upt_add_eq_append [of 0 m n] by simp
  moreover have "[m..<m + n] = map (\<lambda>k. k + m) [0..<n]" using map_add_upt [of m n] by (simp add: add.commute [of n m])
  ultimately show ?thesis by (simp add: ring_def ac_simps)
qed

lemma ring_pop: "ring N buf a (Suc n) = buf (rslot N a) # ring N buf (a + 1) n"
  using ring_split [of buf a 1 n] by (simp add: ring_def)

lemma ring_butlast: "ring N buf a n = butlast (ring N buf a (Suc n))"
  by (simp add: ring_def)

lemma ring_last: "last (ring N buf a (Suc n)) = buf (rslot N (a + of_nat n))"
  by (simp add: ring_def)

end

lemma length_ring [simp]: "length (ring N buf a n) = n"
  by (simp add: ring_def)

lemma ring_0 [simp]: "ring N buf a 0 = []"
  by (simp add: ring_def)

lemma ring_nth: "i < n \<Longrightarrow> ring N buf a n ! i = buf (rslot N (a + of_nat i))"
  by (simp add: ring_def)

lemma ring_take: "m \<le> n \<Longrightarrow> take m (ring N buf a n) = ring N buf a m"
  by (simp add: ring_def take_map)

text \<open>Distances between free-running indices.\<close>

lemma dist_add:
  assumes "unat (e - r :: uint) = n"
  shows "e = r + of_nat n"
proof -
  have "of_nat (unat (e - r)) = e - r" by simp
  then show ?thesis using assms by (simp add: algebra_simps)
qed

lemma dist_inc:
  assumes "unat (e - r :: uint) < 2 ^ 32 - 1"
  shows "unat (e + 1 - r) = Suc (unat (e - r))"
proof -
  have "unat (e - r + 1) = unat (e - r) + unat (1 :: uint)"
    by (rule unat_add_lem [THEN iffD1]) (use assms in simp)
  moreover have "e - r + 1 = e + 1 - r" by simp
  ultimately show ?thesis by (simp only: unat_1)
qed

lemma dist_dec: "e \<noteq> r \<Longrightarrow> unat (e - 1 - r :: uint) = unat (e - r) - 1"
proof -
  assume "e \<noteq> r"
  then have "1 \<le> e - r" by (simp add: word_le_nat_alt unat_gt_0 Suc_le_eq)
  then have "unat (e - r - 1) = unat (e - r) - 1" by (simp add: unat_sub)
  then show ?thesis by (simp add: algebra_simps)
qed

lemma dist_zero: "unat (e - r :: uint) = 0 \<longleftrightarrow> e = r"
  by (simp add: unat_eq_0)

end
