(* ===== verification/Console_In.thy ===== *)
theory Console_In
  imports Proc_Query Ring
begin

text \<open>
  The input half of the console: the keyboard decoder (\<open>kbd.c\<close>, \<open>kbd.h\<close>), the line editor run by the
  keyboard and serial interrupts (\<open>consoleintr\<close>), and \<open>consoleread\<close>. The line buffer is a ring of 128
  bytes with free-running 32-bit indices; the bytes between \<open>r\<close> and \<open>w\<close> can be read, those between \<open>w\<close>
  and \<open>e\<close> can still be edited.
\<close>

section \<open>The keyboard\<close>

definition KBS_DIB :: uint where "KBS_DIB = 1"
definition SHIFT :: uint where "SHIFT = 1"
definition CTL :: uint where "CTL = 2"
definition ALT :: uint where "ALT = 4"
definition CAPSLOCK :: uint where "CAPSLOCK = 8"
definition NUMLOCK :: uint where "NUMLOCK = 16"
definition SCROLLLOCK :: uint where "SCROLLLOCK = 32"
definition E0ESC :: uint where "E0ESC = 64"

definition shiftcode :: "nat \<Rightarrow> uint" where
  "shiftcode d = (if d = 0x1D then CTL else if d = 0x2A then SHIFT else if d = 0x36 then SHIFT else if d = 0x38 then ALT
     else if d = 0x9D then CTL else if d = 0xB8 then ALT else 0)"

definition togglecode :: "nat \<Rightarrow> uint" where
  "togglecode d = (if d = 0x3A then CAPSLOCK else if d = 0x45 then NUMLOCK else if d = 0x46 then SCROLLLOCK else 0)"

text \<open>The entries past the first rows are the same in the three maps but for two keys.\<close>

definition keypad :: "uint \<Rightarrow> uint \<Rightarrow> nat \<Rightarrow> uint" where
  "keypad enter dv d = (if d = 0x9C then enter else if d = 0xB5 then dv else if d = 0xC8 then 0xE2 else if d = 0xD0 then 0xE3
     else if d = 0xC9 then 0xE6 else if d = 0xD1 then 0xE7 else if d = 0xCB then 0xE4 else if d = 0xCD then 0xE5
     else if d = 0x97 then 0xE0 else if d = 0xCF then 0xE1 else if d = 0xD2 then 0xE8 else if d = 0xD3 then 0xE9 else 0)"

definition normalrows :: "uint list" where
  "normalrows =
     [0, 0x1B, of_char CHR ''1'', of_char CHR ''2'', of_char CHR ''3'', of_char CHR ''4'', of_char CHR ''5'', of_char CHR ''6'',
      of_char CHR ''7'', of_char CHR ''8'', of_char CHR ''9'', of_char CHR ''0'', of_char CHR ''-'', of_char CHR ''='', 8, 9]
     @ map of_char ''qwertyui'' @ map of_char ''op[]'' @ [10, 0, of_char CHR ''a'', of_char CHR ''s'']
     @ map of_char ''dfghjkl;'' @ [0x27, 0x60, 0, 0x5C] @ map of_char ''zxcv''
     @ map of_char ''bnm,./'' @ [0, of_char CHR ''*'']
     @ [0, 0x20, 0, 0, 0, 0, 0, 0]
     @ [0, 0, 0, 0, 0, 0, 0, of_char CHR ''7'']
     @ map of_char ''89-456+1''
     @ map of_char ''230.'' @ [0, 0, 0, 0]"

definition normalmap :: "nat \<Rightarrow> uint" where
  "normalmap d = (if d < length normalrows then normalrows ! d else keypad 10 (of_char CHR ''/'') d)"

definition shiftrows :: "uint list" where
  "shiftrows =
     [0, 0x1B] @ map of_char ''!@#$%^'' @ map of_char ''&*()_+'' @ [8, 9]
     @ map of_char ''QWERTYUI'' @ map of_char ''OP{}'' @ [10, 0, of_char CHR ''A'', of_char CHR ''S'']
     @ map of_char ''DFGHJKL:'' @ [0x22, 0x7E, 0, 0x7C] @ map of_char ''ZXCV''
     @ map of_char ''BNM<>?'' @ [0, of_char CHR ''*'']
     @ [0, 0x20, 0, 0, 0, 0, 0, 0]
     @ [0, 0, 0, 0, 0, 0, 0, of_char CHR ''7'']
     @ map of_char ''89-456+1''
     @ map of_char ''230.'' @ [0, 0, 0, 0]"

definition shiftmap :: "nat \<Rightarrow> uint" where
  "shiftmap d = (if d < length shiftrows then shiftrows ! d else keypad 10 (of_char CHR ''/'') d)"

text \<open>\<open>C(x)\<close> is \<open>x - '@'\<close>; \<open>uchar\<close> arithmetic for \<open>C('/')\<close>, which is negative.\<close>

definition ctrl :: "char \<Rightarrow> uint" where
  "ctrl ch = ucast (of_char ch - 0x40 :: uchar)"

definition ctlrows :: "uint list" where
  "ctlrows =
     [0, 0, 0, 0, 0, 0, 0, 0, 0, 0, 0, 0, 0, 0, 0, 0]
     @ map ctrl ''QWERTYUI'' @ map ctrl ''OP'' @ [0, 0, 13, 0] @ map ctrl ''AS''
     @ map ctrl ''DFGHJKL'' @ [0, 0, 0, 0, ctrl (CHR 0x5C)] @ map ctrl ''ZXCV''
     @ map ctrl ''BNM'' @ [0, 0, ctrl CHR ''/'', 0, 0]"

definition ctlmap :: "nat \<Rightarrow> uint" where
  "ctlmap d = (if d < length ctlrows then ctlrows ! d else keypad 13 (ctrl CHR ''/'') d)"

text \<open>\<open>charcode[4]\<close>, indexed by \<open>shift & (CTL | SHIFT)\<close>.\<close>

definition charcode :: "uint \<Rightarrow> nat \<Rightarrow> uint" where
  "charcode sh d = (let i = sh AND (CTL OR SHIFT) in if i = 0 then normalmap d else if i = 1 then shiftmap d else ctlmap d)"

definition capslock :: "uint \<Rightarrow> uint \<Rightarrow> uint" where
  "capslock sh ch =
     (if sh AND CAPSLOCK \<noteq> 0 then
        if of_char CHR ''a'' \<le> ch \<and> ch \<le> of_char CHR ''z'' then ch + (of_char CHR ''A'' - of_char CHR ''a'')
        else if of_char CHR ''A'' \<le> ch \<and> ch \<le> of_char CHR ''Z'' then ch + (of_char CHR ''a'' - of_char CHR ''A'')
        else ch
      else ch)"

text \<open>One call with the status and the data byte read from the controller: the result and the new \<open>shift\<close>.\<close>

definition kbdgetc :: "uint \<Rightarrow> uchar \<Rightarrow> uint \<Rightarrow> uint \<times> uint" where
  "kbdgetc st data shft =
     (if st AND KBS_DIB = 0 then (-1, shft)
      else if data = 0xE0 then (0, shft OR E0ESC)
      else if data AND 0x80 \<noteq> 0 then
        let d = (if shft AND E0ESC \<noteq> 0 then data else data AND 0x7F)
        in (0, shft AND NOT (shiftcode (unat d) OR E0ESC))
      else
        let (d, shft) = (if shft AND E0ESC \<noteq> 0 then (data OR 0x80, shft AND NOT E0ESC) else (data, shft));
            shft = shft OR shiftcode (unat d);
            shft = shft XOR togglecode (unat d)
        in (capslock shft (charcode shft (unat d)), shft))"

section \<open>The line editor\<close>

definition INPUT_BUF :: uint where "INPUT_BUF = 128"

record dump_flags =
  doprocdump :: bool
  dorundump :: bool
  doundump :: bool
  dosleepdump :: bool
  dozomdump :: bool
  shutdown :: bool

definition no_flags :: dump_flags where
  "no_flags = \<lparr>doprocdump = False, dorundump = False, doundump = False, dosleepdump = False, dozomdump = False, shutdown = False\<rparr>"

definition in_slot :: "uint \<Rightarrow> nat" where
  "in_slot i = unat (i mod INPUT_BUF)"

definition in_erase :: "'a cons_state_scheme \<Rightarrow> 'a cons_state_scheme res" where
  "in_erase s = consputc BACKSPACE (s\<lparr>input := (input s)\<lparr>in_e := in_e (input s) - 1\<rparr>\<rparr>)"

text \<open>The loop of \<open>C('U')\<close>: \<open>e\<close> runs down to \<open>w\<close>, so \<open>e - w\<close> rounds are enough.\<close>

fun kill_line :: "nat \<Rightarrow> 'a cons_state_scheme \<Rightarrow> 'a cons_state_scheme res" where
  "kill_line 0 s = Hang"
| "kill_line (Suc k) s =
     (if in_e (input s) \<noteq> in_w (input s) \<and> in_buf (input s) (in_slot (in_e (input s) - 1)) \<noteq> 10
      then rbind (in_erase s) (kill_line k) else Ok s)"

definition in_default :: "nat \<Rightarrow> uint \<Rightarrow> 'a cons_state_scheme \<Rightarrow> 'a cons_state_scheme res" where
  "in_default c ch s =
     (if ch \<noteq> 0 \<and> in_e (input s) - in_r (input s) < INPUT_BUF then
        let ch = (if ch = 13 then 10 else ch);
            i = input s;
            s = s\<lparr>input := i\<lparr>in_buf := (in_buf i)(in_slot (in_e i) := ucast ch), in_e := in_e i + 1\<rparr>\<rparr>
        in rbind (consputc ch s) (\<lambda>s.
           if ch = 10 \<or> ch = ctrl CHR ''D'' \<or> in_e (input s) = in_r (input s) + INPUT_BUF then
             wakeup_P4 c (Some Ch_input) (s\<lparr>input := (input s)\<lparr>in_w := in_e (input s)\<rparr>\<rparr>)
           else Ok s)
      else Ok s)"

fun consoleintr_loop :: "nat \<Rightarrow> uint list \<Rightarrow> dump_flags \<Rightarrow> 'a cons_state_scheme \<Rightarrow> (dump_flags \<times> 'a cons_state_scheme) res" where
  "consoleintr_loop c [] fl s = Ok (fl, s)"
| "consoleintr_loop c (ch # cs) fl s =
     (if ch = ctrl CHR ''P'' then consoleintr_loop c cs (fl\<lparr>doprocdump := True\<rparr>) s
      else if ch = ctrl CHR ''R'' then consoleintr_loop c cs (fl\<lparr>dorundump := True\<rparr>) s
      else if ch = ctrl CHR ''F'' then consoleintr_loop c cs (fl\<lparr>doundump := True\<rparr>) s
      else if ch = ctrl CHR ''S'' then consoleintr_loop c cs (fl\<lparr>dosleepdump := True\<rparr>) s
      else if ch = ctrl CHR ''Z'' then consoleintr_loop c cs (fl\<lparr>dozomdump := True\<rparr>) s
      else if ch = ctrl CHR ''D'' then consoleintr_loop c cs (fl\<lparr>shutdown := True\<rparr>) s
      else if ch = ctrl CHR ''U'' then
        rbind (kill_line (Suc (unat (in_e (input s) - in_w (input s)))) s) (consoleintr_loop c cs fl)
      else if ch = ctrl CHR ''H'' \<or> ch = 0x7f then
        rbind (if in_e (input s) \<noteq> in_w (input s) then in_erase s else Ok s) (consoleintr_loop c cs fl)
      else rbind (in_default c ch s) (consoleintr_loop c cs fl))"

text \<open>
  \<open>cs\<close> are the characters \<open>getc\<close> hands over before it returns -1. \<open>do_shutdown\<close> prints its message and
  writes to the port that ends the emulation; when the write has no effect it returns.
\<close>

definition do_shutdown :: "nat \<Rightarrow> 'a cons_state_scheme \<Rightarrow> 'a cons_state_scheme res" where
  "do_shutdown c s = cprintf c ''\<newline>Shutting down ...\<newline>'' [] s"

definition consoleintr ::
  "nat \<Rightarrow> (uint \<Rightarrow> uint) \<Rightarrow> (nat \<Rightarrow> uint) \<Rightarrow> uint list \<Rightarrow> 'a cons_state_scheme \<Rightarrow> 'a cons_state_scheme res" where
  "consoleintr c mem ebp cs s =
     rbind (acquire c Lk_cons s) (\<lambda>s.
     rbind (consoleintr_loop c cs no_flags s) (\<lambda>(fl, s).
     rbind (release c Lk_cons s) (\<lambda>s.
     rbind (if shutdown fl then do_shutdown c s else Ok s) (\<lambda>s.
     rbind (if doprocdump fl then procdump P4 c mem ebp s else Ok s) (\<lambda>s.
     rbind (if dorundump fl then runnabledump_P4 c s else Ok s) (\<lambda>s.
     rbind (if doundump fl then unuseddump c s else Ok s) (\<lambda>s.
     rbind (if dosleepdump fl then sleepdump c s else Ok s) (\<lambda>s.
     if dozomdump fl then zombiedump c s else Ok s))))))))"

section \<open>Reading\<close>

text \<open>
  \<open>consoleread\<close> up to its return or up to the switch inside \<open>sleep\<close>, after which it goes on with the
  same arguments: \<open>R_sleep n dst\<close> keeps the bytes still wanted and those delivered so far.
\<close>

datatype read_outcome = R_done nat "uchar list" | R_killed | R_sleep nat "uchar list"

fun consoleread_loop ::
  "nat \<Rightarrow> nat \<Rightarrow> nat \<Rightarrow> uchar list \<Rightarrow> 'a cons_state_scheme \<Rightarrow> (read_outcome \<times> 'a cons_state_scheme) res" where
  "consoleread_loop c target 0 dst s = Ok (R_done 0 dst, s)"
| "consoleread_loop c target (Suc n) dst s =
     (if in_r (input s) = in_w (input s) then
        rbind (myproc c s) (\<lambda>(mp, s).
        case mp of
          None \<Rightarrow> Undef
        | Some p \<Rightarrow>
            if p_killed (procs s p) then Ok (R_killed, s)
            else rbind (sleep_P4 c (Some Ch_input) (Some Lk_cons) s) (\<lambda>s. Ok (R_sleep (Suc n) dst, s)))
      else
        let i = input s;
            ch = in_buf i (in_slot (in_r i));
            s = s\<lparr>input := i\<lparr>in_r := in_r i + 1\<rparr>\<rparr>
        in if ucast ch = ctrl CHR ''D'' then
             Ok (R_done (Suc n) dst, if Suc n < target then s\<lparr>input := i\<rparr> else s)
           else if ch = 10 then Ok (R_done n (dst @ [ch]), s)
           else consoleread_loop c target n (dst @ [ch]) s)"

text \<open>The end of the call: with \<open>R_sleep\<close> the call is still under way. \<open>ilock\<close>/\<open>iunlock\<close> are parameters.\<close>

definition consoleread_end ::
  "('a cons_state_scheme \<Rightarrow> 'a cons_state_scheme res) \<Rightarrow> nat \<Rightarrow> nat \<Rightarrow> read_outcome \<Rightarrow> 'a cons_state_scheme \<Rightarrow>
   ((int \<times> uchar list) option \<times> 'a cons_state_scheme) res" where
  "consoleread_end ilock c target r s =
     (case r of
        R_sleep n dst \<Rightarrow> Ok (None, s)
      | R_killed \<Rightarrow> rbind (release c Lk_cons s) (\<lambda>s. rbind (ilock s) (\<lambda>s. Ok (Some (-1, []), s)))
      | R_done n dst \<Rightarrow> rbind (release c Lk_cons s) (\<lambda>s. rbind (ilock s) (\<lambda>s. Ok (Some (int target - int n, dst), s))))"

definition consoleread ::
  "('a cons_state_scheme \<Rightarrow> 'a cons_state_scheme res) \<Rightarrow> ('a cons_state_scheme \<Rightarrow> 'a cons_state_scheme res) \<Rightarrow> nat \<Rightarrow> nat \<Rightarrow>
   'a cons_state_scheme \<Rightarrow> ((int \<times> uchar list) option \<times> 'a cons_state_scheme) res" where
  "consoleread iunlock ilock c n s =
     rbind (iunlock s) (\<lambda>s.
     rbind (acquire c Lk_cons s) (\<lambda>s.
     rbind (consoleread_loop c n n [] s) (\<lambda>(r, s). consoleread_end ilock c n r s)))"

section \<open>The ring of the line buffer\<close>

interpretation line_ring: ring_size 128
  by unfold_locales simp_all

lemma in_slot_eq: "in_slot i = rslot 128 i"
  by (simp add: in_slot_def rslot_def INPUT_BUF_def unat_mod)

text \<open>The bytes kept, and how many of them can be read; the rest is the line being edited.\<close>

definition line :: "input \<Rightarrow> uchar list" where
  "line i = ring 128 (in_buf i) (in_r i) (unat (in_e i - in_r i))"

definition readable :: "input \<Rightarrow> nat" where
  "readable i = unat (in_w i - in_r i)"

definition input_ok :: "input \<Rightarrow> bool" where
  "input_ok i \<longleftrightarrow> readable i \<le> length (line i) \<and> length (line i) \<le> 128 \<and> 10 \<notin> set (drop (readable i) (line i))"

lemma length_line: "length (line i) = unat (in_e i - in_r i)"
  by (simp add: line_def)

definition in_push :: "uchar \<Rightarrow> input \<Rightarrow> input" where
  "in_push b i = i\<lparr>in_buf := (in_buf i)(in_slot (in_e i) := b), in_e := in_e i + 1\<rparr>"

lemma line_push:
  assumes "length (line i) < 128"
  shows "line (in_push b i) = line i @ [b]" "readable (in_push b i) = readable i"
proof -
  let ?n = "unat (in_e i - in_r i)"
  have n: "?n < 128" using assms by (simp add: length_line)
  have e: "in_e i = in_r i + of_nat ?n" by (rule dist_add) simp
  have "unat (in_e i + 1 - in_r i) = Suc ?n" by (rule dist_inc) (use n in simp)
  then have "line (in_push b i) = ring 128 ((in_buf i)(in_slot (in_e i) := b)) (in_r i) (Suc ?n)"
    by (simp add: line_def in_push_def)
  also have "\<dots> = ring 128 ((in_buf i)(rslot 128 (in_r i + of_nat ?n) := b)) (in_r i) (Suc ?n)"
    by (subst e) (simp only: in_slot_eq)
  also have "\<dots> = line i @ [b]" unfolding line_def by (rule line_ring.ring_push [OF n])
  finally show "line (in_push b i) = line i @ [b]" .
  show "readable (in_push b i) = readable i" by (simp add: readable_def in_push_def)
qed

lemma line_back:
  assumes "line i \<noteq> []"
  shows "line (i\<lparr>in_e := in_e i - 1\<rparr>) = butlast (line i)" "in_buf i (in_slot (in_e i - 1)) = last (line i)"
proof -
  let ?n = "unat (in_e i - in_r i)"
  have "length (line i) \<noteq> 0" using assms by simp
  then have "?n \<noteq> 0" by (simp add: length_line)
  then have ne: "in_e i \<noteq> in_r i" by (simp add: dist_zero)
  have d: "unat (in_e i - 1 - in_r i) = ?n - 1" by (rule dist_dec [OF ne])
  obtain k where k: "?n = Suc k" using \<open>?n \<noteq> 0\<close> by (cases ?n) auto
  have "line (i\<lparr>in_e := in_e i - 1\<rparr>) = ring 128 (in_buf i) (in_r i) k"
    using d k by (simp add: line_def)
  then show "line (i\<lparr>in_e := in_e i - 1\<rparr>) = butlast (line i)"
    using line_ring.ring_butlast [of "in_buf i" "in_r i" k] k by (simp add: line_def)
  have "in_e i - 1 = in_r i + of_nat k" by (rule dist_add) (use d k in simp)
  then show "in_buf i (in_slot (in_e i - 1)) = last (line i)"
    using line_ring.ring_last [of "in_buf i" "in_r i" k] k by (simp add: line_def in_slot_eq)
qed

lemma edit_empty: "input_ok i \<Longrightarrow> in_e i = in_w i \<longleftrightarrow> drop (readable i) (line i) = []"
proof -
  assume ok: "input_ok i"
  have "in_e i = in_w i \<longleftrightarrow> unat (in_e i - in_r i) = unat (in_w i - in_r i)" by (auto simp: word_unat_eq_iff [symmetric])
  then show ?thesis using ok by (auto simp: input_ok_def length_line readable_def)
qed

lemma pending_length:
  assumes "input_ok i"
  shows "length (drop (readable i) (line i)) = unat (in_e i - in_w i)"
proof -
  have "in_w i - in_r i \<le> in_e i - in_r i"
    using assms by (simp add: input_ok_def length_line readable_def word_le_nat_alt)
  then have "unat ((in_e i - in_r i) - (in_w i - in_r i)) = unat (in_e i - in_r i) - unat (in_w i - in_r i)"
    by (rule unat_sub)
  moreover have "(in_e i - in_r i) - (in_w i - in_r i) = in_e i - in_w i" by simp
  ultimately show ?thesis by (simp only: length_drop length_line readable_def)
qed

lemma line_commit: "line (i\<lparr>in_w := in_e i\<rparr>) = line i" "readable (i\<lparr>in_w := in_e i\<rparr>) = length (line i)"
  by (simp_all add: line_def readable_def)

lemma line_full: "input_ok i \<Longrightarrow> in_e i - in_r i < INPUT_BUF \<longleftrightarrow> length (line i) < 128"
  by (simp add: length_line INPUT_BUF_def word_less_nat_alt)

lemma line_full_eq: "in_e i = in_r i + INPUT_BUF \<longleftrightarrow> length (line i) = 128"
  using dist_add [of "in_e i" "in_r i" 128] by (auto simp: length_line INPUT_BUF_def)

section \<open>What the editor does to the line\<close>

text \<open>A line editor on two lists: the bytes that can be read and the line under way.\<close>

definition edit :: "uint \<Rightarrow> uchar list \<times> uchar list \<Rightarrow> uchar list \<times> uchar list" where
  "edit ch v =
     (let (com, pen) = v
      in if ch \<in> set (map ctrl ''PRFSZD'') then v
         else if ch = ctrl CHR ''U'' then (com, [])
         else if ch = ctrl CHR ''H'' \<or> ch = 0x7f then (com, butlast pen)
         else if ch \<noteq> 0 \<and> length com + length pen < 128 then
           let b = (if ch = 13 then 10 else ucast ch); pen = pen @ [b]
           in if ch = 10 \<or> ch = 13 \<or> length com + length pen = 128 then (com @ pen, []) else (com, pen)
         else v)"

definition in_view :: "input \<Rightarrow> uchar list \<times> uchar list" where
  "in_view i = (take (readable i) (line i), drop (readable i) (line i))"

text \<open>Inside the handler: the console lock is held, the table lock is free.\<close>

definition handling :: "nat \<Rightarrow> 'a cons_state_scheme \<Rightarrow> bool" where
  "handling c s \<longleftrightarrow> machine_ok s \<and> c < ncpu s \<and> held_by Lk_cons s = Some c \<and> 0 < c_ncli (cpus s c) \<and> unlocked Lk_ptable s \<and>
     pinv {} s \<and> cons_ok s"

lemma handling_mach:
  assumes "handling c s" "mach_eq s t" "pinv {} t" "cons_ok t"
  shows "handling c t"
  using assms mach_eqD [OF assms(2)] by (simp add: handling_def)

lemma handling_upd_input:
  assumes "handling c s"
  shows "handling c (s\<lparr>input := i\<rparr>)"
proof (rule handling_mach [OF assms(1)])
  have "pinv {} (s\<lparr>input := i\<rparr>) = pinv {} s" by (rule pinv_cong) simp_all
  then show "pinv {} (s\<lparr>input := i\<rparr>)" using assms(1) by (simp add: handling_def)
qed (use assms in \<open>simp_all add: mach_eq_def handling_def cons_ok_def\<close>)

lemma handling_printed:
  assumes "handling c s" "printed bs s t"
  shows "handling c t" "input t = input s"
proof -
  note p = printed_sel [OF assms(2)]
  show "handling c t"
  proof (rule handling_mach [OF assms(1)])
    have "pinv {} t = pinv {} s" by (rule pinv_cong) (use p in simp_all)
    then show "pinv {} t" using assms(1) by (simp add: handling_def)
    show "cons_ok t" by (rule printedD(1) [OF assms(2)])
  qed (use assms(1) p in \<open>simp_all add: mach_eq_def handling_def\<close>)
  show "input t = input s" by (rule p)
qed

lemma consputc_handling:
  assumes "handling c s"
  shows "wp (consputc ch s) (\<lambda>t. handling c t \<and> input t = input s)"
proof -
  have "cons_ok s" using assms by (simp add: handling_def)
  from consputc_spec [OF this] show ?thesis
    by (rule wp_mono) (use handling_printed [OF assms] in blast)
qed

lemma in_erase_spec:
  assumes "handling c s" "input_ok (input s)" "in_e (input s) \<noteq> in_w (input s)"
  shows "wp (in_erase s) (\<lambda>t. handling c t \<and> input_ok (input t) \<and>
    in_view (input t) = (fst (in_view (input s)), butlast (snd (in_view (input s)))))"
proof -
  let ?i = "input s" and ?j = "(input s)\<lparr>in_e := in_e (input s) - 1\<rparr>"
  have ne: "drop (readable ?i) (line ?i) \<noteq> []" using edit_empty [OF assms(2)] assms(3) by simp
  then have lt: "readable ?i < length (line ?i)" by simp
  then have "line ?i \<noteq> []" by auto
  have l: "line ?j = butlast (line ?i)" "readable ?j = readable ?i"
    using line_back(1) [OF \<open>line ?i \<noteq> []\<close>] by (simp_all add: readable_def)
  have "10 \<notin> set (drop (readable ?i) (butlast (line ?i)))"
    using assms(2) by (auto simp: input_ok_def drop_butlast dest: in_set_butlastD)
  then have ok: "input_ok ?j" using assms(2) lt l by (auto simp: input_ok_def)
  have "take (readable ?i) (butlast (line ?i)) = take (readable ?i) (line ?i)" using lt by (simp add: take_butlast)
  then have v: "in_view ?j = (fst (in_view ?i), butlast (snd (in_view ?i)))" using l by (simp add: in_view_def drop_butlast)
  show ?thesis
    unfolding in_erase_def by (rule wp_mono [OF consputc_handling [OF handling_upd_input [OF assms(1)]]]) (simp add: v ok)
qed

lemma kill_line_spec:
  assumes "handling c s" "input_ok (input s)" "length (snd (in_view (input s))) < k"
  shows "wp (kill_line k s) (\<lambda>t. handling c t \<and> input_ok (input t) \<and> in_view (input t) = (fst (in_view (input s)), []))"
  using assms
proof (induction k arbitrary: s)
  case (Suc k)
  note ok = Suc.prems(2)
  show ?case
  proof (cases "in_e (input s) = in_w (input s)")
    case True
    then show ?thesis using edit_empty [OF ok] Suc.prems(1,2) by (simp add: in_view_def)
  next
    case False
    then have ne: "snd (in_view (input s)) \<noteq> []" using edit_empty [OF ok] by (simp add: in_view_def)
    have "last (line (input s)) = last (snd (in_view (input s)))" using ne by (simp add: in_view_def)
    moreover have "last (snd (in_view (input s))) \<noteq> 10"
      using ok ne last_in_set [OF ne] by (auto simp: input_ok_def in_view_def)
    moreover have "line (input s) \<noteq> []" using ne by (auto simp: in_view_def)
    ultimately have "in_buf (input s) (in_slot (in_e (input s) - 1)) \<noteq> 10" using line_back(2) by simp
    moreover have "wp (rbind (in_erase s) (kill_line k))
        (\<lambda>t. handling c t \<and> input_ok (input t) \<and> in_view (input t) = (fst (in_view (input s)), []))"
    proof (rule wp_bindI [OF in_erase_spec [OF Suc.prems(1,2) False]], elim conjE)
      fix t :: "'a cons_state_scheme"
      assume t: "handling c t" "input_ok (input t)" "in_view (input t) = (fst (in_view (input s)), butlast (snd (in_view (input s))))"
      have "length (snd (in_view (input t))) < k" using t(3) Suc.prems(3) ne by (cases "snd (in_view (input s))") auto
      from Suc.IH [OF t(1,2) this]
      show "wp (kill_line k t) (\<lambda>t. handling c t \<and> input_ok (input t) \<and> in_view (input t) = (fst (in_view (input s)), []))"
        using t(3) by simp
    qed
    ultimately show ?thesis using False by simp
  qed
qed simp

lemma more_input:
  assumes "kstate.more (t :: 'a cons_state_scheme) = kstate.more s"
  shows "input t = input s" "cons_ok t = cons_ok s" "uart t = uart s" "uart_out t = uart_out s"
  using assms by (cases s; cases t; simp add: cons_ok_def)+

lemma in_view_push:
  assumes "input_ok i" "length (line i) < 128"
  shows "in_view (in_push b i) = (fst (in_view i), snd (in_view i) @ [b])"
  using assms line_push [OF assms(2)] by (simp add: in_view_def input_ok_def)

lemma wakeup_handling:
  assumes "handling c s"
  shows "wp (wakeup_P4 c ch s) (\<lambda>t. handling c t \<and> input t = input s)"
proof -
  have "wp (wakeup_P4 c ch s) (\<lambda>t. pinv {} t \<and> mach_eq s t \<and> kstate.more t = kstate.more s \<and>
      (\<exists>u. wakeup_effect ch {} (acquired c Lk_ptable s) u \<and> t = released c Lk_ptable u))"
    using assms by (intro wakeup_nested) (simp_all add: handling_def)
  then show ?thesis
  proof (rule wp_mono, elim conjE)
    fix t
    assume t: "pinv {} t" "mach_eq s t" "kstate.more t = kstate.more s"
    show "handling c t \<and> input t = input s"
      using handling_mach [OF assms t(2,1)] more_input [OF t(3)] assms by (simp add: handling_def)
  qed
qed

lemma in_default_spec:
  assumes "handling c s" "input_ok (input s)" "ch \<notin> set (map ctrl ''PRFSZDUH'')" "ch \<noteq> 0x7f" "ch < 256"
  shows "wp (in_default c ch s) (\<lambda>t. handling c t \<and> input_ok (input t) \<and> in_view (input t) = edit ch (in_view (input s)))"
proof (cases "ch \<noteq> 0 \<and> in_e (input s) - in_r (input s) < INPUT_BUF")
  case True
  let ?ch = "if ch = 13 then 10 else ch"
  let ?b = "ucast ?ch :: uchar"
  let ?i = "input s" and ?j = "in_push ?b (input s)"
  obtain com pen where v: "in_view ?i = (com, pen)" by (cases "in_view ?i")
  have room: "length (line ?i) < 128" using line_full [OF assms(2)] True by simp
  have vl: "line ?i = com @ pen" "readable ?i = length com" using v assms(2) by (auto simp: in_view_def input_ok_def)
  note push = line_push [OF room, of ?b]
  have ctl: "ctrl CHR ''D'' \<noteq> ?ch" using assms(3) by (auto simp: ctrl_def)
  have ed: "edit ch (com, pen) = (if ch = 10 \<or> ch = 13 \<or> length (line ?j) = 128 then (com @ pen @ [?b], []) else (com, pen @ [?b]))"
    using assms(3,4) True room vl push by (auto simp: edit_def Let_def)
  have nl: "?b = 10 \<longleftrightarrow> ch = 10 \<or> ch = 13"
  proof -
    have "unat (ucast ?ch :: uchar) = unat ?ch"
      using assms(5) by (simp add: unsigned_ucast_eq unsigned_take_bit_eq take_bit_nat_eq_self word_less_nat_alt)
    then have "?b = 10 \<longleftrightarrow> ?ch = 10" by (simp add: word_unat_eq_iff)
    then show ?thesis by auto
  qed
  let ?f = "\<lambda>s. if ?ch = 10 \<or> ?ch = ctrl CHR ''D'' \<or> in_e (input s) = in_r (input s) + INPUT_BUF then
             wakeup_P4 c (Some Ch_input) (s\<lparr>input := (input s)\<lparr>in_w := in_e (input s)\<rparr>\<rparr>) else Ok s"
  let ?Q = "\<lambda>t. handling c t \<and> input_ok (input t) \<and> in_view (input t) = edit ch (in_view (input s))"
  have put: "wp (consputc ?ch (s\<lparr>input := ?j\<rparr>)) (\<lambda>t. handling c t \<and> input t = ?j)"
    using consputc_handling [OF handling_upd_input [OF assms(1)], of ?ch ?j] by simp
  have "wp (rbind (consputc ?ch (s\<lparr>input := ?j\<rparr>)) ?f) ?Q"
  proof (rule wp_bindI [OF put], elim conjE)
    fix t
    assume t: "handling c t" "input t = ?j"
    show "wp (?f t) ?Q"
    proof (cases "ch = 10 \<or> ch = 13 \<or> length (line ?j) = 128")
      case commit: True
      let ?k = "?j\<lparr>in_w := in_e ?j\<rparr>"
      have "length (line ?j) \<le> 128" using room push(1) by simp
      then have k: "input_ok ?k" "in_view ?k = edit ch (in_view ?i)"
        using commit push vl unfolding v ed by (simp_all add: input_ok_def in_view_def line_commit)
      have "wp (wakeup_P4 c (Some Ch_input) (t\<lparr>input := ?k\<rparr>)) ?Q"
        using wakeup_handling [OF handling_upd_input [OF t(1)], of "Some Ch_input" ?k] k by (auto intro: wp_mono)
      moreover have "?ch = 10 \<or> ?ch = ctrl CHR ''D'' \<or> in_e (input t) = in_r (input t) + INPUT_BUF"
        using commit t(2) line_full_eq [of ?j] by auto
      ultimately show ?thesis using t(2) by (simp only: if_P)
    next
      case False
      then have "\<not> (?ch = 10 \<or> ?ch = ctrl CHR ''D'' \<or> in_e (input t) = in_r (input t) + INPUT_BUF)"
        using t(2) line_full_eq [of ?j] ctl by auto
      moreover have "input_ok ?j" "in_view ?j = edit ch (in_view ?i)"
        using False push vl room assms(2) nl unfolding v ed by (auto simp: input_ok_def in_view_def)
      ultimately show ?thesis using t by (simp only: if_not_P if_False wp_simps simp_thms)
    qed
  qed
  moreover have "in_default c ch s = rbind (consputc ?ch (s\<lparr>input := ?j\<rparr>)) ?f"
    by (simp only: in_default_def if_P [OF True] Let_def in_push_def)
  ultimately show ?thesis by (simp only:)
next
  case False
  then have "edit ch (in_view (input s)) = in_view (input s)"
    using assms(2-4) line_full [OF assms(2)] by (auto simp: edit_def Let_def in_view_def input_ok_def)
  then show ?thesis using assms(1,2) unfolding in_default_def if_not_P [OF False] by simp
qed

lemma consoleintr_loop_spec:
  assumes "handling c s" "input_ok (input s)" "\<forall>ch\<in>set cs. ch < 256"
  shows "wp (consoleintr_loop c cs fl s) (\<lambda>(fl', t). handling c t \<and> input_ok (input t) \<and>
    in_view (input t) = fold edit cs (in_view (input s)))"
  using assms
proof (induction cs arbitrary: fl s)
  case (Cons ch cs)
  let ?Q = "\<lambda>(fl', t). handling c t \<and> input_ok (input t) \<and> in_view (input t) = fold edit (ch # cs) (in_view (input s))"
  have go: "wp (consoleintr_loop c cs fl t) ?Q" if "handling c t" "input_ok (input t)" "in_view (input t) = edit ch (in_view (input s))"
    for t :: "'a cons_state_scheme" and fl
    using Cons.IH [OF that(1,2), of fl] Cons.prems(3) that(3) by simp
  have step: "wp (rbind m (consoleintr_loop c cs fl)) ?Q"
    if "wp m (\<lambda>t. handling c t \<and> input_ok (input t) \<and> in_view (input t) = edit ch (in_view (input s)))" for m :: "'a cons_state_scheme res"
    by (rule wp_bindI [OF that]) (use go in blast)
  obtain com pen where v: "in_view (input s) = (com, pen)" by (cases "in_view (input s)")
  consider (flag) "ch \<in> set (map ctrl ''PRFSZD'')" | (kill) "ch = ctrl CHR ''U''" | (erase) "ch = ctrl CHR ''H'' \<or> ch = 0x7f"
    | (put) "ch \<notin> set (map ctrl ''PRFSZDUH'')" "ch \<noteq> 0x7f" by auto
  then show ?case
  proof cases
    case flag
    then have "edit ch (in_view (input s)) = in_view (input s)" by (auto simp: edit_def v)
    then show ?thesis using flag go [OF Cons.prems(1,2)] by (auto simp: ctrl_def)
  next
    case kill
    have "length pen = unat (in_e (input s) - in_w (input s))" using pending_length [OF Cons.prems(2)] v by (auto simp: in_view_def)
    then have "wp (kill_line (Suc (unat (in_e (input s) - in_w (input s)))) s)
        (\<lambda>t. handling c t \<and> input_ok (input t) \<and> in_view (input t) = edit ch (in_view (input s)))"
      using kill_line_spec [OF Cons.prems(1,2)] kill v by (simp add: edit_def ctrl_def del: kill_line.simps)
    from step [OF this] show ?thesis using kill by (simp add: ctrl_def del: kill_line.simps)
  next
    case erase
    have "wp (if in_e (input s) \<noteq> in_w (input s) then in_erase s else Ok s)
        (\<lambda>t. handling c t \<and> input_ok (input t) \<and> in_view (input t) = edit ch (in_view (input s)))"
      using in_erase_spec [OF Cons.prems(1,2)] edit_empty [OF Cons.prems(2)] erase v Cons.prems(1,2)
      by (auto simp: edit_def ctrl_def in_view_def)
    from step [OF this] show ?thesis using erase by (auto simp: ctrl_def)
  next
    case put
    have "ch < 256" using Cons.prems(3) by simp
    from step [OF in_default_spec [OF Cons.prems(1,2) put this]] show ?thesis using put by (auto simp: ctrl_def)
  qed
qed simp

section \<open>The interrupt handler\<close>

text \<open>A machine on which the handler can run: it prints, and the table is in order.\<close>

definition can_handle :: "nat \<Rightarrow> 'a cons_state_scheme \<Rightarrow> bool" where
  "can_handle c s \<longleftrightarrow> can_print c s \<and> unlocked Lk_ptable s \<and> pinv {} s"

lemma can_handle_said:
  assumes "can_handle c s" "said bs s t"
  shows "can_handle c t"
  using assms said_print [OF assms(2)] calm_table(1) [of s t "{}"] by (auto simp: can_handle_def said_def calm_def unlocked_def)

lemma utters_handle:
  assumes "can_handle c s" "utters s m" "\<And>t. can_handle c t \<Longrightarrow> wp (f t) (\<lambda>u. can_handle c u \<and> input u = input t)"
  shows "wp (rbind m f) (\<lambda>u. can_handle c u \<and> input u = input s)"
  unfolding wp_rbind
proof (rule wp_mono [OF assms(2) [unfolded utters_def]], elim exE)
  fix t bs
  assume t: "said bs s t"
  then have "input t = input s" by (simp add: said_def)
  with assms(3) [OF can_handle_said [OF assms(1) t]] show "wp (f t) (\<lambda>u. can_handle c u \<and> input u = input s)" by simp
qed

lemma dump_phase:
  assumes "can_handle c s"
  shows "utters s (if b then do_shutdown c s else Ok s)" "utters s (if b then procdump P4 c mem ebp s else Ok s)"
    "utters s (if b then runnabledump_P4 c s else Ok s)" "utters s (if b then unuseddump c s else Ok s)"
    "utters s (if b then sleepdump c s else Ok s)" "utters s (if b then zombiedump c s else Ok s)"
proof -
  have h: "can_print c s" "unlocked Lk_ptable s" "qinv s" using assms pinvD(1) by (auto simp: can_handle_def)
  note ok = utters_Ok [OF h(1)]
  show "utters s (if b then do_shutdown c s else Ok s)" using ok utters_cprintf [OF h(1)] by (simp add: do_shutdown_def)
  show "utters s (if b then procdump P4 c mem ebp s else Ok s)" using ok utters_procdump [OF h(1)] by simp
  show "utters s (if b then runnabledump_P4 c s else Ok s)" using ok utters_runnabledump [OF h] by simp
  show "utters s (if b then unuseddump c s else Ok s)"
  proof -
    have "utters s (unuseddump c s)" unfolding utters_def by (rule wp_mono [OF unuseddump_spec [OF h]]) blast
    then show ?thesis using ok by simp
  qed
  show "utters s (if b then sleepdump c s else Ok s)" "utters s (if b then zombiedump c s else Ok s)"
  proof -
    have "utters s (sleepdump c s)" unfolding sleepdump_def by (rule utters_list_dump [OF h]) (simp, rule utters_rows)
    moreover have "utters s (zombiedump c s)" unfolding zombiedump_def by (rule utters_list_dump [OF h]) (simp, rule utters_rows)
    ultimately show "utters s (if b then sleepdump c s else Ok s)" "utters s (if b then zombiedump c s else Ok s)" using ok by simp_all
  qed
qed

lemma after_handling:
  assumes "can_handle c s"
  shows "wp (rbind (if b1 then do_shutdown c s else Ok s) (\<lambda>s.
     rbind (if b2 then procdump P4 c mem ebp s else Ok s) (\<lambda>s.
     rbind (if b3 then runnabledump_P4 c s else Ok s) (\<lambda>s.
     rbind (if b4 then unuseddump c s else Ok s) (\<lambda>s.
     rbind (if b5 then sleepdump c s else Ok s) (\<lambda>s.
     if b6 then zombiedump c s else Ok s)))))) (\<lambda>u. can_handle c u \<and> input u = input s)"
proof -
  have last: "wp (if b6 then zombiedump c s else Ok s) (\<lambda>u. can_handle c u \<and> input u = input s)" if "can_handle c s"
    for s :: "'a cons_state_scheme"
    using utters_handle [OF that dump_phase(6) [OF that, of b6], of Ok] by simp
  show ?thesis
    by (intro utters_handle assms dump_phase last)
qed

lemma loop_locked:
  assumes "can_handle c s" "input_ok (input s)" "\<forall>ch\<in>set cs. ch < 256"
  shows "wp (rbind (acquire c Lk_cons s) (\<lambda>s. rbind (consoleintr_loop c cs no_flags s) (\<lambda>(fl, s).
      rbind (release c Lk_cons s) (\<lambda>s. Ok (fl, s)))))
    (\<lambda>(fl, t). can_handle c t \<and> input_ok (input t) \<and> in_view (input t) = fold edit cs (in_view (input s)))"
proof -
  let ?a = "acquired c Lk_cons s"
  have m: "machine_ok s" "c < ncpu s" "unlocked Lk_cons s" "unlocked Lk_ptable s" "cons_ok s" "pinv {} s"
    using assms(1) by (simp_all add: can_handle_def can_print_def)
  have pos: "0 < c_ncli (cpus ?a c)" using machine_okD(2) [OF m(1,2)] by (simp add: acquired_def)
  have ma: "machine_ok ?a" "c < ncpu ?a" "held_by Lk_cons ?a = Some c" using m by (simp_all add: acquired_def)
  have "unlocked Lk_ptable ?a" using m(4) by (simp add: unlocked_def acquired_def set_lock_def pushed_def)
  then have h: "handling c ?a" using m(5,6) pos ma by (simp add: handling_def)
  have ac: "acquire c Lk_cons s = Ok ?a" using m by (intro acquire_eq) (simp_all add: unlocked_def lock_free_def)
  let ?Q = "\<lambda>(fl, t). can_handle c t \<and> input_ok (input t) \<and> in_view (input t) = fold edit cs (in_view (input s))"
  have "wp (consoleintr_loop c cs no_flags ?a) (\<lambda>(fl', t). handling c t \<and> input_ok (input t) \<and>
      in_view (input t) = fold edit cs (in_view (input ?a)))"
    using assms(2,3) by (intro consoleintr_loop_spec [OF h]) simp_all
  then have "wp (rbind (consoleintr_loop c cs no_flags ?a) (\<lambda>(fl, s). rbind (release c Lk_cons s) (\<lambda>s. Ok (fl, s)))) ?Q"
  proof (rule wp_bindI, clarify)
    fix fl and t :: "'a cons_state_scheme"
    assume t: "handling c t" "input_ok (input t)" "in_view (input t) = fold edit cs (in_view (input ?a))"
    have r: "release c Lk_cons t = Ok (released c Lk_cons t)" using t(1) by (intro release_eq) (simp_all add: handling_def)
    have e: "released c Lk_cons t = popped c (set_lock Lk_cons None t)" using t(1) by (intro released_nested) (simp add: handling_def)
    have "machine_ok (released c Lk_cons t)" "c < ncpu (released c Lk_cons t)"
      unfolding e using t(1) by (simp_all add: handling_def)
    moreover have "unlocked Lk_cons (released c Lk_cons t)" "unlocked Lk_ptable (released c Lk_cons t)"
      unfolding e using t(1) by (simp_all add: handling_def unlocked_def popped_def set_lock_def)
    ultimately have "can_handle c (released c Lk_cons t)" using t(1) by (simp add: can_handle_def can_print_def handling_def)
    then show "wp (rbind (release c Lk_cons t) (\<lambda>s. Ok (fl, s))) ?Q" using r t(2,3) by simp
  qed
  then show ?thesis by (simp only: ac rbind_simps)
qed

text \<open>
  Property C24. The keyboard and serial interrupt handler implements the line editor: on a machine with the console and
  table locks free, for any bytes the device delivers, \<open>consoleintr\<close> returns, the ring buffer never holds more than
  128 bytes, and its readable part and the line under way are those of the editor on two lists (insert, backspace,
  kill, newline and full-buffer commit), the dumps asked for by control keys included.
\<close>

theorem consoleintr_edits:
  assumes "can_handle c s" "input_ok (input s)" "\<forall>ch\<in>set cs. ch < 256"
  shows "wp (consoleintr c mem ebp cs s) (\<lambda>t. can_handle c t \<and> input_ok (input t) \<and>
    in_view (input t) = fold edit cs (in_view (input s)))"
proof -
  let ?Q = "\<lambda>t. can_handle c t \<and> input_ok (input t) \<and> in_view (input t) = fold edit cs (in_view (input s))"
  let ?rest = "\<lambda>(fl, s). rbind (if shutdown fl then do_shutdown c s else Ok s) (\<lambda>s.
     rbind (if doprocdump fl then procdump P4 c mem ebp s else Ok s) (\<lambda>s.
     rbind (if dorundump fl then runnabledump_P4 c s else Ok s) (\<lambda>s.
     rbind (if doundump fl then unuseddump c s else Ok s) (\<lambda>s.
     rbind (if dosleepdump fl then sleepdump c s else Ok s) (\<lambda>s.
     if dozomdump fl then zombiedump c s else Ok s)))))"
  have "wp (rbind (rbind (acquire c Lk_cons s) (\<lambda>s. rbind (consoleintr_loop c cs no_flags s) (\<lambda>(fl, s).
      rbind (release c Lk_cons s) (\<lambda>s. Ok (fl, s))))) ?rest) ?Q"
  proof (rule wp_bindI [OF loop_locked [OF assms]])
    fix x :: "dump_flags \<times> 'a cons_state_scheme"
    assume x: "case x of (fl, t) \<Rightarrow> can_handle c t \<and> input_ok (input t) \<and> in_view (input t) = fold edit cs (in_view (input s))"
    obtain fl t where e: "x = (fl, t)" by (cases x)
    have t: "can_handle c t" "input_ok (input t)" "in_view (input t) = fold edit cs (in_view (input s))" using x e by simp_all
    show "wp (?rest x) ?Q"
      unfolding e prod.case by (rule wp_mono [OF after_handling [OF t(1)]]) (use t(2,3) in simp)
  qed
  moreover have "consoleintr c mem ebp cs s = rbind (rbind (acquire c Lk_cons s) (\<lambda>s.
      rbind (consoleintr_loop c cs no_flags s) (\<lambda>(fl, s). rbind (release c Lk_cons s) (\<lambda>s. Ok (fl, s))))) ?rest"
    by (simp add: consoleintr_def rbind_assoc case_prod_beta' cong: if_cong)
  ultimately show ?thesis by (simp only:)
qed

theorem consoleintr_edits_witness:
  "wp (consoleintr 0 (\<lambda>_. 0) (\<lambda>_. 0) [0x61, 0x62, 8, 0x63, 13, 0x64] sample_cons)
     (\<lambda>t. in_view (input t) = ([0x61, 0x63, 10], [0x64]))"
proof -
  have "pinv {} sample_cons = pinv {} sample" by (rule pinv_cong) simp_all
  then have h: "can_handle 0 sample_cons"
    using sample_pinv sample_can_print by (simp add: can_handle_def unlocked_def) (simp add: sample_def)
  have i: "input_ok (input sample_cons)" "in_view (input sample_cons) = ([], [])"
    by (simp_all add: input_ok_def in_view_def readable_def line_def)
  have "fold edit [0x61, 0x62, 8, 0x63, 13, 0x64] ([], []) = ([0x61, 0x63, 10], [0x64])"
    by (simp add: edit_def ctrl_def)
  then show ?thesis
    using wp_mono [OF consoleintr_edits [OF h i(1), of "[0x61, 0x62, 8, 0x63, 13, 0x64]"]] i(2) by simp
qed

section \<open>Reading lines\<close>

lemma in_pop:
  assumes "input_ok i" "readable i \<noteq> 0"
  defines "j \<equiv> i\<lparr>in_r := in_r i + 1\<rparr>"
  shows "in_view i = (in_buf i (in_slot (in_r i)) # fst (in_view j), snd (in_view j))" "input_ok j" "in_w j = in_w i" "in_r i \<noteq> in_w i"
proof -
  obtain n where n: "readable i = Suc n" using assms(2) by (cases "readable i") auto
  have ne: "in_w i \<noteq> in_r i" using assms(2) dist_zero [of "in_w i" "in_r i"] by (simp add: readable_def)
  have "Suc n \<le> length (line i)" using assms(1) n by (simp add: input_ok_def)
  then obtain m where m: "length (line i) = Suc m" "n \<le> m" by (cases "length (line i)") auto
  have "unat (in_e i - in_r i) = Suc m" using m by (simp add: length_line)
  then have nee: "in_e i \<noteq> in_r i" using dist_zero [of "in_e i" "in_r i"] by auto
  have d: "unat (in_w i - (in_r i + 1)) = n" "unat (in_e i - (in_r i + 1)) = m"
    using dist_dec [OF ne] dist_dec [OF nee] n m(1) by (simp_all add: readable_def length_line algebra_simps)
  have l: "line i = in_buf i (in_slot (in_r i)) # line j" "readable j = n"
    using m(1) d line_ring.ring_pop [of "in_buf i" "in_r i" m]
    by (simp_all add: line_def j_def readable_def length_line in_slot_eq)
  show "in_view i = (in_buf i (in_slot (in_r i)) # fst (in_view j), snd (in_view j))" using l n by (simp add: in_view_def)
  show "input_ok j" using assms(1) l n by (simp add: input_ok_def)
  show "in_w j = in_w i" by (simp add: j_def)
  show "in_r i \<noteq> in_w i" using ne by simp
qed



end
