(* ===== verification/Kalloc.thy ===== *)
theory Kalloc
  imports Console_In
begin

text \<open>
  The physical page allocator (\<open>kalloc.c\<close>). The free pages form a list through the first word of each
  page, so the list lives in the very memory it manages; the model keeps that memory as bytes and
  uses the \<open>memset\<close> of \<open>string.c\<close>. The first address after the kernel image, \<open>end\<close>, comes from the linker
  and is a parameter.
\<close>

section \<open>State and operations\<close>

record kmem_state = cons_state +
  use_lock :: bool
  freelist :: uint
  mem :: bmem

definition PHYSTOP :: uint where "PHYSTOP = 0xE000000"

definition PGROUNDUP :: "uint \<Rightarrow> uint" where
  "PGROUNDUP sz = (sz + PGSIZE - 1) AND NOT (PGSIZE - 1)"

definition load32 :: "bmem \<Rightarrow> uint \<Rightarrow> uint" where
  "load32 m a = push_bit 24 (ucast (m (a + 3))) OR push_bit 16 (ucast (m (a + 2))) OR push_bit 8 (ucast (m (a + 1))) OR ucast (m a)"

definition kmem_locked :: "nat \<Rightarrow> ('a kmem_state_scheme \<Rightarrow> 'a kmem_state_scheme) \<Rightarrow> 'a kmem_state_scheme \<Rightarrow> 'a kmem_state_scheme res" where
  "kmem_locked c body s =
     rbind (if use_lock s then acquire c Lk_kmem s else Ok s) (\<lambda>s.
     let s = body s
     in if use_lock s then release c Lk_kmem s else Ok s)"

definition kfree :: "uint \<Rightarrow> nat \<Rightarrow> uint \<Rightarrow> 'a kmem_state_scheme \<Rightarrow> 'a kmem_state_scheme res" where
  "kfree kend c v s =
     (if v mod PGSIZE \<noteq> 0 \<or> v < kend \<or> PHYSTOP \<le> V2P v then Panic ''kfree''
      else
        kmem_locked c (\<lambda>s. s\<lparr>mem := store32 (mem s) v (freelist s), freelist := v\<rparr>)
          (s\<lparr>mem := memset (mem s) v 1 PGSIZE\<rparr>))"

definition kalloc :: "nat \<Rightarrow> 'a kmem_state_scheme \<Rightarrow> (uint \<times> 'a kmem_state_scheme) res" where
  "kalloc c s =
     rbind (if use_lock s then acquire c Lk_kmem s else Ok s) (\<lambda>s.
     let r = freelist s;
         s = (if r \<noteq> 0 then s\<lparr>freelist := load32 (mem s) r\<rparr> else s)
     in rbind (if use_lock s then release c Lk_kmem s else Ok s) (\<lambda>s. Ok (r, s)))"

text \<open>The loop frees a page per round and stops below \<open>vend\<close>: \<open>vend / PGSIZE\<close> rounds are enough.\<close>

fun freerange_loop :: "uint \<Rightarrow> nat \<Rightarrow> nat \<Rightarrow> uint \<Rightarrow> uint \<Rightarrow> 'a kmem_state_scheme \<Rightarrow> 'a kmem_state_scheme res" where
  "freerange_loop kend c 0 p vend s = Hang"
| "freerange_loop kend c (Suc k) p vend s =
     (if p + PGSIZE \<le> vend then rbind (kfree kend c p s) (freerange_loop kend c k (p + PGSIZE) vend) else Ok s)"

definition freerange :: "uint \<Rightarrow> nat \<Rightarrow> uint \<Rightarrow> uint \<Rightarrow> 'a kmem_state_scheme \<Rightarrow> 'a kmem_state_scheme res" where
  "freerange kend c vstart vend s =
     freerange_loop kend c (Suc (unat vend div 4096)) (PGROUNDUP vstart) vend s"

definition kinit1 :: "uint \<Rightarrow> nat \<Rightarrow> uint \<Rightarrow> uint \<Rightarrow> 'a kmem_state_scheme \<Rightarrow> 'a kmem_state_scheme res" where
  "kinit1 kend c vstart vend s = freerange kend c vstart vend ((initlock Lk_kmem s)\<lparr>use_lock := False\<rparr>)"

definition kinit2 :: "uint \<Rightarrow> nat \<Rightarrow> uint \<Rightarrow> uint \<Rightarrow> 'a kmem_state_scheme \<Rightarrow> 'a kmem_state_scheme res" where
  "kinit2 kend c vstart vend s = rbind (freerange kend c vstart vend s) (\<lambda>s. Ok (s\<lparr>use_lock := True\<rparr>))"

section \<open>The free list\<close>

definition page_ok :: "uint \<Rightarrow> uint \<Rightarrow> bool" where
  "page_ok kend v \<longleftrightarrow> v mod PGSIZE = 0 \<and> kend \<le> v \<and> V2P v < PHYSTOP \<and> v \<noteq> 0"

fun free_at :: "bmem \<Rightarrow> uint \<Rightarrow> uint list \<Rightarrow> bool" where
  "free_at m a [] = (a = 0)"
| "free_at m a (x # xs) = (a = x \<and> x \<noteq> 0 \<and> free_at m (load32 m x) xs)"

definition free_list :: "uint \<Rightarrow> 'a kmem_state_scheme \<Rightarrow> uint list \<Rightarrow> bool" where
  "free_list kend s xs \<longleftrightarrow> free_at (mem s) (freelist s) xs \<and> distinct xs \<and> (\<forall>x\<in>set xs. page_ok kend x)"

definition in_page :: "uint \<Rightarrow> uint \<Rightarrow> bool" where
  "in_page v a \<longleftrightarrow> unat v \<le> unat a \<and> unat a < unat v + 4096"

lemma load_store32 [simp]: "load32 (store32 m a w) a = w"
proof (rule bit_word_eqI)
  fix n
  assume n: "n < LENGTH(32)"
  have ne: "a + 1 \<noteq> a" "a + 2 \<noteq> a" "a + 3 \<noteq> a" "a + 2 \<noteq> a + 1" "a + 3 \<noteq> a + 1" "a + 3 \<noteq> a + 2" by simp_all
  consider "n < 8" | "8 \<le> n" "n < 16" | "16 \<le> n" "n < 24" | "24 \<le> n" by linarith
  then show "bit (load32 (store32 m a w) a) n = bit w n"
    by cases (use n ne in \<open>auto simp: load32_def store32_def bit_simps\<close>)
qed

lemma page_ok_range:
  assumes "page_ok kend v"
  shows "unat v mod 4096 = 0" "unat v + 4096 < 2 ^ 32"
proof -
  have "unat (v mod PGSIZE) = 0" using assms by (simp add: page_ok_def)
  then show "unat v mod 4096 = 0" by (simp add: unat_mod PGSIZE_def)
  have "unat (v - KERNBASE) < 0xE000000" using assms by (simp add: page_ok_def V2P_def PHYSTOP_def word_less_nat_alt)
  moreover have "KERNBASE \<le> v"
  proof (rule ccontr)
    assume "\<not> KERNBASE \<le> v"
    then have "unat v < 0x80000000" by (simp add: KERNBASE_def word_le_nat_alt)
    then have "unat (v - KERNBASE) = unat v + 0x80000000" by (simp add: KERNBASE_def unat_sub_if')
    then show False using calculation by simp
  qed
  ultimately show "unat v + 4096 < 2 ^ 32" by (simp add: KERNBASE_def unat_sub word_le_nat_alt)
qed

lemma in_page_div: "unat v mod 4096 = 0 \<Longrightarrow> in_page v a \<longleftrightarrow> unat a div 4096 = unat v div 4096"
proof -
  assume "unat v mod 4096 = 0"
  then obtain k where "unat v = 4096 * k" by auto
  then show ?thesis by (auto simp: in_page_def)
qed

lemma page_apart:
  assumes "page_ok kend v" "page_ok kend x" "in_page v a" "in_page x a"
  shows "v = x"
proof -
  have "unat v div 4096 = unat x div 4096"
    using assms(3,4) in_page_div [OF page_ok_range(1) [OF assms(1)]] in_page_div [OF page_ok_range(1) [OF assms(2)]] by simp
  moreover have "unat v = 4096 * (unat v div 4096)" "unat x = 4096 * (unat x div 4096)"
    using page_ok_range(1) [OF assms(1)] page_ok_range(1) [OF assms(2)] by auto
  ultimately have "unat v = unat x" by simp
  then show ?thesis by (simp only: word_unat_eq_iff)
qed

lemma in_page_offset:
  assumes "page_ok kend v" "i < 4096"
  shows "in_page v (v + of_nat i)"
proof -
  have "unat (of_nat i :: uint) = i" using assms(2) by (simp add: unat_of_nat take_bit_nat_eq_self)
  then have "unat (v + of_nat i) = unat v + i"
    using page_ok_range(2) [OF assms(1)] assms(2) by (subst unat_add_lem [THEN iffD1]) simp_all
  then show ?thesis using assms(2) by (simp add: in_page_def)
qed

lemma load32_cong:
  assumes "page_ok kend x" "\<And>a. in_page x a \<Longrightarrow> m a = m' a"
  shows "load32 m x = load32 m' x"
  using in_page_offset [OF assms(1), of 0] in_page_offset [OF assms(1), of 1] in_page_offset [OF assms(1), of 2]
    in_page_offset [OF assms(1), of 3] assms(2) by (simp add: load32_def)

lemma free_at_cong:
  assumes "\<And>x. x \<in> set xs \<Longrightarrow> page_ok kend x" "\<And>x a. x \<in> set xs \<Longrightarrow> in_page x a \<Longrightarrow> m a = m' a"
  shows "free_at m a xs = free_at m' a xs"
  using assms
proof (induction xs arbitrary: a)
  case (Cons x xs)
  have "load32 m x = load32 m' x" using Cons.prems by (intro load32_cong) auto
  then show ?case using Cons by auto
qed simp

lemma store32_other:
  assumes "page_ok kend v" "\<not> in_page v a"
  shows "store32 m v w a = m a"
  using in_page_offset [OF assms(1), of 0] in_page_offset [OF assms(1), of 1] in_page_offset [OF assms(1), of 2]
    in_page_offset [OF assms(1), of 3] assms(2) by (auto simp: store32_def)

lemma memset_page_other:
  assumes "page_ok kend v" "\<not> in_page v a"
  shows "memset m v 1 PGSIZE a = m a"
  using page_ok_range(2) [OF assms(1)] assms(2)
  by (auto simp: memset_stosb stosb_apply PGSIZE_def in_page_def)

section \<open>A stack of pages\<close>

definition kmem_ready :: "nat \<Rightarrow> 'a kmem_state_scheme \<Rightarrow> bool" where
  "kmem_ready c s \<longleftrightarrow> (use_lock s \<longrightarrow> machine_ok s \<and> c < ncpu s \<and> unlocked Lk_kmem s)"

lemma kmem_locked_spec:
  assumes "kmem_ready c s" "\<And>t. calm t (body t)" "\<And>t. use_lock (body t) = use_lock t"
  shows "wp (kmem_locked c body s) (\<lambda>t. calm s t \<and> use_lock t = use_lock s \<and>
    (\<exists>u. mem u = mem s \<and> freelist u = freelist s \<and> mem t = mem (body u) \<and> freelist t = freelist (body u)))"
proof (cases "use_lock s")
  case True
  let ?a = "acquired c Lk_kmem s"
  have m: "machine_ok s" "c < ncpu s" "unlocked Lk_kmem s" using assms(1) True by (simp_all add: kmem_ready_def)
  have ac: "acquire c Lk_kmem s = Ok ?a" using m by (intro acquire_eq) (simp_all add: unlocked_def lock_free_def)
  have f: "use_lock ?a = use_lock s" "mem ?a = mem s" "freelist ?a = freelist s"
    by (simp_all add: acquired_def set_lock_def pushed_def)
  note r = calm_section [OF m assms(2)]
  have g: "use_lock (released c Lk_kmem t) = use_lock t" "mem (released c Lk_kmem t) = mem t"
    "freelist (released c Lk_kmem t) = freelist t" for t :: "'a kmem_state_scheme"
    by (simp_all add: released_def popped_def set_lock_def touched_def)
  show ?thesis
    using True f r by (auto simp: kmem_locked_def ac assms(3) Let_def g intro!: exI [of _ ?a])
next
  case False
  then show ?thesis using assms(2,3) by (auto simp: kmem_locked_def Let_def)
qed

lemma kfree_spec:
  assumes "kmem_ready c s" "free_list kend s xs" "page_ok kend v" "v \<notin> set xs"
  shows "wp (kfree kend c v s) (\<lambda>t. calm s t \<and> use_lock t = use_lock s \<and> free_list kend t (v # xs) \<and>
    (\<forall>a. \<not> in_page v a \<longrightarrow> mem t a = mem s a))"
proof -
  let ?s = "s\<lparr>mem := memset (mem s) v 1 PGSIZE\<rparr>"
  let ?b = "\<lambda>s. s\<lparr>mem := store32 (mem s) v (freelist s), freelist := v\<rparr>"
  have k: "kmem_ready c ?s" using assms(1) by (simp add: kmem_ready_def machine_ok_def unlocked_def)
  have "wp (kmem_locked c ?b ?s) (\<lambda>t. calm s t \<and> use_lock t = use_lock s \<and> free_list kend t (v # xs) \<and>
      (\<forall>a. \<not> in_page v a \<longrightarrow> mem t a = mem s a))"
  proof (rule wp_mono [OF kmem_locked_spec [OF k]], simp add: calm_def, simp, elim conjE exE)
    fix t u :: "'a kmem_state_scheme"
    assume t: "calm ?s t" "use_lock t = use_lock ?s" and u: "mem u = mem ?s" "freelist u = freelist ?s"
      "mem t = mem (?b u)" "freelist t = freelist (?b u)"
    have out: "mem t a = mem s a" if "\<not> in_page v a" for a
      using u(1,3) store32_other [OF assms(3) that] memset_page_other [OF assms(3) that] by simp
    have pages: "page_ok kend x" "x \<noteq> v" if "x \<in> set xs" for x using that assms(2,4) by (auto simp: free_list_def)
    have "free_at (mem t) (freelist s) xs = free_at (mem s) (freelist s) xs"
      by (rule free_at_cong [of _ kend]) (use pages page_apart [OF assms(3)] out in blast)+
    moreover have "load32 (mem t) v = freelist s" using u by simp
    ultimately have "free_at (mem t) (freelist t) (v # xs)"
      using assms(2,3) u(4) by (simp add: free_list_def page_ok_def)
    moreover have "calm s t" using t(1) by (simp add: calm_def)
    ultimately show "calm s t \<and> use_lock t = use_lock s \<and> free_list kend t (v # xs) \<and> (\<forall>a. \<not> in_page v a \<longrightarrow> mem t a = mem s a)"
      using t(2) out assms(2-4) by (simp add: free_list_def)
  qed
  then show ?thesis using assms(3) by (simp add: kfree_def page_ok_def not_less not_le)
qed

lemma kalloc_spec:
  assumes "kmem_ready c s" "free_list kend s xs"
  shows "wp (kalloc c s) (\<lambda>(r, t). calm s t \<and> use_lock t = use_lock s \<and> mem t = mem s \<and>
    (case xs of [] \<Rightarrow> r = 0 \<and> free_list kend t [] | x # ys \<Rightarrow> r = x \<and> free_list kend t ys))"
proof -
  let ?u = "\<lambda>s. if freelist s \<noteq> 0 then s\<lparr>freelist := load32 (mem s) (freelist s)\<rparr> else s"
  have calm: "calm t (?u t)" for t :: "'a kmem_state_scheme" by (simp add: calm_def)
  have fl: "case xs of [] \<Rightarrow> freelist s = 0 \<and> free_list kend t [] | x # ys \<Rightarrow> freelist s = x \<and> free_list kend t ys"
    if "mem t = mem s" "freelist t = freelist (?u s)" for t :: "'a kmem_state_scheme"
    using assms(2) that by (cases xs) (auto simp: free_list_def)
  show ?thesis
  proof (cases "use_lock s")
    case True
    let ?a = "acquired c Lk_kmem s"
    have m: "machine_ok s" "c < ncpu s" "unlocked Lk_kmem s" using assms(1) True by (simp_all add: kmem_ready_def)
    have ac: "acquire c Lk_kmem s = Ok ?a" using m by (intro acquire_eq) (simp_all add: unlocked_def lock_free_def)
    have f: "use_lock ?a = use_lock s" "mem ?a = mem s" "freelist ?a = freelist s"
      by (simp_all add: acquired_def set_lock_def pushed_def)
    note r = calm_section [OF m calm]
    let ?t = "released c Lk_kmem (?u ?a)"
    have g: "use_lock ?t = use_lock s" "mem ?t = mem s" "freelist ?t = freelist (?u s)"
      using f by (simp_all add: released_def popped_def set_lock_def touched_def)
    have "use_lock (?u ?a)" using True f by simp
    then have "kalloc c s = Ok (freelist s, ?t)" using True f r(1) by (simp add: kalloc_def ac Let_def)
    then show ?thesis using r(2) g fl [OF g(2,3)] by simp
  next
    case False
    then have "kalloc c s = Ok (freelist s, ?u s)" by (simp add: kalloc_def Let_def)
    then show ?thesis using calm [of s] fl [of "?u s"] by simp
  qed
qed

section \<open>Pages in use\<close>

text \<open>Callers free only pages they were given, and write only to those: \<open>A\<close> is the set of pages handed out.\<close>

inductive page_step :: "uint \<Rightarrow> nat \<Rightarrow> kmem_state \<times> uint set \<Rightarrow> kmem_state \<times> uint set \<Rightarrow> bool" for kend c where
  alloc: "kalloc c s = Ok (r, t) \<Longrightarrow> r \<noteq> 0 \<Longrightarrow> page_step kend c (s, A) (t, insert r A)"
| free: "v \<in> A \<Longrightarrow> kfree kend c v s = Ok t \<Longrightarrow> page_step kend c (s, A) (t, A - {v})"
| store: "(\<And>a. m a \<noteq> mem s a \<Longrightarrow> \<exists>v\<in>A. in_page v a) \<Longrightarrow> page_step kend c (s, A) (s\<lparr>mem := m\<rparr>, A)"

definition page_inv :: "uint \<Rightarrow> nat \<Rightarrow> uint set \<Rightarrow> kmem_state \<times> uint set \<Rightarrow> bool" where
  "page_inv kend c P x \<longleftrightarrow> (\<exists>xs. free_list kend (fst x) xs \<and> set xs \<inter> snd x = {} \<and> set xs \<union> snd x = P \<and>
     (\<forall>v\<in>snd x. page_ok kend v) \<and> kmem_ready c (fst x))"

lemma kmem_ready_calm: "calm s t \<Longrightarrow> use_lock t = use_lock s \<Longrightarrow> kmem_ready c s \<Longrightarrow> kmem_ready c t"
  using mach_eqD(1,2) [of s t] mach_eqD(5) [of s t Lk_kmem] by (auto simp: kmem_ready_def calm_iff)

lemma page_step_inv:
  assumes "page_step kend c x y" "page_inv kend c P x"
  shows "page_inv kend c P y"
  using assms(1)
proof (cases rule: page_step.cases)
  case (alloc s r t A)
  obtain xs where xs: "free_list kend s xs" "set xs \<inter> A = {}" "set xs \<union> A = P" "\<forall>v\<in>A. page_ok kend v" "kmem_ready c s"
    using assms(2) alloc by (auto simp: page_inv_def)
  note k = wp_OkD [OF kalloc_spec [OF xs(5,1)] alloc(3)]
  then obtain ys where ys: "xs = r # ys" "free_list kend t ys" "calm s t" "use_lock t = use_lock s"
    using alloc(4) by (cases xs) auto
  have "page_inv kend c P (t, insert r A)"
    unfolding page_inv_def using xs ys kmem_ready_calm [OF ys(3,4) xs(5)] by (intro exI [of _ ys]) (auto simp: free_list_def)
  then show ?thesis using alloc by simp
next
  case (free v A s t)
  obtain xs where xs: "free_list kend s xs" "set xs \<inter> A = {}" "set xs \<union> A = P" "\<forall>v\<in>A. page_ok kend v" "kmem_ready c s"
    using assms(2) free by (auto simp: page_inv_def)
  have v: "page_ok kend v" "v \<notin> set xs" using xs free(3) by auto
  note k = wp_OkD [OF kfree_spec [OF xs(5,1) v] free(4)]
  have "page_inv kend c P (t, A - {v})"
    unfolding page_inv_def using xs k v free(3) kmem_ready_calm [of s t c] by (intro exI [of _ "v # xs"]) auto
  then show ?thesis using free by simp
next
  case (store m s A)
  obtain xs where xs: "free_list kend s xs" "set xs \<inter> A = {}" "set xs \<union> A = P" "\<forall>v\<in>A. page_ok kend v" "kmem_ready c s"
    using assms(2) store by (auto simp: page_inv_def)
  have "free_at m (freelist s) xs = free_at (mem s) (freelist s) xs"
  proof (rule free_at_cong [of _ kend])
    fix x a assume x: "x \<in> set xs" "in_page x a"
    have "v = x" if "v \<in> A" "in_page v a" for v
      using page_apart [of kend v x a] xs(1,4) x that by (auto simp: free_list_def)
    then show "m a = mem s a" using store(3) x xs(2) by blast
  qed (use xs(1) in \<open>simp add: free_list_def\<close>)
  moreover have "kmem_ready c (s\<lparr>mem := m\<rparr>)" using xs(5) by (simp add: kmem_ready_def machine_ok_def unlocked_def)
  ultimately have "page_inv kend c P (s\<lparr>mem := m\<rparr>, A)"
    unfolding page_inv_def using xs by (intro exI [of _ xs]) (simp add: free_list_def)
  then show ?thesis using store by simp
qed

section \<open>Filling the list\<close>

lemma PGROUNDUP_bits: "PGROUNDUP a = push_bit 12 (drop_bit 12 (a + 4095))"
proof -
  have "PGROUNDUP a = (a + 4095) AND NOT (mask 12)"
    by (simp add: PGROUNDUP_def PGSIZE_def mask_eq_exp_minus_1 add.commute)
  also have "\<dots> = push_bit 12 (drop_bit 12 (a + 4095))"
    by (rule bit_word_eqI) (auto simp: bit_simps)
  finally show ?thesis .
qed

lemma unat_PGROUNDUP:
  assumes "unat a + 4095 < 2 ^ 32"
  shows "unat (PGROUNDUP a) = (unat a + 4095) div 4096 * 4096"
proof -
  have "unat (a + 4095) = unat a + 4095" using assms by (subst unat_add_lem [THEN iffD1]) simp_all
  then have "unat (drop_bit 12 (a + 4095)) = (unat a + 4095) div 4096" by (simp add: drop_bit_eq_div unat_div)
  moreover have "(unat a + 4095) div 4096 * 4096 < 2 ^ 32" using assms by (auto intro: le_less_trans [OF div_times_less_eq_dividend])
  ultimately show ?thesis unfolding PGROUNDUP_bits
    by (simp only: push_bit_eq_mult, subst unat_mult_lem [THEN iffD1]) simp_all
qed

definition range_pages :: "uint \<Rightarrow> uint \<Rightarrow> uint set" where
  "range_pages p vend = {v. 4096 dvd unat v \<and> unat p \<le> unat v \<and> unat v + 4096 \<le> unat vend}"

lemma aligned_iff: "v mod PGSIZE = 0 \<longleftrightarrow> 4096 dvd unat v"
  by (simp add: word_unat_eq_iff unat_mod PGSIZE_def dvd_eq_mod_eq_0)

lemma range_pages_step:
  assumes "4096 dvd unat p" "unat p + 4096 \<le> unat vend" "unat p' = unat p + 4096"
  shows "range_pages p vend = insert p (range_pages p' vend)"
proof -
  have "v = p" if v: "4096 dvd unat v" "unat p \<le> unat v" "\<not> unat p + 4096 \<le> unat v" for v
  proof -
    obtain a b where ab: "unat v = 4096 * a" "unat p = 4096 * b" using dvdE [OF v(1)] dvdE [OF assms(1)] by metis
    then have "unat v = unat p" using v(2,3) by simp
    then show ?thesis by (simp only: word_unat_eq_iff)
  qed
  then show ?thesis using assms by (auto simp: range_pages_def)
qed

lemma range_pages_none: "unat vend < unat p + 4096 \<Longrightarrow> range_pages p vend = {}"
  by (auto simp: range_pages_def)

lemma freerange_loop_spec:
  assumes "kmem_ready c s" "free_list kend s xs" "4096 dvd unat p" "kend \<le> p" "unat KERNBASE \<le> unat p" "unat p \<le> 0x8E000000"
    "unat vend \<le> 0x8E000000" "\<forall>x\<in>set xs. unat x < unat p" "unat vend div 4096 < unat p div 4096 + k" "0 < k"
  shows "wp (freerange_loop kend c k p vend s) (\<lambda>t. calm s t \<and> use_lock t = use_lock s \<and>
    (\<exists>ys. free_list kend t ys \<and> set ys = set xs \<union> range_pages p vend))"
  using assms
proof (induction k arbitrary: p s xs)
  case 0
  then show ?case by simp
next
  case (Suc k)
  have u: "unat (p + PGSIZE) = unat p + 4096"
    using Suc.prems(6) by (subst unat_add_lem [THEN iffD1]) (simp_all add: PGSIZE_def)
  show ?case
  proof (cases "p + PGSIZE \<le> vend")
    case True
    then have le: "unat p + 4096 \<le> unat vend" by (simp add: word_le_nat_alt u)
    have v: "V2P p < PHYSTOP" "p \<noteq> 0"
      using Suc.prems(5,7) le by (auto simp: V2P_def PHYSTOP_def word_less_nat_alt KERNBASE_def unat_sub word_le_nat_alt)
    have ok: "page_ok kend p" using Suc.prems(3,4) v by (simp add: page_ok_def aligned_iff)
    have n: "p \<notin> set xs" using Suc.prems(8) by auto
    have "wp (freerange_loop kend c k (p + PGSIZE) vend t) (\<lambda>t. calm s t \<and> use_lock t = use_lock s \<and>
        (\<exists>ys. free_list kend t ys \<and> set ys = set xs \<union> range_pages p vend))"
      if t: "calm s t" "use_lock t = use_lock s" "free_list kend t (p # xs)" for t :: "'a kmem_state_scheme"
    proof (rule wp_mono [OF Suc.IH [of t "p # xs" "p + PGSIZE"]])
      show "kmem_ready c t" by (rule kmem_ready_calm [OF t(1,2) Suc.prems(1)])
      show "kend \<le> p + PGSIZE" using Suc.prems(4) u by (simp add: word_le_nat_alt)
      show "0 < k" using Suc.prems(9) le by (cases k) (simp_all add: div_le_mono [of "unat p + 4096" "unat vend" 4096, simplified])
      show "4096 dvd unat (p + PGSIZE)" "unat KERNBASE \<le> unat (p + PGSIZE)" "unat (p + PGSIZE) \<le> 0x8E000000"
        using Suc.prems(3,5,7) le by (simp_all add: u)
      show "\<forall>x\<in>set (p # xs). unat x < unat (p + PGSIZE)" using Suc.prems(8) by (auto simp: u)
      show "unat vend div 4096 < unat (p + PGSIZE) div 4096 + k" using Suc.prems(9) by (simp add: u)
    qed (use t Suc.prems(7) range_pages_step [OF Suc.prems(3) le u] calm_trans [OF t(1)] in auto)
    then show ?thesis using True
      by (auto intro!: wp_bindI wp_mono [OF kfree_spec [OF Suc.prems(1,2) ok n]])
  next
    case False
    then have "range_pages p vend = {}" by (intro range_pages_none) (simp add: word_le_nat_alt u)
    then show ?thesis using False Suc.prems(2) by (auto simp: calm_def)
  qed
qed

lemma kinit1_spec:
  assumes "kend \<le> vstart" "unat KERNBASE \<le> unat vstart" "unat vstart \<le> 0x8E000000" "unat vend \<le> 0x8E000000" "freelist s = 0"
  shows "wp (kinit1 kend c vstart vend s) (\<lambda>t. \<not> use_lock t \<and> (\<exists>xs. free_list kend t xs \<and> set xs = range_pages vstart vend))"
proof -
  let ?s = "(initlock Lk_kmem s)\<lparr>use_lock := False\<rparr>" and ?p = "PGROUNDUP vstart"
  have u: "unat ?p = (unat vstart + 4095) div 4096 * 4096" using assms(3) by (intro unat_PGROUNDUP) simp
  have up: "unat ?p \<le> m" if m: "4096 dvd m" "unat vstart \<le> m" for m
  proof -
    obtain k where "m = 4096 * k" using m(1) by blast
    then have "(unat vstart + 4095) div 4096 < Suc k" using m(2) by (subst div_less_iff_less_mult) simp_all
    then show ?thesis unfolding u \<open>m = 4096 * k\<close> by simp
  qed
  have "unat vstart + 4095 = unat ?p + (unat vstart + 4095) mod 4096"
    unfolding u by (rule div_mult_mod_eq [symmetric])
  moreover have "(unat vstart + 4095) mod 4096 < 4096" by (rule mod_less_divisor) (rule zero_less_numeral)
  ultimately have p1: "unat vstart \<le> unat ?p" by linarith
  have p2: "unat ?p \<le> 0x8E000000" by (rule up [OF _ assms(3)]) (rule dvdI [of _ _ "0x8E000"], simp only: mult_numeral_1 numeral_times_numeral, simp)
  have p3: "4096 dvd unat ?p" unfolding u by (rule dvd_triv_right)
  note p = p1 p2 p3
  have "unat ?p \<le> unat v \<longleftrightarrow> unat vstart \<le> unat v" if "4096 dvd unat v" for v :: uint
    using up [OF that] p1 by linarith
  then have r: "range_pages ?p vend = range_pages vstart vend" unfolding range_pages_def by (simp cong: conj_cong)
  have fl: "free_list kend ?s []" using assms(5) by (simp add: free_list_def initlock_def)
  have rd: "kmem_ready c ?s" by (simp add: kmem_ready_def)
  have "kend \<le> ?p" "unat KERNBASE \<le> unat ?p" using assms(1,2) p(1) by (simp_all add: word_le_nat_alt)
  note l = freerange_loop_spec [OF rd fl p(3) this p(2) assms(4), where k = "Suc (unat vend div 4096)"]
  show ?thesis unfolding kinit1_def freerange_def
    by (rule wp_mono [OF l]) (use r in auto)
qed

text \<open>
  Property C27. \<open>kinit1\<close> on a range of kernel addresses below \<open>PHYSTOP\<close> returns without panicking, leaves the lock unused, and puts
  exactly the whole pages of the range on the free list, each once.
\<close>

theorem kinit1_fills:
  assumes "kend \<le> vstart" "unat KERNBASE \<le> unat vstart" "unat vstart \<le> 0x8E000000" "unat vend \<le> 0x8E000000" "freelist s = 0"
  shows "wp (kinit1 kend c vstart vend s) (\<lambda>t. \<not> use_lock t \<and> (\<exists>xs. free_list kend t xs \<and> distinct xs \<and>
    set xs = range_pages vstart vend))"
  by (rule wp_mono [OF kinit1_spec [OF assms]]) (auto simp: free_list_def)

definition sample_kmem :: kmem_state where
  "sample_kmem = cons_state.extend sample_cons (kmem_state.fields False 0 (\<lambda>_. 0))"

lemma sample_kmem_free [simp]: "freelist sample_kmem = 0"
  by (simp add: sample_kmem_def kmem_state.defs cons_state.defs)

theorem kinit1_fills_witness:
  "wp (kinit1 0x80108000 0 0x80108123 0x80400000 sample_kmem) (\<lambda>t. \<not> use_lock t \<and>
    (\<exists>xs. free_list 0x80108000 t xs \<and> distinct xs \<and> set xs = range_pages 0x80108123 0x80400000))"
  by (rule kinit1_fills) (simp_all add: KERNBASE_def)

text \<open>
  Property C26. No page is ever handed out twice: starting with a set \<open>P\<close> of free pages, after any sequence of \<open>kalloc\<close>, of
  \<open>kfree\<close> of pages in use and of writes to pages in use, a page \<open>kalloc\<close> returns is one of \<open>P\<close>, page-aligned in the kernel's range, and not in use;
  \<open>kalloc\<close> returns 0 exactly when all of \<open>P\<close> is in use, and freeing a page in use never panics.
\<close>

theorem kalloc_never_twice:
  assumes "page_inv kend c P (s, A)" "(page_step kend c)\<^sup>*\<^sup>* (s, A) (t, B)"
  shows "wp (kalloc c t) (\<lambda>(r, u). if r = 0 then B = P else r \<in> P - B \<and> page_ok kend r) \<and>
    (\<forall>v\<in>B. wp (kfree kend c v t) (\<lambda>_. True))"
proof -
  have "page_inv kend c P (t, B)"
    using assms(2,1) by (induction rule: rtranclp_induct) (auto intro: page_step_inv)
  then obtain xs where xs: "free_list kend t xs" "set xs \<inter> B = {}" "set xs \<union> B = P" "\<forall>v\<in>B. page_ok kend v" "kmem_ready c t"
    by (auto simp: page_inv_def)
  have "wp (kalloc c t) (\<lambda>(r, u). if r = 0 then B = P else r \<in> P - B \<and> page_ok kend r)"
    by (rule wp_mono [OF kalloc_spec [OF xs(5,1)]], cases xs)
      (use xs(1-3) in \<open>auto simp: free_list_def\<close>)
  moreover have "wp (kfree kend c v t) (\<lambda>_. True)" if "v \<in> B" for v
    using that xs by (intro wp_mono [OF kfree_spec [OF xs(5,1)]]) auto
  ultimately show ?thesis by blast
qed

theorem kalloc_never_twice_witness:
  "\<exists>t r u. kinit1 0x80108000 0 0x80400000 0x80402000 sample_kmem = Ok t \<and> kalloc 0 t = Ok (r, u) \<and>
    r \<in> {0x80400000, 0x80401000} \<and> wp (kalloc 0 u) (\<lambda>(q, _). q \<in> {0x80400000, 0x80401000} - {r})"
proof -
  let ?k = "0x80108000 :: uint" and ?P = "{0x80400000, 0x80401000} :: uint set"
  have P: "range_pages 0x80400000 0x80402000 = ?P"
  proof -
    have e: "range_pages 0x80400000 0x80402000 = insert 0x80400000 (insert 0x80401000 (range_pages 0x80402000 0x80402000))"
      by (subst range_pages_step [of _ _ "0x80401000"], simp, simp, simp, subst range_pages_step [of _ _ "0x80402000"]) simp_all
    show ?thesis unfolding e by (simp add: range_pages_none)
  qed
  obtain t xs where t: "kinit1 ?k 0 0x80400000 0x80402000 sample_kmem = Ok t" "\<not> use_lock t" "free_list ?k t xs" "set xs = ?P"
    using kinit1_spec [of ?k "0x80400000" "0x80402000" sample_kmem 0] P by (auto simp: wp_iff KERNBASE_def)
  have i: "page_inv ?k 0 ?P (t, {})" using t by (auto simp: page_inv_def kmem_ready_def intro!: exI [of _ xs])
  obtain r u where r: "kalloc 0 t = Ok (r, u)" "if r = 0 then {} = ?P else r \<in> ?P - {} \<and> page_ok ?k r"
    using kalloc_never_twice [OF i rtranclp.rtrancl_refl] unfolding wp_iff by auto
  then have st: "page_step ?k 0 (t, {}) (u, {r})" using page_step.alloc [OF r(1), of ?k "{}"] by (auto split: if_splits)
  then have run: "(page_step ?k 0)\<^sup>*\<^sup>* (t, {}) (u, {r})" by (rule r_into_rtranclp)
  have "{r} \<noteq> ?P" by (simp add: doubleton_eq_iff insert_eq_iff singleton_insert_inj_eq')
  then have "wp (kalloc 0 u) (\<lambda>(q, _). q \<in> ?P - {r})"
    using kalloc_never_twice [OF i run] by (auto elim!: wp_mono split: if_splits)
  then show ?thesis using t(1) r by (auto split: if_splits)
qed

end
