(* ===== verification/Pipe.thy ===== *)
theory Pipe
  imports Kalloc
begin

text \<open>
  Pipes (\<open>pipe.c\<close>): a ring of 512 bytes between a reading and a writing end, with free-running 32-bit counters. A pipe
  lives in a page of its own; the model keeps the structures in a store indexed by that page's address. As in the
  other models of blocking calls, an operation runs up to its return or up to the switch inside \<open>sleep\<close>, and the
  outcome says with what it goes on. \<open>pipealloc\<close> is with the file table.
\<close>

section \<open>State and operations\<close>

definition PIPESIZE :: uint where "PIPESIZE = 512"

record pipe =
  pi_data :: "nat \<Rightarrow> uchar"
  pi_nread :: uint
  pi_nwrite :: uint
  pi_readopen :: bool
  pi_writeopen :: bool

record pipe_state = kmem_state +
  pipes :: "uint \<Rightarrow> pipe"

text \<open>The sleep channels \<open>&p->nread\<close> and \<open>&p->nwrite\<close>: the lock takes 52 bytes, the data 512.\<close>

definition ch_nread :: "uint \<Rightarrow> chan option" where "ch_nread a = Some (Ch_addr (a + 564))"
definition ch_nwrite :: "uint \<Rightarrow> chan option" where "ch_nwrite a = Some (Ch_addr (a + 568))"

definition upd_pipe :: "uint \<Rightarrow> (pipe \<Rightarrow> pipe) \<Rightarrow> 'a pipe_state_scheme \<Rightarrow> 'a pipe_state_scheme" where
  "upd_pipe a f s = s\<lparr>pipes := (pipes s)(a := f (pipes s a))\<rparr>"

definition pipeclose :: "uint \<Rightarrow> nat \<Rightarrow> uint \<Rightarrow> bool \<Rightarrow> 'a pipe_state_scheme \<Rightarrow> 'a pipe_state_scheme res" where
  "pipeclose kend c a writable s =
     rbind (acquire c (Lk_pipe a) s) (\<lambda>s.
     rbind (if writable then wakeup_P4 c (ch_nread a) (upd_pipe a (pi_writeopen_update (\<lambda>_. False)) s)
            else wakeup_P4 c (ch_nwrite a) (upd_pipe a (pi_readopen_update (\<lambda>_. False)) s)) (\<lambda>s.
     if \<not> pi_readopen (pipes s a) \<and> \<not> pi_writeopen (pipes s a)
     then rbind (release c (Lk_pipe a) s) (kfree kend c a)
     else release c (Lk_pipe a) s))"

definition pipe_put :: "uchar \<Rightarrow> pipe \<Rightarrow> pipe" where
  "pipe_put b p = p\<lparr>pi_data := (pi_data p)(unat (pi_nwrite p mod PIPESIZE) := b), pi_nwrite := pi_nwrite p + 1\<rparr>"

text \<open>\<open>W_sleep bs\<close>: asleep with \<open>bs\<close> still to write.\<close>

datatype write_outcome = W_all | W_closed | W_sleep "uchar list"

fun pipewrite_loop :: "nat \<Rightarrow> uint \<Rightarrow> uchar list \<Rightarrow> 'a pipe_state_scheme \<Rightarrow> (write_outcome \<times> 'a pipe_state_scheme) res" where
  "pipewrite_loop c a [] s = Ok (W_all, s)"
| "pipewrite_loop c a (b # bs) s =
     (if pi_nwrite (pipes s a) = pi_nread (pipes s a) + PIPESIZE then
        if \<not> pi_readopen (pipes s a) then Ok (W_closed, s)
        else
          rbind (myproc c s) (\<lambda>(mp, s).
          case mp of
            None \<Rightarrow> Undef
          | Some p \<Rightarrow>
              if p_killed (procs s p) then Ok (W_closed, s)
              else
                rbind (wakeup_P4 c (ch_nread a) s) (\<lambda>s.
                rbind (sleep_P4 c (ch_nwrite a) (Some (Lk_pipe a)) s) (\<lambda>s.
                Ok (W_sleep (b # bs), s))))
      else pipewrite_loop c a bs (upd_pipe a (pipe_put b) s))"

definition pipewrite_end ::
  "nat \<Rightarrow> uint \<Rightarrow> int \<Rightarrow> write_outcome \<Rightarrow> 'a pipe_state_scheme \<Rightarrow> (int option \<times> 'a pipe_state_scheme) res" where
  "pipewrite_end c a n r s =
     (case r of
        W_sleep bs \<Rightarrow> Ok (None, s)
      | W_closed \<Rightarrow> rbind (release c (Lk_pipe a) s) (\<lambda>s. Ok (Some (-1), s))
      | W_all \<Rightarrow> rbind (wakeup_P4 c (ch_nread a) s) (\<lambda>s. rbind (release c (Lk_pipe a) s) (\<lambda>s. Ok (Some n, s))))"

text \<open>The bytes \<open>addr[0]\<close> to \<open>addr[n - 1]\<close> are an argument; there are none when \<open>n\<close> is negative.\<close>

definition pipewrite ::
  "nat \<Rightarrow> uint \<Rightarrow> (nat \<Rightarrow> uchar) \<Rightarrow> int \<Rightarrow> 'a pipe_state_scheme \<Rightarrow> (int option \<times> 'a pipe_state_scheme) res" where
  "pipewrite c a addr n s =
     rbind (acquire c (Lk_pipe a) s) (\<lambda>s.
     rbind (pipewrite_loop c a (map addr [0..<nat n]) s) (\<lambda>(r, s). pipewrite_end c a n r s))"

datatype wait_outcome = PR_go | PR_killed | PR_sleep

definition piperead_wait :: "nat \<Rightarrow> uint \<Rightarrow> 'a pipe_state_scheme \<Rightarrow> (wait_outcome \<times> 'a pipe_state_scheme) res" where
  "piperead_wait c a s =
     (if pi_nread (pipes s a) = pi_nwrite (pipes s a) \<and> pi_writeopen (pipes s a) then
        rbind (myproc c s) (\<lambda>(mp, s).
        case mp of
          None \<Rightarrow> Undef
        | Some p \<Rightarrow>
            if p_killed (procs s p) then Ok (PR_killed, s)
            else rbind (sleep_P4 c (ch_nread a) (Some (Lk_pipe a)) s) (\<lambda>s. Ok (PR_sleep, s)))
      else Ok (PR_go, s))"

fun piperead_copy :: "uint \<Rightarrow> nat \<Rightarrow> uchar list \<Rightarrow> 'a pipe_state_scheme \<Rightarrow> uchar list \<times> 'a pipe_state_scheme" where
  "piperead_copy a 0 dst s = (dst, s)"
| "piperead_copy a (Suc n) dst s =
     (if pi_nread (pipes s a) = pi_nwrite (pipes s a) then (dst, s)
      else piperead_copy a n (dst @ [pi_data (pipes s a) (unat (pi_nread (pipes s a) mod PIPESIZE))])
             (upd_pipe a (\<lambda>p. p\<lparr>pi_nread := pi_nread p + 1\<rparr>) s))"

definition piperead_go ::
  "nat \<Rightarrow> uint \<Rightarrow> int \<Rightarrow> wait_outcome \<Rightarrow> 'a pipe_state_scheme \<Rightarrow> ((int \<times> uchar list) option \<times> 'a pipe_state_scheme) res" where
  "piperead_go c a n r s =
     (case r of
        PR_sleep \<Rightarrow> Ok (None, s)
      | PR_killed \<Rightarrow> rbind (release c (Lk_pipe a) s) (\<lambda>s. Ok (Some (-1, []), s))
      | PR_go \<Rightarrow>
          (case piperead_copy a (nat n) [] s of (dst, s) \<Rightarrow>
             rbind (wakeup_P4 c (ch_nwrite a) s) (\<lambda>s.
             rbind (release c (Lk_pipe a) s) (\<lambda>s. Ok (Some (int (length dst), dst), s)))))"

definition piperead ::
  "nat \<Rightarrow> uint \<Rightarrow> int \<Rightarrow> 'a pipe_state_scheme \<Rightarrow> ((int \<times> uchar list) option \<times> 'a pipe_state_scheme) res" where
  "piperead c a n s =
     rbind (acquire c (Lk_pipe a) s) (\<lambda>s.
     rbind (piperead_wait c a s) (\<lambda>(r, s). piperead_go c a n r s))"

section \<open>The ring of a pipe\<close>

interpretation pipe_ring: ring_size 512
  by unfold_locales simp_all

definition held_bytes :: "pipe \<Rightarrow> uchar list" where
  "held_bytes p = ring 512 (pi_data p) (pi_nread p) (unat (pi_nwrite p - pi_nread p))"

definition pipe_ok :: "pipe \<Rightarrow> bool" where
  "pipe_ok p \<longleftrightarrow> length (held_bytes p) \<le> 512"

lemma length_held: "length (held_bytes p) = unat (pi_nwrite p - pi_nread p)"
  by (simp add: held_bytes_def)

lemma slot_eq: "unat (i mod PIPESIZE) = rslot 512 i"
  by (simp add: rslot_def PIPESIZE_def unat_mod)

lemma pipe_full_iff: "pi_nwrite p = pi_nread p + PIPESIZE \<longleftrightarrow> length (held_bytes p) = 512"
proof -
  have "pi_nwrite p = pi_nread p + PIPESIZE \<longleftrightarrow> pi_nwrite p - pi_nread p = 512"
    by (auto simp: PIPESIZE_def algebra_simps)
  also have "\<dots> \<longleftrightarrow> unat (pi_nwrite p - pi_nread p) = unat (512 :: uint)" by (simp only: word_unat_eq_iff)
  finally show ?thesis by (simp add: length_held)
qed

lemma pipe_put_spec:
  assumes "pipe_ok p" "length (held_bytes p) \<noteq> 512"
  shows "held_bytes (pipe_put b p) = held_bytes p @ [b]" "pipe_ok (pipe_put b p)"
proof -
  let ?n = "unat (pi_nwrite p - pi_nread p)"
  have n: "?n < 512" using assms by (simp add: pipe_ok_def length_held)
  have e: "pi_nwrite p = pi_nread p + of_nat ?n" by (rule dist_add) simp
  have s: "unat (pi_nwrite p + 1 - pi_nread p) = Suc ?n" by (rule dist_inc) (use n in simp)
  have "held_bytes (pipe_put b p) =
      ring 512 ((pi_data p)(rslot 512 (pi_nread p + of_nat ?n) := b)) (pi_nread p) (Suc ?n)"
    using e s by (simp add: held_bytes_def pipe_put_def slot_eq)
  also have "\<dots> = held_bytes p @ [b]" unfolding held_bytes_def by (rule pipe_ring.ring_push [OF n])
  finally show h: "held_bytes (pipe_put b p) = held_bytes p @ [b]" .
  show "pipe_ok (pipe_put b p)" using n by (simp add: pipe_ok_def h length_held)
qed

lemma pipe_get_spec:
  assumes "pi_nread p \<noteq> pi_nwrite p"
  shows "held_bytes p = pi_data p (unat (pi_nread p mod PIPESIZE)) # held_bytes (p\<lparr>pi_nread := pi_nread p + 1\<rparr>)"
proof -
  have "unat (pi_nwrite p - pi_nread p) \<noteq> 0" using assms dist_zero [of "pi_nwrite p" "pi_nread p"] by auto
  then obtain m where m: "unat (pi_nwrite p - pi_nread p) = Suc m" by (cases "unat (pi_nwrite p - pi_nread p)") auto
  have "unat (pi_nwrite p - pi_nread p - 1) = m"
    using m by (subst unat_sub) (simp_all add: word_le_nat_alt)
  then have "unat (pi_nwrite p - (pi_nread p + 1)) = m" by (simp add: algebra_simps)
  then show ?thesis using m pipe_ring.ring_pop [of "pi_data p" "pi_nread p" m] by (simp add: held_bytes_def slot_eq)
qed

lemma held_empty: "pi_nread p = pi_nwrite p \<longleftrightarrow> held_bytes p = []"
  unfolding length_0_conv [symmetric] length_held dist_zero by (rule eq_commute)

section \<open>Calls on a pipe\<close>

text \<open>Core \<open>c\<close> runs process \<open>me\<close> with the pipe's lock, and only that, held.\<close>

definition piping :: "nat \<Rightarrow> uint \<Rightarrow> nat \<Rightarrow> 'a pipe_state_scheme \<Rightarrow> bool" where
  "piping c a me s \<longleftrightarrow> machine_ok s \<and> c < ncpu s \<and> held_by (Lk_pipe a) s = Some c \<and> c_ncli (cpus s c) = 1 \<and>
     unlocked Lk_ptable s \<and> pinv {} s \<and> c_proc (cpus s c) = Some me \<and> me < NPROC \<and> p_state (procs s me) = RUNNING"

lemma piping_upd [simp]: "piping c a me (upd_pipe b f s) = piping c a me s"
proof -
  have "pinv {} (upd_pipe b f s) = pinv {} s" by (rule pinv_cong) (simp_all add: upd_pipe_def)
  then show ?thesis by (simp add: piping_def upd_pipe_def machine_ok_def held_by_def unlocked_def)
qed

lemma pipes_upd [simp]: "pipes (upd_pipe a f s) = (pipes s)(a := f (pipes s a))" "procs (upd_pipe a f s) = procs s"
  by (simp_all add: upd_pipe_def)

lemma piping_myproc:
  assumes "piping c a me s"
  shows "myproc c s = Ok (Some me, s)"
proof -
  have "touched c s = s" using assms by (intro touched_nested) (simp add: piping_def)
  then show ?thesis using assms by (simp add: piping_def myproc_eq)
qed

lemma more_pipes:
  assumes "kstate.more (t :: 'a pipe_state_scheme) = kstate.more s"
  shows "pipes t = pipes s"
  using assms by (cases s; cases t) simp

lemma wakeup_awake:
  assumes "wakeup_effect ch X s u" "pinv X s" "p_state (procs s me) \<noteq> SLEEPING"
  shows "core u me = core s me"
proof (cases "find (\<lambda>p. p_chan (procs s p) = ch) (view s (SL SLEEPING))")
  case (Some p)
  then have "p \<in> set (view s (SL SLEEPING))" by (auto simp: find_Some_iff)
  then have "p_state (procs s p) = SLEEPING" using pinvD(3) [OF assms(2)] by (metis home_eq_SL)
  then show ?thesis using Some assms(1,3) by (auto simp: wakeup_effect_def effect_def)
qed (use assms(1) in \<open>simp add: wakeup_effect_def\<close>)

lemma wakeup_piping:
  assumes "piping c a me s"
  shows "wp (wakeup_P4 c ch s) (\<lambda>t. piping c a me t \<and> pipes t = pipes s)"
proof -
  have "wp (wakeup_P4 c ch s) (\<lambda>t. pinv {} t \<and> mach_eq s t \<and> kstate.more t = kstate.more s \<and>
      (\<exists>u. wakeup_effect ch {} (acquired c Lk_ptable s) u \<and> t = released c Lk_ptable u))"
    using assms by (intro wakeup_nested) (simp_all add: piping_def)
  then show ?thesis
  proof (rule wp_mono, elim conjE exE)
    fix t u
    assume t: "pinv {} t" "mach_eq s t" "kstate.more t = kstate.more s"
      and u: "wakeup_effect ch {} (acquired c Lk_ptable s) u" "t = released c Lk_ptable u"
    have "core u me = core s me" using wakeup_awake [OF u(1), of me] assms by (simp add: piping_def)
    then have "p_state (core t me) = RUNNING" using u(2) assms by (simp add: piping_def del: core_sel) (simp add: core_sel)
    then show "piping c a me t \<and> pipes t = pipes s"
      using assms t(1) mach_eqD [OF t(2)] more_pipes [OF t(3)] by (simp add: piping_def)
  qed
qed

lemma sleep_piping:
  assumes "piping c a me s"
  shows "wp (sleep_P4 c ch (Some (Lk_pipe a)) s) (\<lambda>t. pipes t = pipes s \<and> p_state (procs t me) = SLEEPING \<and> p_chan (procs t me) = ch)"
proof -
  let ?l = "sleeping_locked c (Some (Lk_pipe a)) s"
  have cs: "can_sleep c (Some (Lk_pipe a)) s" using assms by (simp add: can_sleep_def piping_def unlocked_def lock_free_def)
  have more: "pipes ?l = pipes s"
    by (simp add: sleeping_locked_def released_def acquired_def popped_def pushed_def set_lock_def touched_def)
  show ?thesis
  proof (rule wp_mono [OF sleep_P4_spec [OF cs]])
    fix t
    assume e: "effect {} (shift (SL RUNNING) (SL SLEEPING) me (view s))
      ((core s)(me := switched_out (ticks s) (K_sleep (c_intena (cpus ?l c)) (Some (Lk_pipe a))) (put_to_sleep (ticks s) ch (core s me)))) ?l t"
    have "kstate.more t = kstate.more ?l" using effectD(4) [OF e] by (simp add: same_rest_def)
    moreover have "p_state (core t me) = SLEEPING" "p_chan (core t me) = ch"
      using effectD(3) [OF e] by (simp_all add: put_to_sleep_def charged_def Let_def del: core_sel)
    ultimately show "pipes t = pipes s \<and> p_state (procs t me) = SLEEPING \<and> p_chan (procs t me) = ch"
      using more_pipes [of t ?l] more by simp
  qed (use assms in \<open>simp_all add: piping_def\<close>)
qed

definition wrote :: "nat \<Rightarrow> uint \<Rightarrow> nat \<Rightarrow> uchar list \<Rightarrow> 'a pipe_state_scheme \<Rightarrow> write_outcome \<times> 'a pipe_state_scheme \<Rightarrow> bool" where
  "wrote c a me bs s x \<longleftrightarrow> (case x of (r, t) \<Rightarrow> pipe_ok (pipes t a) \<and>
     (case r of
        W_all \<Rightarrow> piping c a me t \<and> held_bytes (pipes t a) = held_bytes (pipes s a) @ bs
      | W_closed \<Rightarrow> piping c a me t \<and> (\<not> pi_readopen (pipes s a) \<or> p_killed (procs s me)) \<and>
          (\<exists>w v. bs = w @ v \<and> v \<noteq> [] \<and> held_bytes (pipes t a) = held_bytes (pipes s a) @ w)
      | W_sleep v \<Rightarrow> p_state (procs t me) = SLEEPING \<and> p_chan (procs t me) = ch_nwrite a \<and> length (held_bytes (pipes t a)) = 512 \<and>
          (\<exists>w. bs = w @ v \<and> v \<noteq> [] \<and> held_bytes (pipes t a) = held_bytes (pipes s a) @ w)))"

lemma wrote_step:
  assumes "wrote c a me bs (upd_pipe a (pipe_put b) s) x" "held_bytes (pipe_put b (pipes s a)) = held_bytes (pipes s a) @ [b]"
  shows "wrote c a me (b # bs) s x"
proof -
  have "pi_readopen (pipe_put b (pipes s a)) = pi_readopen (pipes s a)" by (simp add: pipe_put_def)
  then show ?thesis using assms by (auto simp: wrote_def split: write_outcome.splits)
qed

lemma pipewrite_loop_spec:
  assumes "piping c a me s" "pipe_ok (pipes s a)"
  shows "wp (pipewrite_loop c a bs s) (wrote c a me bs s)"
  using assms
proof (induction bs arbitrary: s)
  case Nil
  then show ?case by (simp add: wrote_def)
next
  case (Cons b bs)
  show ?case
  proof (cases "length (held_bytes (pipes s a)) = 512")
    case True
    then have full: "pi_nwrite (pipes s a) = pi_nread (pipes s a) + PIPESIZE" by (simp add: pipe_full_iff)
    show ?thesis
    proof (cases "pi_readopen (pipes s a) \<and> \<not> p_killed (procs s me)")
      case False
      then show ?thesis using full Cons.prems piping_myproc [OF Cons.prems(1)] by (auto simp: wrote_def)
    next
      case go: True
      have "wp (rbind (wakeup_P4 c (ch_nread a) s) (sleep_P4 c (ch_nwrite a) (Some (Lk_pipe a))))
          (\<lambda>t. pipes t = pipes s \<and> p_state (procs t me) = SLEEPING \<and> p_chan (procs t me) = ch_nwrite a)"
      proof (rule wp_bindI [OF wakeup_piping [OF Cons.prems(1)]], elim conjE)
        fix t assume t: "piping c a me t" "pipes t = pipes s"
        show "wp (sleep_P4 c (ch_nwrite a) (Some (Lk_pipe a)) t)
            (\<lambda>t. pipes t = pipes s \<and> p_state (procs t me) = SLEEPING \<and> p_chan (procs t me) = ch_nwrite a)"
          using sleep_piping [OF t(1)] t(2) by simp
      qed
      then show ?thesis using go full True Cons.prems(2) piping_myproc [OF Cons.prems(1)]
        by (auto simp: wrote_def elim!: wp_mono)
    qed
  next
    case False
    note put = pipe_put_spec [OF Cons.prems(2) False, of b]
    have "wp (pipewrite_loop c a bs (upd_pipe a (pipe_put b) s)) (wrote c a me bs (upd_pipe a (pipe_put b) s))"
      using Cons.prems(1) put(2) by (intro Cons.IH) simp_all
    moreover have "pi_nwrite (pipes s a) \<noteq> pi_nread (pipes s a) + PIPESIZE" using False by (simp add: pipe_full_iff)
    ultimately show ?thesis using wrote_step [OF _ put(1)] by (auto elim!: wp_mono)
  qed
qed

lemma piperead_copy_spec:
  assumes "piping c a me s" "pipe_ok (pipes s a)"
  shows "\<exists>t. piperead_copy a n dst s = (dst @ take n (held_bytes (pipes s a)), t) \<and> piping c a me t \<and> pipe_ok (pipes t a) \<and>
    held_bytes (pipes t a) = drop n (held_bytes (pipes s a)) \<and> pi_writeopen (pipes t a) = pi_writeopen (pipes s a)"
  using assms
proof (induction n arbitrary: dst s)
  case (Suc n)
  let ?p = "pipes s a"
  show ?case
  proof (cases "pi_nread ?p = pi_nwrite ?p")
    case True
    then have "held_bytes ?p = []" by (simp add: held_bytes_def)
    with True Suc.prems show ?thesis by simp
  next
    case False
    let ?q = "?p\<lparr>pi_nread := pi_nread ?p + 1\<rparr>" and ?x = "pi_data ?p (unat (pi_nread ?p mod PIPESIZE))"
    let ?u = "upd_pipe a (\<lambda>p. p\<lparr>pi_nread := pi_nread p + 1\<rparr>) s"
    note g = pipe_get_spec [OF False]
    have "pipe_ok ?q" using Suc.prems(2) g by (simp add: pipe_ok_def)
    then obtain t where "piperead_copy a n (dst @ [?x]) ?u = ((dst @ [?x]) @ take n (held_bytes ?q), t)"
      "piping c a me t" "pipe_ok (pipes t a)" "held_bytes (pipes t a) = drop n (held_bytes ?q)" "pi_writeopen (pipes t a) = pi_writeopen ?p"
      using Suc.IH [of ?u "dst @ [?x]"] Suc.prems(1) by auto
    with False g show ?thesis by (auto simp: Let_def)
  qed
qed simp

text \<open>A process about to call: no locks held, the pipe's and the table's free.\<close>

definition pipe_call :: "nat \<Rightarrow> uint \<Rightarrow> nat \<Rightarrow> 'a pipe_state_scheme \<Rightarrow> bool" where
  "pipe_call c a me s \<longleftrightarrow> machine_ok s \<and> c < ncpu s \<and> lock_free (Lk_pipe a) s \<and> c_ncli (cpus s c) = 0 \<and>
     unlocked Lk_ptable s \<and> pinv {} s \<and> c_proc (cpus s c) = Some me \<and> me < NPROC \<and> p_state (procs s me) = RUNNING"

lemma pipe_enter:
  assumes "pipe_call c a me s"
  shows "acquire c (Lk_pipe a) s = Ok (acquired c (Lk_pipe a) s)" "piping c a me (acquired c (Lk_pipe a) s)"
    "pipes (acquired c (Lk_pipe a) s) = pipes s" "procs (acquired c (Lk_pipe a) s) = procs s"
proof -
  show "acquire c (Lk_pipe a) s = Ok (acquired c (Lk_pipe a) s)" using assms by (intro acquire_eq) (simp_all add: pipe_call_def)
  have "unlocked Lk_ptable (acquired c (Lk_pipe a) s)"
    using assms by (simp add: pipe_call_def acquired_def set_lock_def unlocked_def pushed_def)
  moreover have "machine_ok (acquired c (Lk_pipe a) s)" "held_by (Lk_pipe a) (acquired c (Lk_pipe a) s) = Some c"
    "c_ncli (cpus (acquired c (Lk_pipe a) s) c) = 1" "c_proc (cpus (acquired c (Lk_pipe a) s) c) = Some me" "ncpu (acquired c (Lk_pipe a) s) = ncpu s"
    using assms by (simp_all add: pipe_call_def acquired_def)
  ultimately show "piping c a me (acquired c (Lk_pipe a) s)" using assms by (simp add: pipe_call_def piping_def)
qed (simp_all add: acquired_def set_lock_def pushed_def)

lemma pipe_leave:
  assumes "piping c a me s"
  shows "release c (Lk_pipe a) s = Ok (released c (Lk_pipe a) s)" "pipe_call c a me (released c (Lk_pipe a) s)"
    "pipes (released c (Lk_pipe a) s) = pipes s"
proof -
  have m: "machine_ok s" "c < ncpu s" "held_by (Lk_pipe a) s = Some c" "0 < c_ncli (cpus s c)" using assms by (simp_all add: piping_def)
  show "release c (Lk_pipe a) s = Ok (released c (Lk_pipe a) s)" by (rule release_eq [OF m(1,2,3,4)])
  show "pipe_call c a me (released c (Lk_pipe a) s)"
    using assms m by (simp add: pipe_call_def piping_def released_nested) (simp add: set_lock_def popped_def unlocked_def)
qed (simp add: released_def set_lock_def popped_def touched_def)

text \<open>
  Property C30. What \<open>pipewrite\<close> does to the stream: it appends the bytes written, in order, behind those already held, and
  never holds more than 512. It returns \<open>n\<close> with the locks free when all went in; it returns -1 only when the reading end
  is closed or the caller was killed, with a proper prefix appended; otherwise it is asleep on \<open>nwrite\<close> with the ring
  full, and some prefix appended.
\<close>

theorem pipewrite_appends:
  assumes "pipe_call c a me s" "pipe_ok (pipes s a)"
  shows "wp (pipewrite c a addr n s) (\<lambda>(r, t). pipe_ok (pipes t a) \<and>
    (\<exists>w v. map addr [0..<nat n] = w @ v \<and> held_bytes (pipes t a) = held_bytes (pipes s a) @ w \<and>
      (case r of
         Some x \<Rightarrow> pipe_call c a me t \<and>
           (x = n \<and> v = [] \<or> x = -1 \<and> v \<noteq> [] \<and> (pi_readopen (pipes s a) \<longrightarrow> p_killed (procs s me)))
       | None \<Rightarrow> v \<noteq> [] \<and> length (held_bytes (pipes t a)) = 512 \<and> p_state (procs t me) = SLEEPING \<and>
           p_chan (procs t me) = ch_nwrite a)))" (is "wp _ ?Q")
proof -
  let ?a = "acquired c (Lk_pipe a) s" and ?bs = "map addr [0..<nat n]"
  note e = pipe_enter [OF assms(1)]
  have "wp (pipewrite_loop c a ?bs ?a) (wrote c a me ?bs ?a)" using e assms(2) by (intro pipewrite_loop_spec) simp_all
  then have "wp (rbind (pipewrite_loop c a ?bs ?a) (\<lambda>(r, s). pipewrite_end c a n r s)) ?Q"
  proof (rule wp_bindI)
    fix x assume w: "wrote c a me ?bs ?a x"
    obtain r t where x: "x = (r, t)" by (cases x)
    show "wp (case x of (r, s) \<Rightarrow> pipewrite_end c a n r s) ?Q"
    proof (cases r)
      case W_all
      then have t: "piping c a me t" "held_bytes (pipes t a) = held_bytes (pipes s a) @ ?bs" "pipe_ok (pipes t a)"
        using w x e(3) by (simp_all add: wrote_def)
      have "wp (rbind (wakeup_P4 c (ch_nread a) t) (\<lambda>s. rbind (release c (Lk_pipe a) s) (\<lambda>s. Ok (Some n, s)))) ?Q"
        by (rule wp_bindI [OF wakeup_piping [OF t(1)]]) (use t pipe_leave in \<open>auto simp: pipe_leave\<close>)
      then show ?thesis using x W_all by (simp add: pipewrite_end_def)
    next
      case W_closed
      then show ?thesis using w x e(3,4) pipe_leave [of c a me t] by (auto simp: wrote_def pipewrite_end_def)
    next
      case (W_sleep v)
      then show ?thesis using w x e(3) by (auto simp: wrote_def pipewrite_end_def)
    qed
  qed
  then show ?thesis by (simp add: pipewrite_def e(1))
qed

definition sample_pipe :: "pipe \<Rightarrow> pipe_state" where
  "sample_pipe p = kmem_state.extend sample_kmem (pipe_state.fields (\<lambda>_. p))"

lemma sample_pipe_call: "pipe_call 0 a 0 (sample_pipe p)" "pipes (sample_pipe p) = (\<lambda>_. p)" "procs (sample_pipe p) = sample_proc"
proof -
  have f: "procs (sample_pipe p) = procs sample" "plist (sample_pipe p) = plist sample" "ready (sample_pipe p) = ready sample"
    "locks (sample_pipe p) = locks sample" "cpus (sample_pipe p) = cpus sample" "ncpu (sample_pipe p) = ncpu sample"
    "lapic_id (sample_pipe p) = lapic_id sample" "eflags_if (sample_pipe p) = eflags_if sample"
    by (simp_all add: sample_pipe_def pipe_state.defs kmem_state.defs sample_kmem_def cons_state.defs sample_cons_def kstate.defs sample_def)
  have "pinv {} (sample_pipe p) = pinv {} sample" by (rule pinv_cong) (simp_all add: f)
  then show "pipe_call 0 a 0 (sample_pipe p)"
    using sample_pinv sample_machine by (simp add: pipe_call_def machine_ok_def lock_free_def unlocked_def f NPROC_def) (simp add: sample_def)
  show "pipes (sample_pipe p) = (\<lambda>_. p)" by (simp add: sample_pipe_def pipe_state.defs kmem_state.defs)
  show "procs (sample_pipe p) = sample_proc" using f(1) by simp
qed

theorem pipewrite_appends_witness:
  "wp (pipewrite 0 0x80400000 of_nat 3 (sample_pipe \<lparr>pi_data = (\<lambda>_. 7), pi_nread = 9, pi_nwrite = 10, pi_readopen = True, pi_writeopen = True\<rparr>))
    (\<lambda>(r, t). r = Some 3 \<and> held_bytes (pipes t 0x80400000) = [7, 0, 1, 2])"
proof -
  let ?p = "\<lparr>pi_data = (\<lambda>_. 7), pi_nread = 9, pi_nwrite = 10, pi_readopen = True, pi_writeopen = True\<rparr>"
  have h: "held_bytes ?p = [7]" by (simp add: held_bytes_def ring_def)
  then have ok: "pipe_ok (pipes (sample_pipe ?p) 0x80400000)" by (simp add: pipe_ok_def sample_pipe_call(2))
  have k: "\<not> p_killed (sample_proc 0)" by (simp add: user_proc_def blank_proc_def)
  have m: "map of_nat [0..<nat 3] = [0, 1, 2 :: uchar]" by (simp add: upt_rec)
  have l: "length w \<le> 3" if "[0, 1, 2 :: uchar] = w @ v" for w v using arg_cong [OF that, of length] by simp
  show ?thesis
  proof (rule wp_mono [OF pipewrite_appends [OF sample_pipe_call(1) ok, of of_nat 3]], clarify)
    fix r :: "int option" and t :: pipe_state and w v :: "uchar list"
    assume w: "map of_nat [0..<nat 3] = w @ v" "held_bytes (pipes t 0x80400000) = held_bytes (pipes (sample_pipe ?p) 0x80400000) @ w"
      and r: "case r of
         Some x \<Rightarrow> pipe_call 0 0x80400000 0 t \<and> (x = 3 \<and> v = [] \<or> x = -1 \<and> v \<noteq> [] \<and>
           (pi_readopen (pipes (sample_pipe ?p) 0x80400000) \<longrightarrow> p_killed (procs (sample_pipe ?p) 0)))
       | None \<Rightarrow> v \<noteq> [] \<and> length (held_bytes (pipes t 0x80400000)) = 512 \<and> p_state (procs t 0) = SLEEPING \<and>
           p_chan (procs t 0) = ch_nwrite 0x80400000"
    have "length w \<le> 3" using l [of w v] w(1) m by simp
    then have "r \<noteq> None" using r w(2) h by (intro notI) (simp add: sample_pipe_call(2))
    then have "r = Some 3" "v = []" using r k by (auto simp: sample_pipe_call(2,3))
    then show "r = Some 3 \<and> held_bytes (pipes t 0x80400000) = [7, 0, 1, 2]" using w m h by (simp add: sample_pipe_call(2))
  qed
qed

text \<open>
  Property C31. What \<open>piperead\<close> does to the stream: it returns the first bytes held, as many as asked for and there are, in
  order, and removes exactly those. It returns 0 bytes only when none are held and the writing end is closed or no byte
  was asked for, -1 only when the caller was killed with none held, and otherwise is asleep on \<open>nread\<close> with the pipe
  empty and its writing end open.
\<close>

theorem piperead_takes:
  assumes "pipe_call c a me s" "pipe_ok (pipes s a)"
  shows "wp (piperead c a n s) (\<lambda>(r, t). pipe_ok (pipes t a) \<and>
    (case r of
       Some (x, bs) \<Rightarrow> pipe_call c a me t \<and> held_bytes (pipes s a) = bs @ held_bytes (pipes t a) \<and>
         (x = int (length bs) \<and> length bs = min (nat n) (length (held_bytes (pipes s a))) \<and>
            (held_bytes (pipes s a) = [] \<longrightarrow> \<not> pi_writeopen (pipes s a)) \<or>
          x = -1 \<and> held_bytes (pipes s a) = [] \<and> p_killed (procs s me))
     | None \<Rightarrow> held_bytes (pipes s a) = [] \<and> pi_writeopen (pipes s a) \<and> pipes t = pipes s \<and>
         p_state (procs t me) = SLEEPING \<and> p_chan (procs t me) = ch_nread a))" (is "wp _ ?Q")
proof -
  let ?a = "acquired c (Lk_pipe a) s"
  note e = pipe_enter [OF assms(1)]
  note empty = held_empty [of "pipes s a"]
  have "wp (rbind (piperead_wait c a ?a) (\<lambda>(r, s). piperead_go c a n r s)) ?Q"
  proof (cases "held_bytes (pipes s a) = [] \<and> pi_writeopen (pipes s a)")
    case True
    then have w: "pi_nread (pipes ?a a) = pi_nwrite (pipes ?a a) \<and> pi_writeopen (pipes ?a a)" using empty e(3) by simp
    show ?thesis
    proof (cases "p_killed (procs s me)")
      case killed: True
      then have "piperead_wait c a ?a = Ok (PR_killed, ?a)" using w e(4) piping_myproc [OF e(2)] by (simp add: piperead_wait_def)
      then show ?thesis using True killed pipe_leave [OF e(2)] e(3) assms(2) by (simp add: piperead_go_def)
    next
      case False
      then have "piperead_wait c a ?a = rbind (sleep_P4 c (ch_nread a) (Some (Lk_pipe a)) ?a) (\<lambda>s. Ok (PR_sleep, s))"
        using w e(4) piping_myproc [OF e(2)] by (simp add: piperead_wait_def)
      then show ?thesis using True e(3) assms(2)
        by (simp add: piperead_go_def) (auto elim!: wp_mono intro: wp_mono [OF sleep_piping [OF e(2)]])
    qed
  next
    case False
    then have w: "piperead_wait c a ?a = Ok (PR_go, ?a)" using empty e(3) by (auto simp: piperead_wait_def)
    obtain t where t: "piperead_copy a (nat n) [] ?a = (take (nat n) (held_bytes (pipes s a)), t)" "piping c a me t"
      "pipe_ok (pipes t a)" "held_bytes (pipes t a) = drop (nat n) (held_bytes (pipes s a))"
      using piperead_copy_spec [OF e(2), of "nat n" "[]"] assms(2) e(3) by auto
    have "wp (rbind (wakeup_P4 c (ch_nwrite a) t) (\<lambda>s. rbind (release c (Lk_pipe a) s) (\<lambda>s.
        Ok (Some (int (length (take (nat n) (held_bytes (pipes s0 a)))), take (nat n) (held_bytes (pipes s0 a))), s)))) ?Q"
      if "s0 = s" for s0
      by (rule wp_bindI [OF wakeup_piping [OF t(2)]]) (use t False that in \<open>auto simp: pipe_leave\<close>)
    then show ?thesis using w t(1) by (simp add: piperead_go_def)
  qed
  then show ?thesis by (simp add: piperead_def e(1))
qed

theorem piperead_takes_witness:
  "wp (piperead 0 0x80400000 100 (sample_pipe \<lparr>pi_data = of_nat, pi_nread = 0xFFFFFFFF, pi_nwrite = 2, pi_readopen = True, pi_writeopen = True\<rparr>))
    (\<lambda>(r, t). r = Some (3, [255, 0, 1]) \<and> held_bytes (pipes t 0x80400000) = [])"
proof -
  let ?p = "\<lparr>pi_data = of_nat, pi_nread = 0xFFFFFFFF, pi_nwrite = 2, pi_readopen = True, pi_writeopen = True\<rparr>"
  have h: "held_bytes ?p = [255, 0, 1]" by (simp add: held_bytes_def ring_def rslot_def upt_rec)
  then have ok: "pipe_ok (pipes (sample_pipe ?p) 0x80400000)" by (simp add: pipe_ok_def sample_pipe_call(2))
  show ?thesis
  proof (rule wp_mono [OF piperead_takes [OF sample_pipe_call(1) ok, of 100]], clarify)
    fix r and t :: pipe_state
    assume r: "case r of
       Some (x, bs) \<Rightarrow> pipe_call 0 0x80400000 0 t \<and>
         held_bytes (pipes (sample_pipe ?p) 0x80400000) = bs @ held_bytes (pipes t 0x80400000) \<and>
         (x = int (length bs) \<and> length bs = min (nat 100) (length (held_bytes (pipes (sample_pipe ?p) 0x80400000))) \<and>
            (held_bytes (pipes (sample_pipe ?p) 0x80400000) = [] \<longrightarrow> \<not> pi_writeopen (pipes (sample_pipe ?p) 0x80400000)) \<or>
          x = -1 \<and> held_bytes (pipes (sample_pipe ?p) 0x80400000) = [] \<and> p_killed (procs (sample_pipe ?p) 0))
     | None \<Rightarrow> held_bytes (pipes (sample_pipe ?p) 0x80400000) = [] \<and> pi_writeopen (pipes (sample_pipe ?p) 0x80400000) \<and>
         pipes t = pipes (sample_pipe ?p) \<and> p_state (procs t 0) = SLEEPING \<and> p_chan (procs t 0) = ch_nread 0x80400000"
    then obtain x bs where x: "r = Some (x, bs)" "[255, 0, 1] = bs @ held_bytes (pipes t 0x80400000)" "x = int (length bs)" "length bs = 3"
      using h by (cases r) (auto simp: sample_pipe_call(2))
    have "length [255, 0, 1 :: uchar] = length bs + length (held_bytes (pipes t 0x80400000))" by (simp only: x(2) length_append)
    then have "held_bytes (pipes t 0x80400000) = []" using x(4) by simp
    then show "r = Some (3, [255, 0, 1]) \<and> held_bytes (pipes t 0x80400000) = []" using x by simp
  qed
qed

end
