(* ===== verification/Proc_Table.thy ===== *)
theory Proc_Table
  imports Proc_Exit
begin

text \<open>
  The process code of the builds without state lists (\<open>proc.c\<close>, the \<open>#else\<close> branches: \<open>CS333_P1\<close> and \<open>CS333_P2\<close> defined,
  \<open>CS333_P3\<close> and \<open>CS333_P4\<close> not). Every search is a scan of \<open>ptable.proc\<close> in slot order and a transition is an
  assignment to \<open>state\<close>. What runs between the \<open>swtch\<close> of \<open>scheduler\<close> and the \<open>swtch\<close> back is the parameter \<open>run\<close>.
\<close>

section \<open>Operations\<close>

fun wakeup1_P0_scan :: "nat list \<Rightarrow> chan option \<Rightarrow> 'a kstate_scheme \<Rightarrow> 'a kstate_scheme" where
  "wakeup1_P0_scan [] ch s = s"
| "wakeup1_P0_scan (p # ps) ch s =
     wakeup1_P0_scan ps ch
       (if p_state (procs s p) = SLEEPING \<and> p_chan (procs s p) = ch
        then upd_proc p (p_state_update (\<lambda>_. RUNNABLE)) s else s)"

definition wakeup1_P0 :: "chan option \<Rightarrow> 'a kstate_scheme \<Rightarrow> 'a kstate_scheme" where
  "wakeup1_P0 ch s = wakeup1_P0_scan [0..<NPROC] ch s"

definition wakeup_P0 :: "nat \<Rightarrow> chan option \<Rightarrow> 'a kstate_scheme \<Rightarrow> 'a kstate_scheme res" where
  "wakeup_P0 c ch s = rbind (acquire c Lk_ptable s) (\<lambda>s. release c Lk_ptable (wakeup1_P0 ch s))"

definition yield_P0 :: "nat \<Rightarrow> 'a kstate_scheme \<Rightarrow> 'a kstate_scheme res" where
  "yield_P0 c s =
     rbind (myproc c s) (\<lambda>(mp, s).
     rbind (acquire c Lk_ptable s) (\<lambda>s.
     case mp of
       None \<Rightarrow> Undef
     | Some p \<Rightarrow> sched c K_yield (upd_proc p (p_state_update (\<lambda>_. RUNNABLE)) s)))"

definition sleep_P0 :: "nat \<Rightarrow> chan option \<Rightarrow> lockid option \<Rightarrow> 'a kstate_scheme \<Rightarrow> 'a kstate_scheme res" where
  "sleep_P0 c ch lk s =
     rbind (myproc c s) (\<lambda>(mp, s).
     case mp of
       None \<Rightarrow> Panic ''sleep''
     | Some p \<Rightarrow>
         rbind (sleep_lock c lk s) (\<lambda>s.
         sched c (\<lambda>ie. K_sleep ie lk) (upd_proc p (\<lambda>k. k\<lparr>p_chan := ch, p_state := SLEEPING\<rparr>) s)))"

fun find_slot :: "(proc \<Rightarrow> bool) \<Rightarrow> nat list \<Rightarrow> 'a kstate_scheme \<Rightarrow> nat option" where
  "find_slot P [] s = None"
| "find_slot P (p # ps) s = (if P (procs s p) then Some p else find_slot P ps s)"

definition kill_P0 :: "nat \<Rightarrow> uint \<Rightarrow> 'a kstate_scheme \<Rightarrow> (int \<times> 'a kstate_scheme) res" where
  "kill_P0 c pid s =
     rbind (acquire c Lk_ptable s) (\<lambda>s.
     case find_slot (\<lambda>k. p_pid k = pid) [0..<NPROC] s of
       Some p \<Rightarrow>
         let s = upd_proc p (p_killed_update (\<lambda>_. True)) s;
             s = (if p_state (procs s p) = SLEEPING then upd_proc p (p_state_update (\<lambda>_. RUNNABLE)) s else s)
         in rbind (release c Lk_ptable s) (\<lambda>s. Ok (0, s))
     | None \<Rightarrow> rbind (release c Lk_ptable s) (\<lambda>s. Ok (-1, s)))"

definition allocproc_take_P0 :: "nat \<Rightarrow> 'a kstate_scheme \<Rightarrow> (ptr \<times> 'a kstate_scheme) res" where
  "allocproc_take_P0 c s =
     rbind (acquire c Lk_ptable s) (\<lambda>s.
     case find_slot (\<lambda>k. p_state k = UNUSED) [0..<NPROC] s of
       None \<Rightarrow> rbind (release c Lk_ptable s) (\<lambda>s. Ok (None, s))
     | Some p \<Rightarrow>
         let s = (upd_proc p (\<lambda>k. k\<lparr>p_state := EMBRYO, p_pid := nextpid s\<rparr>) s)\<lparr>nextpid := nextpid s + 1\<rparr>
         in rbind (release c Lk_ptable s) (\<lambda>s. Ok (Some p, s)))"

fun reparent_P0 :: "nat list \<Rightarrow> nat \<Rightarrow> 'a kstate_scheme \<Rightarrow> 'a kstate_scheme" where
  "reparent_P0 [] cur s = s"
| "reparent_P0 (p # ps) cur s =
     reparent_P0 ps cur
       (if p_parent (procs s p) = Some cur then
          let s = upd_proc p (p_parent_update (\<lambda>_. initproc s)) s
          in if p_state (procs s p) = ZOMBIE then wakeup1_P0 (chan_of (initproc s)) s else s
        else s)"

definition exit_switch_P0 :: "nat \<Rightarrow> nat \<Rightarrow> 'a kstate_scheme \<Rightarrow> 'a kstate_scheme res" where
  "exit_switch_P0 c p s =
     rbind (acquire c Lk_ptable s) (\<lambda>s.
     let s = wakeup1_P0 (chan_of (p_parent (procs s p))) s;
         s = reparent_P0 [0..<NPROC] p s
     in sched c K_exit (upd_proc p (\<lambda>k. k\<lparr>p_state := ZOMBIE, p_sz := 0\<rparr>) s))"

definition exit_P0 :: "'a kstate_scheme services \<Rightarrow> nat \<Rightarrow> 'a kstate_scheme \<Rightarrow> 'a kstate_scheme res" where
  "exit_P0 sv c s =
     rbind (myproc c s) (\<lambda>(mp, s).
     case mp of
       None \<Rightarrow> if initproc s = None then Panic ''init exiting'' else Undef
     | Some p \<Rightarrow> rbind (exit_files sv p s) (exit_switch_P0 c p))"

fun wait_scan :: "nat list \<Rightarrow> ptr \<Rightarrow> bool \<Rightarrow> 'a kstate_scheme \<Rightarrow> bool \<times> nat option" where
  "wait_scan [] cur havekids s = (havekids, None)"
| "wait_scan (p # ps) cur havekids s =
     (if p_parent (procs s p) \<noteq> cur then wait_scan ps cur havekids s
      else if p_state (procs s p) = ZOMBIE then (True, Some p)
      else wait_scan ps cur True s)"

definition reap_P0 :: "'a kstate_scheme services \<Rightarrow> nat \<Rightarrow> nat \<Rightarrow> 'a kstate_scheme \<Rightarrow> (int \<times> 'a kstate_scheme) res" where
  "reap_P0 sv c p s =
     (let pid = p_pid (procs s p)
      in rbind (sv_kfree sv (p_kstack (procs s p)) s) (\<lambda>s.
         let s = upd_proc p (p_kstack_update (\<lambda>_. 0)) s
         in rbind (sv_freevm sv (p_pgdir (procs s p)) s) (\<lambda>s.
            let s = upd_proc p (\<lambda>k. k\<lparr>p_pid := 0, p_parent := None, p_name := [], p_killed := False, p_state := UNUSED\<rparr>) s
            in rbind (release c Lk_ptable s) (\<lambda>s. Ok (sint pid, s)))))"

definition wait_round_P0 ::
  "'a kstate_scheme services \<Rightarrow> nat \<Rightarrow> ptr \<Rightarrow> 'a kstate_scheme \<Rightarrow> ((int + unit) \<times> 'a kstate_scheme) res" where
  "wait_round_P0 sv c cur s =
     (case wait_scan [0..<NPROC] cur False s of
        (_, Some p) \<Rightarrow> rbind (reap_P0 sv c p s) (\<lambda>(r, s). Ok (Inl r, s))
      | (havekids, None) \<Rightarrow>
          if \<not> havekids then rbind (release c Lk_ptable s) (\<lambda>s. Ok (Inl (-1), s))
          else case cur of
            None \<Rightarrow> Undef
          | Some me \<Rightarrow>
              if p_killed (procs s me) then rbind (release c Lk_ptable s) (\<lambda>s. Ok (Inl (-1), s))
              else rbind (sleep_P0 c (chan_of cur) (Some Lk_ptable) s) (\<lambda>s. Ok (Inr (), s)))"

definition wait_P0 ::
  "'a kstate_scheme services \<Rightarrow> nat \<Rightarrow> 'a kstate_scheme \<Rightarrow> ((int + unit) \<times> 'a kstate_scheme) res" where
  "wait_P0 sv c s =
     rbind (myproc c s) (\<lambda>(cur, s).
     rbind (acquire c Lk_ptable s) (wait_round_P0 sv c cur))"

definition dispatch_P0 :: "nat \<Rightarrow> nat \<Rightarrow> 'a kstate_scheme \<Rightarrow> 'a kstate_scheme res" where
  "dispatch_P0 c p s =
     rbind (switchuvm c (Some p) (upd_cpu c (c_proc_update (\<lambda>_. Some p)) s)) (\<lambda>s.
     Ok (upd_proc p (\<lambda>k. k\<lparr>p_state := RUNNING, p_cpu_ticks_in := ticks s\<rparr>) s))"

text \<open>The scan returns the slots it rs; \<open>idle\<close> of the source is true when there are none.\<close>

fun scheduler_scan_P0 ::
  "(nat \<Rightarrow> 'a kstate_scheme \<Rightarrow> 'a kstate_scheme res) \<Rightarrow> nat \<Rightarrow> nat list \<Rightarrow> nat list \<Rightarrow> 'a kstate_scheme \<Rightarrow>
   (nat list \<times> 'a kstate_scheme) res" where
  "scheduler_scan_P0 run c [] rs s = Ok (rs, s)"
| "scheduler_scan_P0 run c (p # ps) rs s =
     (if p_state (procs s p) \<noteq> RUNNABLE then scheduler_scan_P0 run c ps rs s
      else
        rbind (dispatch_P0 c p s) (\<lambda>s.
        rbind (run p s) (\<lambda>s.
        scheduler_scan_P0 run c ps (rs @ [p]) (upd_cpu c (c_proc_update (\<lambda>_. None)) (switchkvm c s)))))"

definition scheduler_turn_P0 ::
  "(nat \<Rightarrow> 'a kstate_scheme \<Rightarrow> 'a kstate_scheme res) \<Rightarrow> nat \<Rightarrow> 'a kstate_scheme \<Rightarrow> (nat list \<times> 'a kstate_scheme) res" where
  "scheduler_turn_P0 run c s =
     rbind (acquire c Lk_ptable (sti c s)) (\<lambda>s.
     rbind (scheduler_scan_P0 run c [0..<NPROC] [] s) (\<lambda>(rs, s).
     rbind (release c Lk_ptable s) (\<lambda>s.
     Ok (rs, if rs = [] then sti c s else s))))"

section \<open>What the scans do\<close>

definition asleep_on :: "chan option \<Rightarrow> proc \<Rightarrow> bool" where
  "asleep_on ch k \<longleftrightarrow> p_state k = SLEEPING \<and> p_chan k = ch"

definition wake_all :: "nat set \<Rightarrow> chan option \<Rightarrow> (nat \<Rightarrow> proc) \<Rightarrow> nat \<Rightarrow> proc" where
  "wake_all A ch f = (\<lambda>p. if p \<in> A \<and> asleep_on ch (f p) then woken (f p) else f p)"

lemma wakeup1_P0_scan_eq: "wakeup1_P0_scan ps ch s = s\<lparr>procs := wake_all (set ps) ch (procs s)\<rparr>"
  by (induction ps arbitrary: s)
    (auto simp: wake_all_def asleep_on_def woken_def upd_proc_def fun_eq_iff intro!: kstate.equality)

lemma wakeup1_P0_eq: "wakeup1_P0 ch s = s\<lparr>procs := wake_all {..<NPROC} ch (procs s)\<rparr>"
  by (simp add: wakeup1_P0_def wakeup1_P0_scan_eq atLeast0LessThan)

lemma find_slot_eq: "find_slot P ps s = find (\<lambda>p. P (procs s p)) ps"
  by (induction ps) auto

lemma section_P0:
  assumes "at_rest c s" "unlocked Lk_ptable s" "mach_eq (acquired c Lk_ptable s) t"
  shows "acquire c Lk_ptable s = Ok (acquired c Lk_ptable s)" "release c Lk_ptable t = Ok (released c Lk_ptable t)"
    "mach_eq s (released c Lk_ptable t)"
  using at_rest_acquire [OF assms(1)] mach_section [OF _ _ assms(2,3)] assms(1) by (simp_all add: at_rest_def)

text \<open>
  Without state lists \<open>wakeup\<close> wakes every sleeper: it returns, makes exactly the slots asleep on the channel
  \<open>RUNNABLE\<close>, and changes no other field of any slot and nothing of the machine.
\<close>

theorem wakeup_P0_wakes_all:
  assumes "at_rest c s" "unlocked Lk_ptable s"
  shows "wp (wakeup_P0 c ch s) (\<lambda>t. mach_eq s t \<and>
    procs t = (\<lambda>p. if p < NPROC \<and> asleep_on ch (procs s p) then (procs s p)\<lparr>p_state := RUNNABLE\<rparr> else procs s p))"
proof -
  let ?a = "acquired c Lk_ptable s"
  have "mach_eq ?a (wakeup1_P0 ch ?a)" by (simp add: wakeup1_P0_eq mach_eq_def)
  note m = section_P0 [OF assms this]
  have "procs (released c Lk_ptable (wakeup1_P0 ch ?a)) = wake_all {..<NPROC} ch (procs s)" by (simp add: wakeup1_P0_eq)
  then show ?thesis using m by (simp add: wakeup_P0_def wake_all_def woken_def cong: if_cong)
qed

lemma sample_slots:
  "p_state (sample_proc 1) = SLEEPING" "p_chan (sample_proc 1) = Some (Ch_proc 1)"
  "p_state (sample_proc 2) = SLEEPING" "p_chan (sample_proc 2) = Some Ch_ticks"
  "p_state (sample_proc 3) = SLEEPING" "p_chan (sample_proc 3) = Some Ch_ticks"
  "p_state (sample_proc 4) = RUNNABLE" "p_state (sample_proc 5) = RUNNABLE"
  by (simp_all add: sample_proc_def user_proc_def blank_proc_def)

theorem wakeup_P0_wakes_all_witness:
  "\<exists>t. wakeup_P0 0 (Some Ch_ticks) sample = Ok t \<and> mach_eq sample t \<and> p_state (procs t 1) = SLEEPING \<and>
    p_state (procs t 2) = RUNNABLE \<and> p_state (procs t 3) = RUNNABLE"
proof -
  have "at_rest 0 sample" "unlocked Lk_ptable sample" using sample_at_rest by (simp_all add: unlocked_def sample_def)
  from wakeup_P0_wakes_all [OF this, of "Some Ch_ticks"] show ?thesis
    by (auto simp: wp_iff asleep_on_def NPROC_def sample_slots [simplified])
qed

section \<open>A turn of the scheduler reaches every runnable process\<close>

definition images_ok :: "'a kstate_scheme \<Rightarrow> bool" where
  "images_ok s \<longleftrightarrow> (\<forall>p. p_state (procs s p) \<in> {RUNNABLE, RUNNING} \<longrightarrow> image_ok (procs s p))"

text \<open>
  What the scheduler relies on while a process runs: it comes back with the table lock, whatever can run has a kernel
  stack and a page table, and other processes that were \<open>RUNNABLE\<close> still are.
\<close>

definition comes_back :: "(nat \<Rightarrow> 'a kstate_scheme \<Rightarrow> 'a kstate_scheme res) \<Rightarrow> nat \<Rightarrow> bool" where
  "comes_back run c \<longleftrightarrow> (\<forall>p s. in_ptable c s \<longrightarrow> images_ok s \<longrightarrow> p_state (procs s p) = RUNNING \<longrightarrow>
     wp (run p s) (\<lambda>t. in_ptable c t \<and> images_ok t \<and>
       (\<forall>q. q \<noteq> p \<longrightarrow> p_state (procs s q) = RUNNABLE \<longrightarrow> p_state (procs t q) = RUNNABLE)))"

lemma dispatch_P0_spec:
  assumes "in_ptable c s" "image_ok (procs s p)"
  shows "wp (dispatch_P0 c p s) (\<lambda>t. in_ptable c t \<and> c_proc (cpus t c) = Some p \<and>
    procs t = (procs s)(p := (procs s p)\<lparr>p_state := RUNNING, p_cpu_ticks_in := ticks s\<rparr>))"
proof -
  let ?u = "upd_cpu c (c_proc_update (\<lambda>_. Some p)) s"
  have "in_ptable c ?u" using assms(1) by (simp add: in_ptable_upd_cpu)
  moreover have "image_ok (procs ?u p)" using assms(2) by simp
  ultimately show ?thesis using assms(1)
    by (simp add: dispatch_P0_def switchuvm_eq in_ptable_upd_cpu)
qed

definition swept :: "nat \<Rightarrow> nat set \<Rightarrow> nat list \<Rightarrow> nat list \<Rightarrow> nat list \<times> 'a kstate_scheme \<Rightarrow> bool" where
  "swept c R ps rs x \<longleftrightarrow> in_ptable c (snd x) \<and>
     (\<exists>qs. fst x = rs @ qs \<and> distinct qs \<and> set qs \<subseteq> set ps \<and> R \<inter> set ps \<subseteq> set qs)"

lemma swept_skip: "swept c R ps rs x \<Longrightarrow> p \<notin> R \<Longrightarrow> swept c R (p # ps) rs x"
  unfolding swept_def by (elim conjE exE, intro conjI exI) auto

lemma swept_run: "swept c R ps (rs @ [p]) x \<Longrightarrow> p \<notin> set ps \<Longrightarrow> swept c R (p # ps) rs x"
  unfolding swept_def by (elim conjE exE, rule conjI, assumption, rule_tac x = "p # qs" in exI) auto

lemma scheduler_scan_P0_spec:
  assumes "comes_back run c" "in_ptable c s" "distinct ps" "images_ok s"
    "\<forall>p\<in>R \<inter> set ps. p_state (procs s p) = RUNNABLE"
  shows "wp (scheduler_scan_P0 run c ps rs s) (swept c R ps rs)"
  using assms(2-5)
proof (induction ps arbitrary: s rs)
  case Nil
  then show ?case by (simp add: swept_def)
next
  case (Cons p ps)
  show ?case
  proof (cases "p_state (procs s p) = RUNNABLE")
    case False
    then have "wp (scheduler_scan_P0 run c ps rs s) (swept c R ps rs)" using Cons.prems by (intro Cons.IH) auto
    then show ?thesis using False Cons.prems(4) by (auto intro: wp_mono swept_skip)
  next
    case True
    let ?after = "\<lambda>s. upd_cpu c (c_proc_update (\<lambda>_. None)) (switchkvm c s)"
    have step: "wp (scheduler_scan_P0 run c ps (rs @ [p]) (?after u)) (swept c R (p # ps) rs)"
      if "in_ptable c u" "images_ok u" "\<forall>q\<in>R \<inter> set ps. p_state (procs u q) = RUNNABLE" for u
    proof -
      have "wp (scheduler_scan_P0 run c ps (rs @ [p]) (?after u)) (swept c R ps (rs @ [p]))"
        using that Cons.prems(2) by (intro Cons.IH) (simp_all add: switchkvm_def in_ptable_upd_cpu images_ok_def)
      then show ?thesis using Cons.prems(2) by (auto intro: wp_mono swept_run)
    qed
    have k: "wp (rbind (run p t) (\<lambda>s. scheduler_scan_P0 run c ps (rs @ [p]) (?after s))) (swept c R (p # ps) rs)"
      if t: "in_ptable c t" "procs t = (procs s)(p := (procs s p)\<lparr>p_state := RUNNING, p_cpu_ticks_in := ticks s\<rparr>)" for t
    proof -
      have im: "images_ok t" using Cons.prems(3) True by (auto simp: t(2) images_ok_def image_ok_def)
      have "p_state (procs t p) = RUNNING" using t(2) by simp
      then have r: "wp (run p t) (\<lambda>u. in_ptable c u \<and> images_ok u \<and>
          (\<forall>q. q \<noteq> p \<longrightarrow> p_state (procs t q) = RUNNABLE \<longrightarrow> p_state (procs u q) = RUNNABLE))"
        using assms(1) t(1) im by (simp add: comes_back_def)
      show ?thesis by (rule wp_bindI [OF r], rule step) (use t(2) Cons.prems(2-4) in auto)
    qed
    have "wp (dispatch_P0 c p s) (\<lambda>t. in_ptable c t \<and> c_proc (cpus t c) = Some p \<and>
        procs t = (procs s)(p := (procs s p)\<lparr>p_state := RUNNING, p_cpu_ticks_in := ticks s\<rparr>))"
      using Cons.prems True by (intro dispatch_P0_spec) (simp_all add: images_ok_def)
    then have "wp (rbind (dispatch_P0 c p s) (\<lambda>t. rbind (run p t) (\<lambda>s. scheduler_scan_P0 run c ps (rs @ [p]) (?after s))))
        (swept c R (p # ps) rs)"
      by (rule wp_bindI) (rule k, simp_all)
    then show ?thesis using True by (simp only: scheduler_scan_P0.simps not_True_eq_False if_False refl)
  qed
qed


definition yields_at_once :: "nat \<Rightarrow> kstate \<Rightarrow> kstate res" where
  "yields_at_once p s = Ok (upd_proc p (p_state_update (\<lambda>_. RUNNABLE)) s)"


end
