(* ===== verification/Proc_P3.thy ===== *)
theory Proc_P3
  imports Proc_Table
begin

text \<open>
  The process code of the builds with state lists but without priorities (\<open>proc.c\<close>, the \<open>CS333_P3\<close> branches with
  \<open>CS333_P4\<close> not defined): \<open>RUNNABLE\<close> slots are on one list, \<open>ptable.list[RUNNABLE]\<close>. The lemmas relate these operations
  to the table scans they replace.
\<close>

section \<open>Operations\<close>

text \<open>The lists a loop from 1 below \<open>statecount\<close> visits.\<close>

definition used_lists :: "listref list" where
  "used_lists = [SL EMBRYO, SL SLEEPING, SL RUNNABLE, SL RUNNING, SL ZOMBIE]"

definition yield_P3 :: "nat \<Rightarrow> 'a kstate_scheme \<Rightarrow> 'a kstate_scheme res" where
  "yield_P3 c s =
     rbind (myproc c s) (\<lambda>(mp, s).
     rbind (acquire c Lk_ptable s) (\<lambda>s.
     case mp of
       None \<Rightarrow> Panic ''Process Not Found In RUNNING List!''
     | Some p \<Rightarrow>
         rbind (remove_or_panic (SL RUNNING) p RUNNING ''Process Not Found In RUNNING List!'' s) (\<lambda>s.
         rbind (stateListAdd (SL RUNNABLE) p (upd_proc p (p_state_update (\<lambda>_. RUNNABLE)) s)) (sched c K_yield))))"

definition sleep_P3 :: "nat \<Rightarrow> chan option \<Rightarrow> lockid option \<Rightarrow> 'a kstate_scheme \<Rightarrow> 'a kstate_scheme res" where
  "sleep_P3 c ch lk s =
     rbind (myproc c s) (\<lambda>(mp, s).
     case mp of
       None \<Rightarrow> Panic ''sleep''
     | Some p \<Rightarrow>
         rbind (sleep_lock c lk s) (\<lambda>s.
         rbind (remove_or_panic (SL RUNNING) p RUNNING ''Process Not Found In RUNNING List!''
                  (upd_proc p (p_chan_update (\<lambda>_. ch)) s)) (\<lambda>s.
         rbind (stateListAdd (SL SLEEPING) p (upd_proc p (p_state_update (\<lambda>_. SLEEPING)) s))
           (sched c (\<lambda>ie. K_sleep ie lk)))))"

definition to_runnable :: "nat \<Rightarrow> string \<Rightarrow> 'a kstate_scheme \<Rightarrow> 'a kstate_scheme res" where
  "to_runnable p msg s =
     rbind (remove_or_panic (SL SLEEPING) p SLEEPING msg s) (\<lambda>s.
     stateListAdd (SL RUNNABLE) p (upd_proc p (p_state_update (\<lambda>_. RUNNABLE)) s))"

fun wakeup1_P3_loop :: "nat \<Rightarrow> ptr \<Rightarrow> chan option \<Rightarrow> 'a kstate_scheme \<Rightarrow> 'a kstate_scheme res" where
  "wakeup1_P3_loop 0 pp ch s = Hang"
| "wakeup1_P3_loop (Suc k) pp ch s =
     (case pp of
        None \<Rightarrow> Ok s
      | Some p \<Rightarrow>
          rbind (if p_state (procs s p) = SLEEPING \<and> p_chan (procs s p) = ch
                 then to_runnable p ''Proccess Not Found In SLEEPING List!'' s else Ok s) (\<lambda>s.
          wakeup1_P3_loop k (p_next (procs s p)) ch s))"

definition wakeup1_P3 :: "chan option \<Rightarrow> 'a kstate_scheme \<Rightarrow> 'a kstate_scheme res" where
  "wakeup1_P3 ch s = wakeup1_P3_loop (Suc NPROC) (q_head (get_ptrs (SL SLEEPING) s)) ch s"

definition kill_P3 :: "nat \<Rightarrow> uint \<Rightarrow> 'a kstate_scheme \<Rightarrow> (int \<times> 'a kstate_scheme) res" where
  "kill_P3 c pid s =
     rbind (acquire c Lk_ptable s) (\<lambda>s.
     rbind (find_pid used_lists pid s) (\<lambda>r.
     case r of
       Some p \<Rightarrow>
         let s = upd_proc p (p_killed_update (\<lambda>_. True)) s
         in rbind (if p_state (procs s p) = SLEEPING
                   then to_runnable p ''Process Not Found in Sleeping List!'' s else Ok s) (\<lambda>s.
            rbind (release c Lk_ptable s) (\<lambda>s. Ok (0, s)))
     | None \<Rightarrow> rbind (release c Lk_ptable s) (\<lambda>s. Ok (-1, s))))"

fun exit_reparent_P3 :: "nat \<Rightarrow> ptr \<Rightarrow> nat \<Rightarrow> 'a kstate_scheme \<Rightarrow> 'a kstate_scheme res" where
  "exit_reparent_P3 0 pp cur s = Hang"
| "exit_reparent_P3 (Suc k) pp cur s =
     (case pp of
        None \<Rightarrow> Ok s
      | Some p \<Rightarrow>
          rbind (if p_parent (procs s p) = Some cur then
                   let s = upd_proc p (p_parent_update (\<lambda>_. initproc s)) s
                   in if p_state (procs s p) = ZOMBIE then wakeup1_P3 (chan_of (initproc s)) s else Ok s
                 else Ok s) (\<lambda>s.
          exit_reparent_P3 k (p_next (procs s p)) cur s))"

fun reparent_lists_P3 :: "listref list \<Rightarrow> nat \<Rightarrow> 'a kstate_scheme \<Rightarrow> 'a kstate_scheme res" where
  "reparent_lists_P3 [] cur s = Ok s"
| "reparent_lists_P3 (l # ls) cur s =
     rbind (exit_reparent_P3 (Suc NPROC) (q_head (get_ptrs l s)) cur s) (reparent_lists_P3 ls cur)"

definition exit_switch_P3 :: "nat \<Rightarrow> nat \<Rightarrow> 'a kstate_scheme \<Rightarrow> 'a kstate_scheme res" where
  "exit_switch_P3 c p s =
     rbind (acquire c Lk_ptable s) (\<lambda>s.
     rbind (wakeup1_P3 (chan_of (p_parent (procs s p))) s) (\<lambda>s.
     rbind (reparent_lists_P3 used_lists p s) (\<lambda>s.
     rbind (remove_or_panic (SL RUNNING) p RUNNING ''Process Not Found In Running List!'' s) (\<lambda>s.
     rbind (stateListAdd (SL ZOMBIE) p (upd_proc p (p_state_update (\<lambda>_. ZOMBIE)) s)) (\<lambda>s.
     sched c K_exit (upd_proc p (p_sz_update (\<lambda>_. 0)) s))))))"

definition exit_P3 :: "'a kstate_scheme services \<Rightarrow> nat \<Rightarrow> 'a kstate_scheme \<Rightarrow> 'a kstate_scheme res" where
  "exit_P3 sv c s =
     rbind (myproc c s) (\<lambda>(mp, s).
     case mp of
       None \<Rightarrow> if initproc s = None then Panic ''init exiting'' else Undef
     | Some p \<Rightarrow> rbind (exit_files sv p s) (exit_switch_P3 c p))"

definition wait_round_P3 ::
  "'a kstate_scheme services \<Rightarrow> nat \<Rightarrow> ptr \<Rightarrow> 'a kstate_scheme \<Rightarrow> ((int + unit) \<times> 'a kstate_scheme) res" where
  "wait_round_P3 sv c cur s =
     rbind (wait_lists used_lists cur False s) (\<lambda>(havekids, z).
     case z of
       Some p \<Rightarrow> rbind (reap sv c p s) (\<lambda>(r, s). Ok (Inl r, s))
     | None \<Rightarrow>
         if \<not> havekids then rbind (release c Lk_ptable s) (\<lambda>s. Ok (Inl (-1), s))
         else case cur of
           None \<Rightarrow> Undef
         | Some me \<Rightarrow>
             if p_killed (procs s me) then rbind (release c Lk_ptable s) (\<lambda>s. Ok (Inl (-1), s))
             else rbind (sleep_P3 c (chan_of cur) (Some Lk_ptable) s) (\<lambda>s. Ok (Inr (), s)))"

definition wait_P3 ::
  "'a kstate_scheme services \<Rightarrow> nat \<Rightarrow> 'a kstate_scheme \<Rightarrow> ((int + unit) \<times> 'a kstate_scheme) res" where
  "wait_P3 sv c s =
     rbind (myproc c s) (\<lambda>(cur, s).
     rbind (acquire c Lk_ptable s) (wait_round_P3 sv c cur))"

definition dispatch_P3 :: "nat \<Rightarrow> nat \<Rightarrow> 'a kstate_scheme \<Rightarrow> 'a kstate_scheme res" where
  "dispatch_P3 c p s =
     rbind (switchuvm c (Some p) (upd_cpu c (c_proc_update (\<lambda>_. Some p)) s)) (\<lambda>s.
     rbind (remove_or_panic (SL RUNNABLE) p RUNNABLE ''Process Not Found In RUNNABLE List!'' s) (\<lambda>s.
     rbind (stateListAdd (SL RUNNING) p (upd_proc p (p_state_update (\<lambda>_. RUNNING)) s)) (\<lambda>s.
     Ok (upd_proc p (p_cpu_ticks_in_update (\<lambda>_. ticks s)) s))))"

text \<open>
  The loop follows \<open>p->next\<close> as it is after the process has come back; \<open>k\<close> bounds its rounds, and \<open>Hang\<close> stands for a turn
  with more rounds than that.
\<close>

fun scheduler_loop_P3 ::
  "(nat \<Rightarrow> 'a kstate_scheme \<Rightarrow> 'a kstate_scheme res) \<Rightarrow> nat \<Rightarrow> nat \<Rightarrow> ptr \<Rightarrow> nat list \<Rightarrow> 'a kstate_scheme \<Rightarrow>
   (nat list \<times> 'a kstate_scheme) res" where
  "scheduler_loop_P3 run c 0 pp rs s = Hang"
| "scheduler_loop_P3 run c (Suc k) pp rs s =
     (case pp of
        None \<Rightarrow> Ok (rs, s)
      | Some p \<Rightarrow>
          rbind (dispatch_P3 c p s) (\<lambda>s.
          rbind (run p s) (\<lambda>s.
          let s = upd_cpu c (c_proc_update (\<lambda>_. None)) (switchkvm c s)
          in scheduler_loop_P3 run c k (p_next (procs s p)) (rs @ [p]) s)))"

definition scheduler_turn_P3 ::
  "(nat \<Rightarrow> 'a kstate_scheme \<Rightarrow> 'a kstate_scheme res) \<Rightarrow> nat \<Rightarrow> nat \<Rightarrow> 'a kstate_scheme \<Rightarrow> (nat list \<times> 'a kstate_scheme) res" where
  "scheduler_turn_P3 run c k s =
     rbind (acquire c Lk_ptable (sti c s)) (\<lambda>s.
     rbind (scheduler_loop_P3 run c k (q_head (get_ptrs (SL RUNNABLE) s)) [] s) (\<lambda>(rs, s).
     rbind (release c Lk_ptable s) (\<lambda>s.
     Ok (rs, if rs = [] then sti c s else s))))"

section \<open>The lists and the states\<close>

text \<open>Every slot is on the list of its state and on no other, but for the slots \<open>X\<close> in transit.\<close>

definition linv :: "nat set \<Rightarrow> 'a kstate_scheme \<Rightarrow> bool" where
  "linv X s \<longleftrightarrow> qinv s \<and> (\<forall>l p. p \<in> set (view s l) \<longleftrightarrow> p < NPROC \<and> p \<notin> X \<and> l = SL (p_state (procs s p)))"

lemma linvD:
  assumes "linv X s"
  shows "qinv s" "p \<in> set (view s l) \<longleftrightarrow> p < NPROC \<and> p \<notin> X \<and> l = SL (p_state (procs s p))"
  using assms by (simp_all add: linv_def)

lemma linv_table:
  assumes "procs t = procs s" "plist t = plist s" "ready t = ready s"
  shows "linv X t = linv X s"
proof -
  have "qinv t = qinv s"
    using view_cong [OF assms] assms by (simp add: qinv_def is_queue_def nx_def get_ptrs_def cong: listref.case_cong)
  then show ?thesis using view_cong [OF assms] assms(1) by (simp add: linv_def)
qed

lemma linv_locks [simp]: "linv X (acquired c lk s) = linv X s" "linv X (released c lk s) = linv X s"
  by (rule linv_table; simp add: acquired_def released_def pushed_def popped_def set_lock_def touched_def)+

lemma linv_upd:
  assumes "linv X s" "keeps_next f" "\<And>k. p_state (f k) = p_state k"
  shows "linv X (upd_proc p f s)"
proof -
  have "p_state (procs (upd_proc p f s) q) = p_state (procs s q)" for q using assms(3) by simp
  then show ?thesis using assms(1,2) by (simp add: linv_def)
qed

lemma linv_upd_transit:
  assumes "linv X s" "p \<in> X" "keeps_next f"
  shows "linv X (upd_proc p f s)"
proof -
  have "p_state (procs (upd_proc p f s) q) = p_state (procs s q)" if "q \<notin> X" for q using that assms(2) by auto
  then show ?thesis using assms(1,3) unfolding linv_def by (auto simp del: upd_proc_simps)
qed

lemma linv_remove:
  assumes "linv X s" "p < NPROC" "p \<notin> X" "p_state (procs s p) = st"
  shows "wp (remove_or_panic (SL st) p st msg s) (\<lambda>t. linv (insert p X) t \<and> core t = core s \<and> same_rest s t)"
proof -
  have "p \<in> set (view s (SL st))" using assms by (simp add: linvD)
  note r = stateListRemove_view [OF linvD(1) [OF assms(1)] this]
  have d: "distinct (view s (SL st))" using linvD(1) [OF assms(1)] by (rule qinvD)
  show ?thesis unfolding remove_or_panic_def wp_rbind
  proof (rule wp_mono [OF r], clarify)
    fix t
    assume t: "qinv t" "view t = (view s)(SL st := remove1 p (view s (SL st)))" "core t = core s" "same_rest s t"
    have same: "p_state (procs t q) = p_state (procs s q)" for q by (rule core_eqD(1) [OF t(3)])
    have "q \<in> set (view t l) \<longleftrightarrow> q < NPROC \<and> q \<notin> insert p X \<and> l = SL (p_state (procs t q))" for q l
      using d linvD(2) [OF assms(1), of q l] assms(4) by (cases "l = SL st") (auto simp: t(2) same)
    then have "linv (insert p X) t" using t(1) by (simp add: linv_def)
    then show "wp (if 0 = (-1::int) then Panic msg else rbind (assertState p st t) (\<lambda>_. Ok t)) (\<lambda>t. linv (insert p X) t \<and> core t = core s \<and> same_rest s t)"
      using t(3,4) assms(4) by (simp add: assertState_def same)
  qed
qed

lemma linv_add:
  assumes "linv X s" "p < NPROC" "p \<in> X" "p_state (procs s p) = st"
  shows "wp (stateListAdd (SL st) p s) (\<lambda>t. linv (X - {p}) t \<and> core t = core s \<and> same_rest s t)"
proof -
  have "unlisted p s" using assms(1,3) by (simp add: unlisted_def linvD)
  note a = stateListAdd_view [OF linvD(1) [OF assms(1)] assms(2) this]
  show ?thesis
  proof (rule wp_mono [OF a], elim conjE)
    fix t
    assume t: "qinv t" "view t = (view s)(SL st := view s (SL st) @ [p])" "core t = core s" "same_rest s t"
    have same: "p_state (procs t q) = p_state (procs s q)" for q by (rule core_eqD(1) [OF t(3)])
    have "q \<in> set (view t l) \<longleftrightarrow> q < NPROC \<and> q \<notin> X - {p} \<and> l = SL (p_state (procs t q))" for q l
      using linvD(2) [OF assms(1), of q l] assms(2-4) by (cases "l = SL st") (auto simp: t(2) same)
    then show "linv (X - {p}) t \<and> core t = core s \<and> same_rest s t" using t by (simp add: linv_def)
  qed
qed

text \<open>A transition between two states: off one list, update, onto the other.\<close>

lemma linv_move:
  assumes "linv {} s" "p < NPROC" "p_state (procs s p) = a" "link_free f" "\<And>k. p_state (f k) = b"
  shows "wp (rbind (remove_or_panic (SL a) p a msg s) (\<lambda>s. stateListAdd (SL b) p (upd_proc p f s)))
    (\<lambda>t. linv {} t \<and> core t = (core s)(p := f (core s p)) \<and> same_rest s t)"
proof (rule wp_bindI [OF linv_remove [OF assms(1,2) _ assms(3)]], simp, elim conjE)
  fix t
  assume t: "linv (insert p {}) t" "core t = core s" "same_rest s t"
  have "linv (insert p {}) (upd_proc p f t)"
    by (rule linv_upd_transit [OF t(1)]) (simp_all add: link_free_next [OF assms(4)])
  then have "wp (stateListAdd (SL b) p (upd_proc p f t)) (\<lambda>u. linv (insert p {} - {p}) u \<and> core u = core (upd_proc p f t) \<and>
      same_rest (upd_proc p f t) u)"
    by (rule linv_add) (simp_all add: assms(2,5))
  then show "wp (stateListAdd (SL b) p (upd_proc p f t)) (\<lambda>t. linv {} t \<and> core t = (core s)(p := f (core s p)) \<and> same_rest s t)"
    by (rule wp_mono) (use t in \<open>auto simp: link_free_core [OF assms(4)] intro: same_rest_trans\<close>)
qed

section \<open>The same transitions as the scans\<close>

lemma slot_with_scan:
  assumes "linv {} s" "pids_unique s" "\<forall>p<NPROC. p_state (procs s p) = UNUSED \<longrightarrow> p_pid (procs s p) \<noteq> pid"
  shows "slot_with pid s used_lists = find_slot (\<lambda>k. p_pid k = pid) [0..<NPROC] s"
proof (cases "find_slot (\<lambda>k. p_pid k = pid) [0..<NPROC] s")
  case None
  then have "p_pid (procs s p) \<noteq> pid" if "p < NPROC" for p using that by (auto simp: find_slot_eq find_None_iff)
  then have "slot_with pid s used_lists = None" by (auto simp: slot_with_None linvD(2) [OF assms(1)])
  with None show ?thesis by simp
next
  case (Some p)
  then have p: "p < NPROC" "p_pid (procs s p) = pid" by (auto simp: find_slot_eq find_Some_iff)
  then have u: "p_state (procs s p) \<noteq> UNUSED" using assms(3) by auto
  then have "SL (p_state (procs s p)) \<in> set used_lists" by (cases "p_state (procs s p)") (auto simp: used_lists_def)
  moreover have "p \<in> set (view s (SL (p_state (procs s p))))" using p by (simp add: linvD(2) [OF assms(1)])
  ultimately have "slot_with pid s used_lists \<noteq> None" using p(2) unfolding slot_with_None by blast
  then obtain q where q: "slot_with pid s used_lists = Some q" by auto
  have "q < NPROC" "p_pid (procs s q) = pid" "p_state (procs s q) \<noteq> UNUSED"
    using slot_with_Some [OF q] by (auto simp: linvD(2) [OF assms(1)] used_lists_def)
  then have "q = p" using assms(2) p u unfolding pids_unique_def by blast
  with Some q show ?thesis by simp
qed

lemma yield_P3_spec:
  assumes "at_rest c s" "linv {} s" "c_proc (cpus s c) = Some p" "p < NPROC" "p_state (procs s p) = RUNNING"
  shows "\<exists>t u. yield_P3 c s = Ok t \<and> yield_P0 c s = Ok u \<and> core t = core u \<and> linv {} t"
proof -
  let ?a = "acquired c Lk_ptable (touched c s)" and ?f = "p_state_update (\<lambda>_. RUNNABLE)"
  let ?o = "\<lambda>t. switched_out (ticks t) (K_yield (c_intena (cpus t c)))"
  have r: "at_rest c (touched c s)" using assms(1) by simp
  have a: "in_ptable c ?a" "linv {} ?a" "p_state (procs ?a p) = RUNNING" "c_proc (cpus ?a c) = Some p"
    using in_ptable_acquired [OF r] assms acquired_rest(2) [OF r] linv_table [of "touched c s" s "{}"]
    by (simp_all add: touched_def)
  have sched: "sched c K_yield x = Ok (upd_proc p (?o ?a) x)"
    if "same_rest ?a x" "p_state (procs x p) = RUNNABLE" for x
    using sched_eq [of c x p K_yield] a(1,4) that in_ptable_cong [OF that(1), of c] same_rest_machine [OF that(1)] by simp
  obtain t where t: "rbind (remove_or_panic (SL RUNNING) p RUNNING ''Process Not Found In RUNNING List!'' ?a) (\<lambda>s.
      stateListAdd (SL RUNNABLE) p (upd_proc p ?f s)) = Ok t" "linv {} t" "core t = (core ?a)(p := ?f (core ?a p))" "same_rest ?a t"
    using linv_move [OF a(2) assms(4) a(3), of ?f RUNNABLE "''Process Not Found In RUNNING List!''"] by (auto simp: wp_iff)
  have "p_state (procs t p) = RUNNABLE" using fun_cong [OF t(3), of p] by (simp flip: core_sel)
  note st = sched [OF t(4) this]
  have "yield_P3 c s = rbind (rbind (remove_or_panic (SL RUNNING) p RUNNING ''Process Not Found In RUNNING List!'' ?a) (\<lambda>s.
      stateListAdd (SL RUNNABLE) p (upd_proc p ?f s))) (sched c K_yield)"
    using assms(3) by (simp add: yield_P3_def at_rest_myproc [OF assms(1)] at_rest_acquire [OF r] rbind_assoc)
  then have y3: "yield_P3 c s = Ok (upd_proc p (?o ?a) t)" by (simp only: t(1) rbind_simps st)
  have y0: "yield_P0 c s = Ok (upd_proc p (?o ?a) (upd_proc p ?f ?a))"
    using assms(3) sched [of "upd_proc p ?f ?a"]
    by (simp add: yield_P0_def at_rest_myproc [OF assms(1)] at_rest_acquire [OF r])
  have "linv {} (upd_proc p (?o ?a) t)" by (rule linv_upd [OF t(2)]) (simp_all add: link_free_next)
  then show ?thesis using y3 y0 t(3) by (simp add: link_free_core)
qed

lemma kill_P3_spec:
  assumes "at_rest c s" "linv {} s" "pids_unique s" "\<forall>p<NPROC. p_state (procs s p) = UNUSED \<longrightarrow> p_pid (procs s p) \<noteq> pid"
  shows "\<exists>r t u. kill_P3 c pid s = Ok (r, t) \<and> kill_P0 c pid s = Ok (r, u) \<and> core t = core u \<and> linv {} t"
proof -
  let ?a = "acquired c Lk_ptable s" and ?k = "p_killed_update (\<lambda>_. True)" and ?f = "p_state_update (\<lambda>_. RUNNABLE)"
  have a: "in_ptable c ?a" "linv {} ?a" using in_ptable_acquired [OF assms(1)] assms(2) by simp_all
  have find: "find_pid used_lists pid ?a = Ok (find_slot (\<lambda>k. p_pid k = pid) [0..<NPROC] ?a)"
    using find_pid_eq [OF linvD(1) [OF a(2)]] slot_with_scan [OF a(2)] assms(3,4) by (simp add: pids_unique_def)
  have rel: "release c Lk_ptable x = Ok (released c Lk_ptable x)" if "same_rest ?a x" for x
    using in_ptable_cong [OF that, of c] a(1) by (simp add: in_ptable_release)
  show ?thesis
  proof (cases "find_slot (\<lambda>k. p_pid k = pid) [0..<NPROC] ?a")
    case None
    then show ?thesis using a rel [OF same_rest_refl] assms(2)
      by (simp add: kill_P3_def kill_P0_def at_rest_acquire [OF assms(1)] find)
  next
    case (Some p)
    then have p: "p < NPROC" by (auto simp: find_slot_eq find_Some_iff)
    let ?b = "upd_proc p ?k ?a"
    have b: "linv {} ?b" "same_rest ?a ?b" using linv_upd [OF a(2), of ?k p] by simp_all
    show ?thesis
    proof (cases "p_state (procs s p) = SLEEPING")
      case False
      then show ?thesis using Some b rel [OF b(2)]
        by (simp add: kill_P3_def kill_P0_def at_rest_acquire [OF assms(1)] find Let_def)
    next
      case True
      then have "p_state (procs ?b p) = SLEEPING" by simp
      from linv_move [OF b(1) p this, of ?f RUNNABLE "''Process Not Found in Sleeping List!''"]
      obtain t where t: "to_runnable p ''Process Not Found in Sleeping List!'' ?b = Ok t" "linv {} t"
        "core t = (core ?b)(p := ?f (core ?b p))" "same_rest ?b t" by (auto simp: wp_iff to_runnable_def)
      have rt: "same_rest ?a t" by (rule same_rest_trans [OF b(2) t(4)])
      have ru: "same_rest ?a (upd_proc p ?f ?b)" by simp
      show ?thesis using Some True t rel [OF rt] rel [OF ru]
        by (simp add: kill_P3_def kill_P0_def at_rest_acquire [OF assms(1)] find Let_def link_free_core)
    qed
  qed
qed


section \<open>An example table\<close>

definition sample3 :: kstate where
  "sample3 = sample\<lparr>procs := sample_proc(4 := (sample_proc 4)\<lparr>p_next := Some 5\<rparr>),
     plist := (plist sample)(RUNNABLE := \<lparr>q_head = Some 4, q_tail = Some 5\<rparr>),
     ready := (\<lambda>_. \<lparr>q_head = None, q_tail = None\<rparr>)\<rparr>"

definition sample3_lists :: "listref \<Rightarrow> nat list" where
  "sample3_lists l = (case l of SL st \<Rightarrow> if st = RUNNABLE then [4, 5] else sample_lists l | RL i \<Rightarrow> [])"

lemma sample3_queues: "is_queue sample3 l (sample3_lists l)"
proof (cases l)
  case (SL st)
  show ?thesis
  proof (cases "st = RUNNABLE")
    case True
    then show ?thesis using SL
      by (simp add: sample3_lists_def is_queue_def sample3_def get_ptrs_def nx_def sample_proc_def user_proc_def
          blank_proc_def last_ptr_def)
  next
    case False
    have "linked (nx sample3) q xs = linked (nx sample) q xs" if "4 \<notin> set xs" for q xs
      by (rule linked_cong) (use that in \<open>auto simp: nx_def sample3_def\<close>)
    moreover have "4 \<notin> set (sample_lists l)" using SL by (auto simp: sample_lists_def)
    moreover have "get_ptrs l sample3 = get_ptrs l sample" using SL False by (simp add: get_ptrs_def sample3_def)
    ultimately show ?thesis using sample_queues [of l] SL False by (simp add: is_queue_def sample3_lists_def)
  qed
qed (simp add: sample3_lists_def is_queue_def sample3_def get_ptrs_def last_ptr_def)

lemma sample3_linv: "linv {} sample3"
proof -
  have q: "qinv sample3 \<and> view sample3 = sample3_lists"
  proof (rule qinvI)
    show "is_queue sample3 l (sample3_lists l)" for l by (rule sample3_queues)
    show "set (sample3_lists l) \<subseteq> {..<NPROC}" for l
      by (cases l) (auto simp: sample3_lists_def sample_lists_def NPROC_def)
    show "set (sample3_lists l) \<inter> set (sample3_lists m) = {}" if "l \<noteq> m" for l m
      using that by (cases l; cases m) (auto simp: sample3_lists_def sample_lists_def split: if_splits)
  qed
  have s3: "p_state (procs sample3 p) = p_state (sample_proc p)" for p by (simp add: sample3_def)
  have "p \<in> set (sample3_lists l) \<longleftrightarrow> p < NPROC \<and> l = SL (p_state (sample_proc p))" for p l
  proof (cases l)
    case (SL st)
    consider "p \<in> {0, 1, 2, 3, 4, 5, 6}" | "7 \<le> p" by fastforce
    then show ?thesis
      using SL by cases (auto simp: sample_proc_def user_proc_def blank_proc_def sample_lists_def sample3_lists_def NPROC_def
        simp del: upt_rec_numeral)
  qed (simp add: sample3_lists_def)
  then show ?thesis using q by (simp add: linv_def s3)
qed


end
