(* ===== verification/Ulib.thy ===== *)
theory Ulib
  imports Console_Out
begin

text \<open>
  The user library (\<open>ulib.c\<close>) and its formatted output (\<open>printf.c\<close>). Loops that scan memory carry a count of the rounds
  left: a scan that has seen all \<open>2^32\<close> addresses without stopping never stops, and is \<open>Hang\<close>. Signed overflow is
  undefined behaviour (\<open>Undef\<close>). A system call is an argument: \<open>gets\<close> takes the bytes that its calls of \<open>read\<close> deliver, and
  \<open>printf\<close> yields the bytes of its one-byte calls of \<open>write\<close>.
\<close>

section \<open>Strings and memory\<close>

definition ROUNDS :: nat where "ROUNDS = 2 ^ 32"

function strcpy_loop :: "nat \<Rightarrow> bmem \<Rightarrow> uint \<Rightarrow> uint \<Rightarrow> bmem res" where
  "strcpy_loop k m s t =
     (if k = 0 then Hang
      else let c = m t; m = m(s := c)
           in if c \<noteq> 0 then strcpy_loop (k - 1) m (s + 1) (t + 1) else Ok m)"
  by auto
termination by (relation "measure (\<lambda>(k, m, s, t). k)") auto

definition strcpy :: "bmem \<Rightarrow> uint \<Rightarrow> uint \<Rightarrow> (uint \<times> bmem) res" where
  "strcpy m s t = rbind (strcpy_loop ROUNDS m s t) (\<lambda>m. Ok (s, m))"

function strcmp_loop :: "nat \<Rightarrow> bmem \<Rightarrow> uint \<Rightarrow> uint \<Rightarrow> int res" where
  "strcmp_loop k m p q =
     (if k = 0 then Hang
      else if m p \<noteq> 0 \<and> m p = m q then strcmp_loop (k - 1) m (p + 1) (q + 1)
      else Ok (uint (m p) - uint (m q)))"
  by auto
termination by (relation "measure (\<lambda>(k, m, p, q). k)") auto

definition strcmp :: "bmem \<Rightarrow> uint \<Rightarrow> uint \<Rightarrow> int res" where
  "strcmp m p q = strcmp_loop ROUNDS m p q"

definition ustrlen :: "bmem \<Rightarrow> uint \<Rightarrow> nat res" where
  "ustrlen m s = strlen_from m s 0"

definition umemset :: "bmem \<Rightarrow> uint \<Rightarrow> uint \<Rightarrow> uint \<Rightarrow> uint \<times> bmem" where
  "umemset m dst c n = (dst, stosb m dst (ucast c) (unat n))"

function strchr_loop :: "nat \<Rightarrow> bmem \<Rightarrow> uint \<Rightarrow> uchar \<Rightarrow> uint res" where
  "strchr_loop k m s c =
     (if k = 0 then Hang
      else if m s = 0 then Ok 0
      else if m s = c then Ok s
      else strchr_loop (k - 1) m (s + 1) c)"
  by auto
termination by (relation "measure (\<lambda>(k, m, s, c). k)") auto

definition strchr :: "bmem \<Rightarrow> uint \<Rightarrow> uchar \<Rightarrow> uint res" where
  "strchr m s c = strchr_loop ROUNDS m s c"

text \<open>\<open>ins\<close>: what the calls of \<open>read\<close> deliver; they return less than 1 once it is exhausted. \<open>k\<close> is \<open>max - 1 - i\<close>.\<close>

fun gets_loop :: "nat \<Rightarrow> uchar list \<Rightarrow> bmem \<Rightarrow> uint \<Rightarrow> uchar list \<times> bmem" where
  "gets_loop 0 ins m b = (ins, m(b := 0))"
| "gets_loop (Suc k) [] m b = ([], m(b := 0))"
| "gets_loop (Suc k) (c # ins) m b =
     (let m = m(b := c)
      in if c = 10 \<or> c = 13 then (ins, m(b + 1 := 0)) else gets_loop k ins m (b + 1))"

definition gets :: "uchar list \<Rightarrow> bmem \<Rightarrow> uint \<Rightarrow> int \<Rightarrow> uchar list \<times> bmem" where
  "gets ins m buf mx = gets_loop (nat (mx - 1)) ins m buf"

text \<open>\<open>open\<close>, \<open>fstat\<close> and \<open>close\<close> are arguments.\<close>

definition stat ::
  "('p \<Rightarrow> 's \<Rightarrow> int \<times> 's) \<Rightarrow> (int \<Rightarrow> 's \<Rightarrow> int \<times> 's) \<Rightarrow> (int \<Rightarrow> 's \<Rightarrow> 's) \<Rightarrow> 'p \<Rightarrow> 's \<Rightarrow> int \<times> 's" where
  "stat opn fstat cls n s =
     (case opn n s of (fd, s) \<Rightarrow>
        if fd < 0 then (-1, s)
        else case fstat fd s of (r, s) \<Rightarrow> (r, cls fd s))"

fun umemmove_loop :: "bmem \<Rightarrow> uint \<Rightarrow> uint \<Rightarrow> nat \<Rightarrow> bmem" where
  "umemmove_loop m dst src 0 = m"
| "umemmove_loop m dst src (Suc n) = umemmove_loop (m(dst := m src)) (dst + 1) (src + 1) n"

definition umemmove :: "bmem \<Rightarrow> uint \<Rightarrow> uint \<Rightarrow> int \<Rightarrow> uint \<times> bmem" where
  "umemmove m vdst vsrc n = (vdst, umemmove_loop m vdst vsrc (nat n))"

function ustrncmp_loop :: "bmem \<Rightarrow> uint \<Rightarrow> uint \<Rightarrow> nat \<Rightarrow> int" where
  "ustrncmp_loop m p q n =
     (if 0 < n \<and> m p \<noteq> 0 \<and> m p = m q then ustrncmp_loop m (p + 1) (q + 1) (n - 1)
      else if n = 0 then 0 else uint (m p) - uint (m q))"
  by auto
termination by (relation "measure (\<lambda>(m, p, q, n). n)") auto

definition ustrncmp :: "bmem \<Rightarrow> uint \<Rightarrow> uint \<Rightarrow> uint \<Rightarrow> int" where
  "ustrncmp m p q n = ustrncmp_loop m p q (unat n)"

section \<open>Numbers\<close>

function skip_spaces :: "nat \<Rightarrow> bmem \<Rightarrow> uint \<Rightarrow> uint res" where
  "skip_spaces k m s = (if k = 0 then Hang else if m s = 32 then skip_spaces (k - 1) m (s + 1) else Ok s)"
  by auto
termination by (relation "measure (\<lambda>(k, m, s). k)") auto

text \<open>An \<open>int\<close> result, or undefined behaviour.\<close>

definition in_int :: "int \<Rightarrow> bool" where
  "in_int x \<longleftrightarrow> - (2 ^ 31) \<le> x \<and> x < 2 ^ 31"

function ato_loop :: "nat \<Rightarrow> int \<Rightarrow> bmem \<Rightarrow> uint \<Rightarrow> int \<Rightarrow> int res" where
  "ato_loop k base m s n =
     (if k = 0 then Hang
      else if 48 \<le> m s \<and> uint (m s) < 48 + base then
        if in_int (n * base) \<and> in_int (n * base + uint (m s))
        then ato_loop (k - 1) base m (s + 1) (n * base + uint (m s) - 48) else Undef
      else Ok n)"
  by auto
termination by (relation "measure (\<lambda>(k, base, m, s, n). k)") auto

definition ato :: "int \<Rightarrow> bmem \<Rightarrow> uint \<Rightarrow> int res" where
  "ato base m s =
     rbind (skip_spaces ROUNDS m s) (\<lambda>s.
     let sign = (if m s = 45 then -1 else 1);
         s = (if m s = 43 \<or> m s = 45 then s + 1 else s)
     in rbind (ato_loop ROUNDS base m s 0) (\<lambda>n. Ok (sign * n)))"

definition atoi :: "bmem \<Rightarrow> uint \<Rightarrow> int res" where
  "atoi m s = ato 10 m s"

definition atoo :: "bmem \<Rightarrow> uint \<Rightarrow> int res" where
  "atoo m s = ato 8 m s"

section \<open>printf\<close>

definition uprintint :: "uint \<Rightarrow> nat \<Rightarrow> bool \<Rightarrow> string" where
  "uprintint xx base sg = printint_str ''0123456789ABCDEF'' xx base sg"

text \<open>\<open>pct\<close>: \<open>state\<close> is \<open>'%'\<close>.\<close>

fun printf_loop :: "bool \<Rightarrow> string \<Rightarrow> fmtarg list \<Rightarrow> string res" where
  "printf_loop pct [] args = Ok []"
| "printf_loop pct (c # cs) args =
     (if \<not> pct then
        if c = CHR ''%'' then printf_loop True cs args
        else rbind (printf_loop False cs args) (\<lambda>r. Ok (c # r))
      else if c = CHR ''d'' then
        (case args of Num x # args \<Rightarrow> rbind (printf_loop False cs args) (\<lambda>r. Ok (uprintint x 10 True @ r)) | _ \<Rightarrow> Undef)
      else if c = CHR ''x'' \<or> c = CHR ''p'' then
        (case args of Num x # args \<Rightarrow> rbind (printf_loop False cs args) (\<lambda>r. Ok (uprintint x 16 False @ r)) | _ \<Rightarrow> Undef)
      else if c = CHR ''s'' then
        (case args of
           Str p # args \<Rightarrow>
             rbind (printf_loop False cs args) (\<lambda>r. Ok ((case p of None \<Rightarrow> ''(null)'' | Some str \<Rightarrow> str) @ r))
         | _ \<Rightarrow> Undef)
      else if c = CHR ''c'' then
        (case args of Num x # args \<Rightarrow> rbind (printf_loop False cs args) (\<lambda>r. Ok (char_of (unat x) # r)) | _ \<Rightarrow> Undef)
      else if c = CHR ''%'' then rbind (printf_loop False cs args) (\<lambda>r. Ok (c # r))
      else rbind (printf_loop False cs args) (\<lambda>r. Ok (CHR ''%'' # c # r)))"

definition printf :: "string \<Rightarrow> fmtarg list \<Rightarrow> string res" where
  "printf fmt args = printf_loop False fmt args"

declare strcpy_loop.simps [simp del] strcmp_loop.simps [simp del] strchr_loop.simps [simp del]
  skip_spaces.simps [simp del] ato_loop.simps [simp del] ustrncmp_loop.simps [simp del]

section \<open>Decimal digits\<close>

definition dval :: "int \<Rightarrow> uchar list \<Rightarrow> int" where
  "dval n xs = foldl (\<lambda>n b. n * 10 + (uint b - 48)) n xs"

lemma dval_simps [simp]: "dval n [] = n" "dval n (x # xs) = dval (n * 10 + (uint x - 48)) xs" "dval n (xs @ [x]) = dval n xs * 10 + (uint x - 48)"
  by (simp_all add: dval_def)

definition is_digit :: "uchar \<Rightarrow> bool" where
  "is_digit b \<longleftrightarrow> 48 \<le> b \<and> uint b < 58"

lemma is_digit_ge: "is_digit b \<Longrightarrow> 48 \<le> uint b"
  by (simp add: is_digit_def word_le_def)

lemma dval_mono:
  assumes "\<forall>x\<in>set xs. is_digit x" "0 \<le> n"
  shows "n \<le> dval n xs"
  using assms
proof (induction xs arbitrary: n)
  case (Cons x xs)
  have "48 \<le> uint x" using Cons.prems(1) by (simp add: is_digit_ge)
  then have "n \<le> n * 10 + (uint x - 48)" "0 \<le> n * 10 + (uint x - 48)" using Cons.prems(2) by simp_all
  then show ?case using Cons.IH [of "n * 10 + (uint x - 48)"] Cons.prems(1) by simp
qed simp

lemma ato_loop_digits:
  assumes "str_at m s xs" "\<forall>x\<in>set xs. is_digit x" "0 \<le> n" "dval n xs + 48 < 2 ^ 31" "length xs < k"
  shows "ato_loop k 10 m s n = Ok (dval n xs)"
  using assms
proof (induction xs arbitrary: s n k)
  case Nil
  then show ?case by (simp add: ato_loop.simps)
next
  case (Cons x xs)
  let ?n = "n * 10 + (uint x - 48)"
  have d: "48 \<le> x" "uint x < 58" "48 \<le> uint x" using Cons.prems(2) is_digit_ge [of x] by (auto simp: is_digit_def)
  have "?n \<le> dval ?n xs" using Cons.prems(2,3) d(3) by (intro dval_mono) auto
  then have b: "n * 10 + uint x < 2 ^ 31" using Cons.prems(4) by simp
  have "ato_loop (k - 1) 10 m (s + 1) ?n = Ok (dval ?n xs)"
    using Cons.prems d(3) by (intro Cons.IH) auto
  then show ?case using Cons.prems(1,3,5) d b
    by (subst ato_loop.simps) (simp add: in_int_def algebra_simps)
qed

lemma digit_byte: "d < 10 \<Longrightarrow> tab \<in> {''0123456789abcdef'', ''0123456789ABCDEF''} \<Longrightarrow> of_char (digit tab d) = (48 + of_nat d :: uchar)"
  by (auto simp: digit_def less_Suc_eq numeral_eq_Suc)

abbreviation "digit_tabs \<equiv> {''0123456789abcdef'', ''0123456789ABCDEF''}"

lemma digit_dec:
  assumes "d < 10" "tab \<in> digit_tabs"
  shows "is_digit (of_char (digit tab d))" "uint (of_char (digit tab d) :: uchar) = 48 + int d"
proof -
  have n: "unat (of_nat d :: uchar) = d" using assms(1) by (simp add: unat_of_nat take_bit_nat_eq_self)
  have "unat (48 + of_nat d :: uchar) = unat (48 :: uchar) + unat (of_nat d :: uchar)"
    by (rule unat_add_lem [THEN iffD1]) (use assms(1) n in simp)
  then have "uint (48 + of_nat d :: uchar) = 48 + int d" unfolding uint_nat by (simp add: n)
  then show u: "uint (of_char (digit tab d) :: uchar) = 48 + int d" using digit_byte [OF assms] by simp
  then show "is_digit (of_char (digit tab d))" using assms(1) by (simp add: is_digit_def word_le_def)
qed

lemma rev_digits_dec:
  assumes "tab \<in> digit_tabs"
  shows "(\<forall>b\<in>set (str_bytes (rev_digits tab 10 x)). is_digit b) \<and>
    dval 0 (rev (str_bytes (rev_digits tab 10 x))) = int x \<and> length (rev_digits tab 10 x) \<le> Suc x \<and> rev_digits tab 10 x \<noteq> []"
proof (induction x rule: less_induct)
  case (less x)
  have d: "x mod 10 < 10" by simp
  note dd = digit_dec [OF d assms]
  show ?case
  proof (cases "x div 10 = 0")
    case True
    then have "x mod 10 = x" by auto
    then show ?thesis using True dd by (subst rev_digits.simps) (simp add: rev_digits.simps [of tab 10 x])
  next
    case False
    then have lt: "x div 10 < x" by auto
    have e: "rev_digits tab 10 x = digit tab (x mod 10) # rev_digits tab 10 (x div 10)"
      using False by (subst rev_digits.simps) simp
    have "int (x div 10) * 10 + int (x mod 10) = int x" by (metis of_nat_add of_nat_mult div_mult_mod_eq of_nat_numeral)
    then show ?thesis using less.IH [OF lt] dd lt unfolding e by auto
  qed
qed

lemma uint_minus:
  assumes "sint (x :: uint) < 0"
  shows "uint (- x) = - sint x"
proof -
  have "- x = word_of_int (- sint x)" by simp
  then have "uint (- x) = take_bit 32 (- sint x)" by (simp only: uint_word_of_int_eq) simp
  also have "\<dots> = - sint x"
    using assms sint_ge [of x] by (simp add: take_bit_int_eq_self)
  finally show ?thesis .
qed

lemma printint_dec:
  assumes "tab \<in> digit_tabs"
  obtains ds where "str_bytes (printint_str tab x 10 True) = (if sint x < 0 then 45 # ds else ds)" "ds \<noteq> []"
    "\<forall>b\<in>set ds. is_digit b" "dval 0 ds = \<bar>sint x\<bar>" "length ds \<le> Suc (nat \<bar>sint x\<bar>)"
proof (cases "sint x < 0")
  case True
  note r = rev_digits_dec [OF assms, of "unat (- x)"]
  have "int (unat (- x)) = - sint x" using uint_minus [OF True] by simp
  moreover from this have "unat (- x) = nat \<bar>sint x\<bar>" using True by linarith
  ultimately show ?thesis using True r that [of "str_bytes (rev (rev_digits tab 10 (unat (- x))))"]
    by (simp add: printint_str_def Let_def str_bytes_def rev_map)
next
  case False
  note r = rev_digits_dec [OF assms, of "unat x"]
  have "uint (word_of_int (sint x) :: uint) = take_bit 32 (sint x)" by (simp only: uint_word_of_int_eq) simp
  moreover have "take_bit 32 (sint x) = sint x" using False sint_lt [of x] by (simp add: take_bit_int_eq_self)
  ultimately have i: "int (unat x) = sint x" by simp
  then have "unat x = nat \<bar>sint x\<bar>" using False by linarith
  with i show ?thesis using False r that [of "str_bytes (rev (rev_digits tab 10 (unat x)))"]
    by (simp add: printint_str_def Let_def str_bytes_def rev_map)
qed

text \<open>
  Property C32. Reading back a printed number gives the number: at the digits that \<open>%d\<close> of \<open>printf\<close> prints for \<open>x\<close>, \<open>atoi\<close>
  returns \<open>x\<close>, for every \<open>int\<close> whose magnitude is at most \<open>2^31 - 49\<close>. (Beyond that the intermediate \<open>n * 10 + c\<close> of \<open>atoi\<close>
  overflows although the number itself does not.)
\<close>

theorem atoi_printint:
  assumes "str_at m s (str_bytes (uprintint x 10 True))" "\<bar>sint x\<bar> + 48 < 2 ^ 31"
  shows "atoi m s = Ok (sint x)"
proof -
  have t: "''0123456789ABCDEF'' \<in> digit_tabs" by simp
  obtain ds where ds: "str_bytes (uprintint x 10 True) = (if sint x < 0 then 45 # ds else ds)" "ds \<noteq> []"
    "\<forall>b\<in>set ds. is_digit b" "dval 0 ds = \<bar>sint x\<bar>" "length ds \<le> Suc (nat \<bar>sint x\<bar>)"
    unfolding uprintint_def by (rule printint_dec [OF t, of x])
  obtain d es where e: "ds = d # es" using ds(2) by (cases ds) auto
  have d: "48 \<le> uint d" "uint d < 58" using ds(3) e is_digit_ge [of d] by (auto simp: is_digit_def)
  then have nd: "d \<noteq> 32" "d \<noteq> 43" "d \<noteq> 45" by auto
  have len: "length ds < ROUNDS" using ds(5) assms(2) by (simp add: ROUNDS_def)
  let ?s = "if sint x < 0 then s + 1 else s"
  have at: "str_at m ?s ds" using assms(1) ds(1) by (auto split: if_splits)
  have "ato_loop ROUNDS 10 m ?s 0 = Ok (dval 0 ds)"
    using assms(2) ds(3,4) len by (intro ato_loop_digits [OF at]) simp_all
  moreover have "skip_spaces ROUNDS m s = Ok s"
    using assms(1) ds(1) e nd(1) by (subst skip_spaces.simps) (auto simp: ROUNDS_def split: if_splits)
  moreover have "m s = (if sint x < 0 then 45 else d)" using assms(1) ds(1) e by (auto split: if_splits)
  ultimately show ?thesis using nd ds(4) by (auto simp: atoi_def ato_def Let_def)
qed

theorem atoi_printint_witness:
  "atoi (\<lambda>a. if a = 100 then 45 else if a = 101 then 55 else if a = 102 then 48 else 0) 100 = Ok (- 70)"
proof -
  let ?m = "\<lambda>a. if a = 100 then 45 else if a = 101 then 55 else if a = 102 then 48 else (0 :: uchar)"
  have "uprintint (- 70) 10 True = ''-70''" by (simp add: uprintint_def printint_str_def rev_digits.simps digit_def)
  then have "str_at ?m 100 (str_bytes (uprintint (- 70) 10 True))" by simp
  then show ?thesis using atoi_printint [of ?m 100 "- 70"] by simp
qed

section \<open>Formatting\<close>

text \<open>The formats that the two printing routines share: no \<open>%c\<close>, and no hexadecimal, whose digits differ in case.\<close>

fun shared_fmt :: "string \<Rightarrow> bool" where
  "shared_fmt [] = True"
| "shared_fmt [c] = True"
| "shared_fmt (c # f # fs) = (if c \<noteq> CHR ''%'' then shared_fmt (f # fs) else f \<notin> set ''cxp'' \<and> shared_fmt fs)"

lemma rev_digits_tab: "rev_digits ''0123456789ABCDEF'' 10 x = rev_digits ''0123456789abcdef'' 10 x"
proof (induction x rule: less_induct)
  case (less x)
  have "digit ''0123456789ABCDEF'' d = digit ''0123456789abcdef'' d" if "d < 10" for d
    using that by (auto simp: digit_def less_Suc_eq numeral_eq_Suc)
  moreover have "x div 10 < x" if "x div 10 \<noteq> 0" using that by auto
  ultimately show ?case using less.IH [of "x div 10"]
    by (subst (1 2) rev_digits.simps) auto
qed



section \<open>String routines\<close>

lemma strcmp_str_at:
  assumes "str_at m p xs" "str_at m q ys" "length xs < ROUNDS"
  shows "\<exists>d. strcmp m p q = Ok d \<and> (d = 0 \<longleftrightarrow> xs = ys)"
proof -
  have "\<exists>d. strcmp_loop k m p q = Ok d \<and> (d = 0 \<longleftrightarrow> xs = ys)" if "length xs < k" for k
    using assms(1,2) that
  proof (induction xs arbitrary: k p q ys)
    case Nil
    then show ?case by (cases ys) (auto simp: strcmp_loop.simps word_uint_eq_iff)
  next
    case (Cons x xs)
    show ?case
    proof (cases ys)
      case Nil
      then show ?thesis using Cons.prems by (auto simp: strcmp_loop.simps word_uint_eq_iff)
    next
      case ys: (Cons y zs)
      have IH: "\<exists>d. strcmp_loop (k - 1) m (p + 1) (q + 1) = Ok d \<and> (d = 0 \<longleftrightarrow> xs = zs)"
        using Cons.prems ys by (intro Cons.IH) auto
      show ?thesis
        using Cons.prems ys IH by (subst strcmp_loop.simps) (auto simp: word_uint_eq_iff)
    qed
  qed
  then show ?thesis using assms(3) by (simp add: strcmp_def)
qed

lemma ustrncmp_kernel: "ustrncmp m p q n = strncmp m p q n"
proof -
  have "ustrncmp_loop m p q k = strncmp_loop m p q k" for k
  proof (induction k arbitrary: p q)
    case 0
    show ?case by (simp add: ustrncmp_loop.simps)
  next
    case (Suc k)
    then show ?case by (subst ustrncmp_loop.simps) simp
  qed
  then show ?thesis by (simp add: ustrncmp_def strncmp_def)
qed

lemma strchr_str_at:
  assumes "str_at m s xs" "c \<noteq> 0" "length xs < ROUNDS"
  shows "strchr m s c = Ok (if c \<in> set xs then s + of_nat (length (takeWhile (\<lambda>x. x \<noteq> c) xs)) else 0)"
proof -
  have "strchr_loop k m s c = Ok (if c \<in> set xs then s + of_nat (length (takeWhile (\<lambda>x. x \<noteq> c) xs)) else 0)" if "length xs < k" for k
    using assms(1) that
  proof (induction xs arbitrary: k s)
    case Nil
    then show ?case by (subst strchr_loop.simps) simp
  next
    case (Cons x xs)
    have "strchr_loop (k - 1) m (s + 1) c = Ok (if c \<in> set xs then s + 1 + of_nat (length (takeWhile (\<lambda>x. x \<noteq> c) xs)) else 0)"
      using Cons.prems by (intro Cons.IH) auto
    then show ?case using Cons.prems by (subst strchr_loop.simps) (auto simp: add.assoc)
  qed
  then show ?thesis using assms(3) by (simp add: strchr_def)
qed

end
