(* ===== verification/Bio.thy ===== *)
theory Bio
  imports Prelude
begin

text \<open>
  The buffer cache (\<open>bio.c\<close>) over the disk driver as its callers see it (\<open>ide.c\<close>). The buffers are an array; the list of
  recently used ones runs through their \<open>prev\<close> and \<open>next\<close> links and the sentinel \<open>bcache.head\<close>, number \<open>NBUF\<close>. The model
  is of one caller at a time: the sections under \<open>bcache.lock\<close> and \<open>idelock\<close> are not split, a buffer's sleep lock is a
  flag, and waiting for a locked buffer is \<open>Hang\<close>, since nobody else runs to unlock it. \<open>iderw\<close> is the whole request: queued,
  started when it is first, and waited for, interrupt by interrupt; the port traffic is abstracted to the sector moved. The
  disk keeps a history of the writes it has done; \<open>diskerr\<close> says which sectors it fails to read.
\<close>

section \<open>State\<close>

type_synonym block = "uchar list"

definition NBUF :: nat where "NBUF = 30"
definition FSSIZE :: uint where "FSSIZE = 2000"

record buf =
  b_valid :: bool
  b_dirty :: bool
  b_dev :: uint
  b_blockno :: uint
  b_locked :: bool
  b_refcnt :: uint
  b_prev :: nat
  b_next :: nat
  b_data :: block

record bcache =
  bufs :: "nat \<Rightarrow> buf"
  disk :: "uint \<Rightarrow> uint \<Rightarrow> block"
  havedisk1 :: bool
  diskerr :: "uint \<Rightarrow> uint \<Rightarrow> bool"
  idequeue :: "nat list"
  diskwrites :: "(uint \<times> uint \<times> block) list"

abbreviation head :: nat where "head \<equiv> NBUF"

definition upd_buf :: "nat \<Rightarrow> (buf \<Rightarrow> buf) \<Rightarrow> 'a bcache_scheme \<Rightarrow> 'a bcache_scheme" where
  "upd_buf i f s = s\<lparr>bufs := (bufs s)(i := f (bufs s i))\<rparr>"

section \<open>The disk\<close>

definition disk_of :: "uint \<Rightarrow> uint" where "disk_of dev = dev AND 1"

definition disk_write :: "uint \<Rightarrow> uint \<Rightarrow> block \<Rightarrow> 'a bcache_scheme \<Rightarrow> 'a bcache_scheme" where
  "disk_write d b v s = s\<lparr>disk := (disk s)(d := (disk s d)(b := v)), diskwrites := diskwrites s @ [(d, b, v)]\<rparr>"

definition idestart :: "nat \<Rightarrow> 'a bcache_scheme \<Rightarrow> 'a bcache_scheme res" where
  "idestart i s =
     (let b = bufs s i
      in if FSSIZE \<le> b_blockno b then Panic ''incorrect blockno''
         else Ok (if b_dirty b then disk_write (disk_of (b_dev b)) (b_blockno b) (b_data b) s else s))"

text \<open>The interrupt at the end of the request at the front of the queue; the next one is started.\<close>

definition ideintr :: "'a bcache_scheme \<Rightarrow> 'a bcache_scheme res" where
  "ideintr s =
     (case idequeue s of
        [] \<Rightarrow> Ok s
      | i # q \<Rightarrow>
          let s = s\<lparr>idequeue := q\<rparr>;
              s = upd_buf i (\<lambda>b. b\<lparr>b_data := (if \<not> b_dirty b \<and> \<not> diskerr s (disk_of (b_dev b)) (b_blockno b)
                    then disk s (disk_of (b_dev b)) (b_blockno b) else b_data b), b_valid := True, b_dirty := False\<rparr>) s
          in if idequeue s \<noteq> [] then idestart (hd (idequeue s)) s else Ok s)"

text \<open>The caller sleeps until its buffer is done; each round is one interrupt.\<close>

fun ide_wait :: "nat \<Rightarrow> nat \<Rightarrow> 'a bcache_scheme \<Rightarrow> 'a bcache_scheme res" where
  "ide_wait 0 i s = Hang"
| "ide_wait (Suc k) i s =
     (if b_valid (bufs s i) \<and> \<not> b_dirty (bufs s i) then Ok s else rbind (ideintr s) (ide_wait k i))"

definition iderw :: "nat \<Rightarrow> 'a bcache_scheme \<Rightarrow> 'a bcache_scheme res" where
  "iderw i s =
     (let b = bufs s i
      in if \<not> b_locked b then Panic ''iderw: buf not locked''
         else if b_valid b \<and> \<not> b_dirty b then Panic ''iderw: nothing to do''
         else if b_dev b \<noteq> 0 \<and> \<not> havedisk1 s then Panic ''iderw: ide disk 1 not present''
         else
           let s = s\<lparr>idequeue := idequeue s @ [i]\<rparr>
           in rbind (if hd (idequeue s) = i then idestart i s else Ok s) (\<lambda>s.
              ide_wait (length (idequeue s) + 1) i s))"

section \<open>The cache\<close>

fun binit_loop :: "nat list \<Rightarrow> 'a bcache_scheme \<Rightarrow> 'a bcache_scheme" where
  "binit_loop [] s = s"
| "binit_loop (b # bs) s =
     (let s = upd_buf b (\<lambda>k. k\<lparr>b_next := b_next (bufs s head), b_prev := head, b_locked := False\<rparr>) s;
          s = upd_buf (b_next (bufs s head)) (b_prev_update (\<lambda>_. b)) s;
          s = upd_buf head (b_next_update (\<lambda>_. b)) s
      in binit_loop bs s)"

definition binit :: "'a bcache_scheme \<Rightarrow> 'a bcache_scheme" where
  "binit s = binit_loop [0..<NBUF] (upd_buf head (\<lambda>k. k\<lparr>b_prev := head, b_next := head\<rparr>) s)"

text \<open>A walk along the links from \<open>i\<close> back to the head, to the first buffer with \<open>P\<close>.\<close>

fun scan_bufs :: "nat \<Rightarrow> (buf \<Rightarrow> nat) \<Rightarrow> (buf \<Rightarrow> bool) \<Rightarrow> nat \<Rightarrow> 'a bcache_scheme \<Rightarrow> nat option res" where
  "scan_bufs 0 nx P i s = Hang"
| "scan_bufs (Suc k) nx P i s =
     (if i = head then Ok None
      else if P (bufs s i) then Ok (Some i)
      else scan_bufs k nx P (nx (bufs s i)) s)"

definition lock_buf :: "nat \<Rightarrow> 'a bcache_scheme \<Rightarrow> (nat \<times> 'a bcache_scheme) res" where
  "lock_buf i s = (if b_locked (bufs s i) then Hang else Ok (i, upd_buf i (b_locked_update (\<lambda>_. True)) s))"

definition bget :: "uint \<Rightarrow> uint \<Rightarrow> 'a bcache_scheme \<Rightarrow> (nat \<times> 'a bcache_scheme) res" where
  "bget dev blockno s =
     rbind (scan_bufs (Suc NBUF) b_next (\<lambda>b. b_dev b = dev \<and> b_blockno b = blockno) (b_next (bufs s head)) s) (\<lambda>r.
     case r of
       Some i \<Rightarrow> lock_buf i (upd_buf i (\<lambda>b. b\<lparr>b_refcnt := b_refcnt b + 1\<rparr>) s)
     | None \<Rightarrow>
         rbind (scan_bufs (Suc NBUF) b_prev (\<lambda>b. b_refcnt b = 0 \<and> \<not> b_dirty b) (b_prev (bufs s head)) s) (\<lambda>r.
         case r of
           Some i \<Rightarrow>
             lock_buf i (upd_buf i (\<lambda>b. b\<lparr>b_dev := dev, b_blockno := blockno, b_valid := False, b_dirty := False, b_refcnt := 1\<rparr>) s)
         | None \<Rightarrow> Panic ''bget: no buffers''))"

definition bread :: "uint \<Rightarrow> uint \<Rightarrow> 'a bcache_scheme \<Rightarrow> (nat \<times> 'a bcache_scheme) res" where
  "bread dev blockno s =
     rbind (bget dev blockno s) (\<lambda>(i, s).
     if \<not> b_valid (bufs s i) then rbind (iderw i s) (\<lambda>s. Ok (i, s)) else Ok (i, s))"

definition bwrite :: "nat \<Rightarrow> 'a bcache_scheme \<Rightarrow> 'a bcache_scheme res" where
  "bwrite i s =
     (if \<not> b_locked (bufs s i) then Panic ''bwrite''
      else iderw i (upd_buf i (b_dirty_update (\<lambda>_. True)) s))"

definition to_front :: "nat \<Rightarrow> 'a bcache_scheme \<Rightarrow> 'a bcache_scheme" where
  "to_front i s =
     (let s = upd_buf (b_next (bufs s i)) (b_prev_update (\<lambda>_. b_prev (bufs s i))) s;
          s = upd_buf (b_prev (bufs s i)) (b_next_update (\<lambda>_. b_next (bufs s i))) s;
          s = upd_buf i (b_next_update (\<lambda>_. b_next (bufs s head))) s;
          s = upd_buf i (b_prev_update (\<lambda>_. head)) s;
          s = upd_buf (b_next (bufs s head)) (b_prev_update (\<lambda>_. i)) s
      in upd_buf head (b_next_update (\<lambda>_. i)) s)"

definition brelse :: "nat \<Rightarrow> 'a bcache_scheme \<Rightarrow> 'a bcache_scheme res" where
  "brelse i s =
     (if \<not> b_locked (bufs s i) then Panic ''brelse''
      else
        let s = upd_buf i (\<lambda>b. b\<lparr>b_locked := False, b_refcnt := b_refcnt b - 1\<rparr>) s
        in Ok (if b_refcnt (bufs s i) = 0 then to_front i s else s))"

section \<open>Circular lists\<close>

fun fpath :: "(nat \<Rightarrow> nat) \<Rightarrow> nat \<Rightarrow> nat list \<Rightarrow> nat \<Rightarrow> bool" where
  "fpath n a [] b = (n a = b)"
| "fpath n a (x # xs) b = (n a = x \<and> fpath n x xs b)"

lemma fpath_append: "fpath n a (xs @ y # ys) b \<longleftrightarrow> fpath n a xs y \<and> fpath n y ys b"
  by (induction xs arbitrary: a) auto

lemma fpath_cong: "(\<And>x. x \<in> set (a # xs) \<Longrightarrow> n x = n' x) \<Longrightarrow> fpath n a xs b = fpath n' a xs b"
  by (induction xs arbitrary: a) auto

lemma fpath_last: "fpath n a xs b \<Longrightarrow> n (last (a # xs)) = b"
  by (induction xs arbitrary: a) auto

lemma fpath_first: "fpath n a xs b \<Longrightarrow> n a = hd (xs @ [b])"
  by (cases xs) auto

lemma fpath_end: "fpath n a xs b \<Longrightarrow> distinct (a # xs) \<Longrightarrow> fpath (n(last (a # xs) := c)) a xs c"
proof (induction xs arbitrary: a)
  case (Cons x xs)
  then have "fpath (n(last (x # xs) := c)) x xs c" by (intro Cons.IH) simp_all
  moreover have "a \<noteq> last (x # xs)" using Cons.prems(2) last_in_set [of "x # xs"] by auto
  moreover have "last (a # x # xs) = last (x # xs)" by simp
  ultimately show ?case using Cons.prems(1) by (simp del: last.simps fun_upd_apply add: fun_upd_other)
qed simp

lemma fpath_unlink:
  assumes "fpath n a (ys @ i # zs) b" "distinct (a # ys @ i # zs)"
  shows "fpath (n(last (a # ys) := hd (zs @ [b]))) a (ys @ zs) b"
proof (cases zs)
  case Nil
  then show ?thesis using fpath_end [of n a ys i b] assms by (auto simp: fpath_append)
next
  case (Cons z zs')
  have "fpath (n(last (a # ys) := z)) a ys z" using assms by (intro fpath_end [of n a ys i]) (auto simp: fpath_append)
  moreover have "fpath (n(last (a # ys) := z)) z zs' b = fpath n z zs' b"
    using assms(2) last_in_set [of "a # ys"] Cons by (intro fpath_cong) auto
  ultimately show ?thesis using assms(1) Cons by (simp add: fpath_append)
qed

lemma fpath_extend:
  assumes "fpath n a xs b" "distinct (a # xs)" "i \<notin> set (a # xs)"
  shows "fpath (n(i := b, last (a # xs) := i)) a (xs @ [i]) b"
proof -
  have "fpath (n(last (a # xs) := i)) a xs i" by (rule fpath_end [OF assms(1,2)])
  moreover have "fpath (n(i := b, last (a # xs) := i)) a xs i = fpath (n(last (a # xs) := i)) a xs i"
    using assms(3) by (intro fpath_cong) auto
  moreover have "last (a # xs) \<noteq> i" using assms(3) last_in_set [of "a # xs"] by auto
  ultimately show ?thesis by (simp add: fpath_append)
qed

lemma fpath_push:
  assumes "fpath n a xs b" "i \<notin> set (a # xs)" "a \<notin> set xs"
  shows "fpath (n(i := n a, a := i)) a (i # xs) b"
proof (cases xs)
  case (Cons x ys)
  have "fpath (n(i := n a, a := i)) x ys b = fpath n x ys b" using assms(2,3) Cons by (intro fpath_cong) auto
  then show ?thesis using assms Cons by simp
qed (use assms in auto)

definition nexts :: "'a bcache_scheme \<Rightarrow> nat \<Rightarrow> nat" where "nexts s = (\<lambda>i. b_next (bufs s i))"
definition prevs :: "'a bcache_scheme \<Rightarrow> nat \<Rightarrow> nat" where "prevs s = (\<lambda>i. b_prev (bufs s i))"

definition dll :: "'a bcache_scheme \<Rightarrow> nat list \<Rightarrow> bool" where
  "dll s xs \<longleftrightarrow> fpath (nexts s) head xs head \<and> fpath (prevs s) head (rev xs) head \<and> distinct (head # xs)"

lemma scan_bufs_eq:
  assumes "fpath (\<lambda>i. nx (bufs s i)) a xs head" "head \<notin> set xs" "length xs < k"
  shows "scan_bufs k nx P (nx (bufs s a)) s = Ok (find (\<lambda>i. P (bufs s i)) xs)"
  using assms
proof (induction xs arbitrary: a k)
  case Nil
  then show ?case by (cases k) auto
next
  case (Cons x xs)
  then obtain k' where k: "k = Suc k'" by (cases k) auto
  have "scan_bufs k' nx P (nx (bufs s x)) s = Ok (find (\<lambda>i. P (bufs s i)) xs)" using Cons k by (intro Cons.IH) auto
  then show ?case using Cons.prems k by auto
qed

lemma upd_buf_sel [simp]:
  "bufs (upd_buf i f s) = (bufs s)(i := f (bufs s i))" "disk (upd_buf i f s) = disk s" "havedisk1 (upd_buf i f s) = havedisk1 s"
  "diskerr (upd_buf i f s) = diskerr s" "idequeue (upd_buf i f s) = idequeue s" "diskwrites (upd_buf i f s) = diskwrites s" "bcache.more (upd_buf i f s) = bcache.more s"
  by (simp_all add: upd_buf_def)

lemma links_upd:
  "nexts (upd_buf i (b_next_update (\<lambda>_. v)) s) = (nexts s)(i := v)" "nexts (upd_buf i (b_prev_update g) s) = nexts s"
  "prevs (upd_buf i (b_prev_update (\<lambda>_. v)) s) = (prevs s)(i := v)" "prevs (upd_buf i (b_next_update g) s) = prevs s"
  by (auto simp: nexts_def prevs_def)

text \<open>What a buffer holds, its links apart.\<close>

definition unlinked :: "buf \<Rightarrow> buf" where
  "unlinked b = b\<lparr>b_prev := 0, b_next := 0\<rparr>"

definition contents :: "'a bcache_scheme \<Rightarrow> nat \<Rightarrow> buf" where
  "contents s = (\<lambda>i. unlinked (bufs s i))"

lemma contents_links [simp]:
  "contents (upd_buf i (b_prev_update g) s) = contents s" "contents (upd_buf i (b_next_update g) s) = contents s"
  by (auto simp: contents_def unlinked_def fun_eq_iff)

lemma contents_sel:
  "b_valid (contents s i) = b_valid (bufs s i)" "b_dirty (contents s i) = b_dirty (bufs s i)" "b_dev (contents s i) = b_dev (bufs s i)"
  "b_blockno (contents s i) = b_blockno (bufs s i)" "b_locked (contents s i) = b_locked (bufs s i)"
  "b_refcnt (contents s i) = b_refcnt (bufs s i)" "b_data (contents s i) = b_data (bufs s i)"
  by (simp_all add: contents_def unlinked_def)

lemma dll_cong: "nexts t = nexts s \<Longrightarrow> prevs t = prevs s \<Longrightarrow> dll t xs = dll s xs"
  by (simp add: dll_def)

lemma to_front_spec:
  assumes "dll s (ys @ i # zs)"
  shows "dll (to_front i s) (i # ys @ zs)" "contents (to_front i s) = contents s" "disk (to_front i s) = disk s"
    "havedisk1 (to_front i s) = havedisk1 s" "diskerr (to_front i s) = diskerr s" "diskwrites (to_front i s) = diskwrites s"
    "bcache.more (to_front i s) = bcache.more s" "idequeue (to_front i s) = idequeue s"
proof -
  let ?p = "last (head # ys)" and ?n = "hd (zs @ [head])"
  have d: "distinct (head # ys @ i # zs)" and f: "fpath (nexts s) head (ys @ i # zs) head" and
    b: "fpath (prevs s) head (rev zs @ i # rev ys) head" using assms by (simp_all add: dll_def)
  have n: "nexts s i = ?n" using f fpath_first [of "nexts s" i zs head] by (simp add: fpath_append)
  have hr: "hd (rev xs @ [a]) = last (a # xs)" "last (a # rev xs) = hd (xs @ [a])" for a :: nat and xs by (cases xs; simp add: hd_rev last_rev)+
  have p: "prevs s i = ?p" using b fpath_first [of "prevs s" i "rev ys" head] by (simp add: fpath_append hr)
  have pi: "?p \<noteq> i" "?n \<noteq> i" using d last_in_set [of "head # ys"] hd_in_set [of "zs @ [head]"] by auto
  let ?nx = "(nexts s)(?p := ?n)" and ?pv = "(prevs s)(?n := ?p)"
  have f1: "fpath ?nx head (ys @ zs) head" by (rule fpath_unlink [OF f d])
  have "distinct (head # rev zs @ i # rev ys)" using d by auto
  then have b1: "fpath ?pv head (rev (ys @ zs)) head" using fpath_unlink [OF b] by (simp only: hr rev_append)
  let ?h = "?nx head"
  have h: "?h = last (head # rev (ys @ zs))" using fpath_first [OF f1] by (simp only: hr)
  have f2: "fpath (?nx(i := ?h, head := i)) head (i # ys @ zs) head" using d by (intro fpath_push [OF f1]) auto
  have b2: "fpath (?pv(i := head, ?h := i)) head (rev (ys @ zs) @ [i]) head" unfolding h using d by (intro fpath_extend [OF b1]) auto
  have lk: "b_next (bufs s k) = nexts s k" "b_prev (bufs s k) = prevs s k" for k by (simp_all add: nexts_def prevs_def)
  have hi: "head \<noteq> i" using d by auto
  have hh: "b_next (bufs (upd_buf ?p (b_next_update (\<lambda>_. ?n)) (upd_buf ?n (b_prev_update (\<lambda>_. ?p)) s)) head) = ?h"
    by (auto simp: lk)
  have e: "to_front i s = upd_buf head (b_next_update (\<lambda>_. i)) (upd_buf ?h (b_prev_update (\<lambda>_. i))
      (upd_buf i (b_prev_update (\<lambda>_. head)) (upd_buf i (b_next_update (\<lambda>_. ?h))
      (upd_buf ?p (b_next_update (\<lambda>_. ?n)) (upd_buf ?n (b_prev_update (\<lambda>_. ?p)) s)))))"
    unfolding to_front_def Let_def using pi hi hh n p by (simp add: lk del: last.simps)
  have nx: "nexts (to_front i s) = ?nx(i := ?h, head := i)"
    unfolding e by (simp only: links_upd)
  have pv: "prevs (to_front i s) = ?pv(i := head, ?h := i)"
    unfolding e by (simp only: links_upd)
  show "dll (to_front i s) (i # ys @ zs)" using f2 b2 d by (simp add: dll_def nx pv)
qed (simp_all add: to_front_def Let_def)

section \<open>The invariant of the cache\<close>

definition caches :: "'a bcache_scheme \<Rightarrow> uint \<Rightarrow> uint \<Rightarrow> nat \<Rightarrow> bool" where
  "caches s dev b i \<longleftrightarrow> b_dev (bufs s i) = dev \<and> b_blockno (bufs s i) = b"

text \<open>
  A buffer in use is locked and counted once, one that is in use or dirty holds data, and data that is neither dirty nor
  in use is what the disk has. Only the root device is used; the array starts out with every buffer naming device 0.
\<close>

definition buf_ok :: "(uint \<Rightarrow> uint \<Rightarrow> block) \<Rightarrow> buf \<Rightarrow> bool" where
  "buf_ok d b \<longleftrightarrow> b_refcnt b = (if b_locked b then 1 else 0) \<and> (b_dirty b \<or> b_locked b \<longrightarrow> b_dev b = 1 \<and> b_valid b) \<and>
     b_dev b \<le> 1 \<and> (b_dev b \<noteq> 0 \<and> b_valid b \<and> \<not> b_dirty b \<and> \<not> b_locked b \<longrightarrow> b_data b = d (disk_of (b_dev b)) (b_blockno b))"

definition binv :: "'a bcache_scheme \<Rightarrow> bool" where
  "binv s \<longleftrightarrow> idequeue s = [] \<and> (\<exists>xs. dll s xs \<and> set xs = {..<NBUF}) \<and> (\<forall>i<NBUF. buf_ok (disk s) (bufs s i)) \<and>
     (\<forall>i<NBUF. \<forall>j<NBUF. b_dev (bufs s i) \<noteq> 0 \<longrightarrow> b_dev (bufs s j) = b_dev (bufs s i) \<longrightarrow>
        b_blockno (bufs s j) = b_blockno (bufs s i) \<longrightarrow> i = j)"

text \<open>The current contents of a block: the cached data if there is any, else what is on disk.\<close>

definition bview :: "'a bcache_scheme \<Rightarrow> uint \<Rightarrow> uint \<Rightarrow> block" where
  "bview s dev b =
     (case find (\<lambda>i. caches s dev b i \<and> b_valid (bufs s i)) [0..<NBUF] of
        Some i \<Rightarrow> b_data (bufs s i) | None \<Rightarrow> disk s (disk_of dev) b)"

definition free_bufs :: "'a bcache_scheme \<Rightarrow> nat set" where
  "free_bufs s = {i. i < NBUF \<and> b_refcnt (bufs s i) = 0 \<and> \<not> b_dirty (bufs s i)}"

lemma binvD:
  assumes "binv s"
  shows "i < NBUF \<Longrightarrow> buf_ok (disk s) (bufs s i)"
    "i < NBUF \<Longrightarrow> j < NBUF \<Longrightarrow> dev \<noteq> 0 \<Longrightarrow> caches s dev b i \<Longrightarrow> caches s dev b j \<Longrightarrow> i = j"
  using assms by (auto simp: binv_def caches_def)

lemma bview_cached:
  assumes "binv s" "i < NBUF" "dev \<noteq> 0" "caches s dev b i"
  shows "bview s dev b = (if b_valid (bufs s i) then b_data (bufs s i) else disk s (disk_of dev) b)"
proof (cases "find (\<lambda>i. caches s dev b i \<and> b_valid (bufs s i)) [0..<NBUF]")
  case None
  then have "\<not> b_valid (bufs s i)" using assms(2,4) by (auto simp: find_None_iff)
  with None show ?thesis by (simp add: bview_def)
next
  case (Some j)
  then have j: "j < NBUF" "caches s dev b j" "b_valid (bufs s j)" by (auto simp: find_Some_iff)
  then have "j = i" using binvD(2) [OF assms(1) j(1) assms(2,3) j(2) assms(4)] by simp
  with Some j show ?thesis by (simp add: bview_def)
qed

lemma bview_uncached: "\<forall>i<NBUF. \<not> caches s dev b i \<Longrightarrow> bview s dev b = disk s (disk_of dev) b"
proof -
  assume "\<forall>i<NBUF. \<not> caches s dev b i"
  then have "find (\<lambda>i. caches s dev b i \<and> b_valid (bufs s i)) [0..<NBUF] = None" by (auto simp: find_None_iff)
  then show ?thesis by (simp add: bview_def)
qed

lemma scan_all:
  assumes "binv s" "nx = b_next \<or> nx = b_prev"
  obtains r where "scan_bufs (Suc NBUF) nx P (nx (bufs s head)) s = Ok r"
    "case r of Some i \<Rightarrow> i < NBUF \<and> P (bufs s i) | None \<Rightarrow> \<forall>i<NBUF. \<not> P (bufs s i)"
proof -
  obtain xs where xs: "dll s xs" "set xs = {..<NBUF}" using assms(1) by (auto simp: binv_def)
  have "length xs = NBUF" using xs distinct_card [of xs] by (auto simp: dll_def)
  then obtain ys where ys: "fpath (\<lambda>i. nx (bufs s i)) head ys head" "set ys = {..<NBUF}" "length ys < Suc NBUF"
    using xs assms(2) by (auto simp: dll_def nexts_def prevs_def)
  have "scan_bufs (Suc NBUF) nx P (nx (bufs s head)) s = Ok (find (\<lambda>i. P (bufs s i)) ys)"
    using ys by (intro scan_bufs_eq) auto
  moreover have "case find (\<lambda>i. P (bufs s i)) ys of Some i \<Rightarrow> i < NBUF \<and> P (bufs s i) | None \<Rightarrow> \<forall>i<NBUF. \<not> P (bufs s i)"
    using ys(2) by (auto simp: find_Some_iff find_None_iff split: option.splits)
  ultimately show thesis by (rule that)
qed

text \<open>Changing one buffer, links and the disk apart.\<close>

definition link_same :: "(buf \<Rightarrow> buf) \<Rightarrow> bool" where
  "link_same f \<longleftrightarrow> (\<forall>b. b_next (f b) = b_next b \<and> b_prev (f b) = b_prev b)"

lemma dll_upd: "link_same f \<Longrightarrow> dll (upd_buf i f s) xs = dll s xs"
  by (rule dll_cong) (auto simp: link_same_def nexts_def prevs_def)

lemma binv_upd:
  assumes "binv s" "link_same f" "buf_ok (disk s) (f (bufs s i))"
    "b_dev (f (bufs s i)) \<noteq> 0 \<Longrightarrow> \<forall>j<NBUF. j \<noteq> i \<longrightarrow> \<not> caches s (b_dev (f (bufs s i))) (b_blockno (f (bufs s i))) j"
  shows "binv (upd_buf i f s)"
  using assms(1,3,4) unfolding binv_def by (auto simp: dll_upd [OF assms(2)] caches_def)

definition disk_same :: "'a bcache_scheme \<Rightarrow> 'a bcache_scheme \<Rightarrow> bool" where
  "disk_same s t \<longleftrightarrow> disk t = disk s \<and> havedisk1 t = havedisk1 s \<and> diskerr t = diskerr s \<and> idequeue t = idequeue s \<and>
     diskwrites t = diskwrites s \<and> bcache.more t = bcache.more s"

definition view_same :: "'a bcache_scheme \<Rightarrow> 'a bcache_scheme \<Rightarrow> bool" where
  "view_same s t \<longleftrightarrow> (\<forall>d b. d \<noteq> 0 \<longrightarrow> bview t d b = bview s d b)"

text \<open>Buffer \<open>i\<close> holds the block, locked for the caller; nothing else changed.\<close>

definition got :: "uint \<Rightarrow> uint \<Rightarrow> 'a bcache_scheme \<Rightarrow> nat \<Rightarrow> 'a bcache_scheme \<Rightarrow> bool" where
  "got dev b s i t \<longleftrightarrow> i < NBUF \<and> binv t \<and> caches t dev b i \<and> b_locked (bufs t i) \<and> b_valid (bufs t i) \<and>
     b_data (bufs t i) = bview s dev b \<and> (b_dirty (bufs t i) \<longleftrightarrow> b_dirty (bufs s i)) \<and> view_same s t \<and> disk_same s t \<and>
     \<not> b_locked (bufs s i) \<and> (caches s dev b i \<or> i \<in> free_bufs s) \<and> (\<forall>j. j \<noteq> i \<longrightarrow> bufs t j = bufs s j)"

definition can_get :: "uint \<Rightarrow> uint \<Rightarrow> 'a bcache_scheme \<Rightarrow> bool" where
  "can_get dev b s \<longleftrightarrow> dev = 1 \<and> havedisk1 s \<and> b < FSSIZE \<and> \<not> diskerr s (disk_of dev) b \<and>
     (\<forall>i<NBUF. caches s dev b i \<longrightarrow> \<not> b_locked (bufs s i)) \<and> ((\<exists>i<NBUF. caches s dev b i) \<or> free_bufs s \<noteq> {})"

lemma view_same_upd:
  assumes "binv s" "binv t" "i < NBUF" "\<forall>j. j \<noteq> i \<longrightarrow> bufs t j = bufs s j" "disk t = disk s"
    "b_dev (bufs s i) \<noteq> 0 \<Longrightarrow> bview t (b_dev (bufs s i)) (b_blockno (bufs s i)) = bview s (b_dev (bufs s i)) (b_blockno (bufs s i))"
    "b_dev (bufs t i) \<noteq> 0 \<Longrightarrow> bview t (b_dev (bufs t i)) (b_blockno (bufs t i)) = bview s (b_dev (bufs t i)) (b_blockno (bufs t i))"
  shows "view_same s t"
  unfolding view_same_def
proof (intro allI impI)
  fix d b :: uint
  assume d: "d \<noteq> 0"
  show "bview t d b = bview s d b"
  proof (cases "caches s d b i \<or> caches t d b i")
    case True
    then show ?thesis using assms(6,7) d by (auto simp: caches_def)
  next
    case False
    then have c: "caches t d b j = caches s d b j" for j using assms(4) by (cases "j = i") (auto simp: caches_def)
    show ?thesis
    proof (cases "\<exists>j<NBUF. caches s d b j")
      case True
      then obtain j where j: "j < NBUF" "caches s d b j" by auto
      then have "j \<noteq> i" using False by auto
      then show ?thesis using bview_cached [OF assms(1) j(1) d j(2)] bview_cached [OF assms(2) j(1) d] j(2) c assms(4,5) by simp
    next
      case False
      then show ?thesis using c assms(5) by (simp add: bview_uncached)
    qed
  qed
qed

lemma got_hit:
  assumes "binv s" and dev: "dev = 1" and "i < NBUF" "caches s dev b i" "\<not> b_locked (bufs s i)" "b_valid (bufs s i)"
  shows "got dev b s i (upd_buf i (\<lambda>k. k\<lparr>b_refcnt := b_refcnt k + 1, b_locked := True\<rparr>) s)" (is "got dev b s i ?t")
proof -
  have dev0: "dev \<noteq> 0" using dev by simp
  note assms = assms(1) dev0 assms(3-)
  have ok: "buf_ok (disk s) (bufs s i)" by (rule binvD(1) [OF assms(1,3)])
  have u: "\<forall>j<NBUF. j \<noteq> i \<longrightarrow> \<not> caches s dev b j" using binvD(2) [OF assms(1) _ assms(3,2) _ assms(4)] by blast
  have key: "b_dev (bufs s i) = dev" "b_blockno (bufs s i) = b" using assms(4) by (simp_all add: caches_def)
  have t: "binv ?t"
  proof (rule binv_upd [OF assms(1)])
    show "buf_ok (disk s) ((bufs s i)\<lparr>b_refcnt := b_refcnt (bufs s i) + 1, b_locked := True\<rparr>)"
      using ok assms(5,6) key dev by (simp add: buf_ok_def)
  qed (use u key in \<open>simp_all add: link_same_def\<close>)
  have c: "caches ?t dev b i" using assms(4) by (simp add: caches_def)
  have v: "bview ?t dev b = bview s dev b"
    using bview_cached [OF assms(1,3,2,4)] bview_cached [OF t assms(3,2) c] by simp
  have "view_same s ?t"
    by (rule view_same_upd [OF assms(1) t assms(3)]) (use v key in simp_all)
  then show ?thesis using assms t c bview_cached [OF assms(1,3,2,4)] by (auto simp: got_def disk_same_def)
qed

lemma bview_clean:
  assumes "binv s" "i < NBUF" "dev \<noteq> 0" "caches s dev b i" "\<not> b_locked (bufs s i)" "\<not> b_dirty (bufs s i)"
  shows "bview s dev b = disk s (disk_of dev) b"
  using bview_cached [OF assms(1-4)] binvD(1) [OF assms(1,2)] assms(3-6) by (auto simp: buf_ok_def caches_def)

lemma got_read:
  assumes "binv s" and dev: "dev = 1" and "i < NBUF" "\<not> b_locked (bufs s i)" "\<not> b_dirty (bufs s i)"
    and u: "\<forall>j<NBUF. j \<noteq> i \<longrightarrow> \<not> caches s dev b j" and f: "caches s dev b i \<or> i \<in> free_bufs s"
  shows "got dev b s i (upd_buf i (\<lambda>k. k\<lparr>b_dev := dev, b_blockno := b, b_valid := True, b_dirty := False, b_refcnt := 1,
    b_locked := True, b_data := disk s (disk_of dev) b\<rparr>) s)" (is "got dev b s i ?t")
proof -
  have dev0: "dev \<noteq> 0" using dev by simp
  note assms = assms(1) dev0 assms(3-)
  have t: "binv ?t"
    by (rule binv_upd [OF assms(1)]) (use u dev in \<open>simp_all add: link_same_def buf_ok_def\<close>)
  have c: "caches ?t dev b i" by (simp add: caches_def)
  have new: "bview s dev b = disk s (disk_of dev) b"
  proof (cases "caches s dev b i")
    case True
    then show ?thesis by (rule bview_clean [OF assms(1,3,2) _ assms(4,5)])
  next
    case False
    then show ?thesis using u by (intro bview_uncached) auto
  qed
  have "bview ?t d k = bview s d k" if d: "d = b_dev (bufs s i)" "k = b_blockno (bufs s i)" "d \<noteq> 0" for d k
  proof (cases "d = dev \<and> k = b")
    case True
    then show ?thesis using bview_cached [OF t assms(3,2) c] new by simp
  next
    case False
    have ci: "caches s d k i" using d by (simp add: caches_def)
    have "\<forall>j<NBUF. \<not> caches ?t d k j"
    proof (intro allI impI notI)
      fix j assume j: "j < NBUF" "caches ?t d k j"
      then have "j \<noteq> i" using False by (auto simp: caches_def)
      then have "caches s d k j" using j(2) by (simp add: caches_def)
      then show False using binvD(2) [OF assms(1) j(1) assms(3) d(3) _ ci] \<open>j \<noteq> i\<close> by simp
    qed
    then show ?thesis using bview_clean [OF assms(1,3) d(3) ci assms(4,5)] by (simp add: bview_uncached)
  qed
  then have "view_same s ?t"
    by (intro view_same_upd [OF assms(1) t assms(3)]) (use bview_cached [OF t assms(3,2) c] new in simp_all)
  then show ?thesis using assms t c new f by (simp add: got_def disk_same_def)
qed

lemma iderw_read:
  assumes "b_locked k" "\<not> b_valid k" "\<not> b_dirty k" "b_dev k = dev" "b_blockno k = b" "k = bufs s i" "havedisk1 s" "b < FSSIZE"
    "\<not> diskerr s (disk_of dev) b" "idequeue s = []"
  shows "iderw i s = Ok (upd_buf i (\<lambda>k. k\<lparr>b_data := disk s (disk_of dev) b, b_valid := True, b_dirty := False\<rparr>) s)"
  using assms by (simp add: iderw_def Let_def idestart_def ideintr_def not_le upd_buf_def)

lemma upd_buf_same: "f (g (bufs s i)) = h (bufs s i) \<Longrightarrow> upd_buf i f (upd_buf i g s) = upd_buf i h s"
  by (simp add: upd_buf_def)

lemma bread_spec:
  assumes "binv s" "can_get dev b s"
  shows "wp (bread dev b s) (\<lambda>(i, t). got dev b s i t)"
proof -
  note g = assms(2) [unfolded can_get_def]
  have gg: "havedisk1 s" "b < FSSIZE" "\<not> diskerr s (disk_of dev) b" "idequeue s = []" and d1: "dev = 1"
    using g assms(1) unfolding binv_def by blast+
  let ?P = "\<lambda>k. b_dev k = dev \<and> b_blockno k = b"
  obtain r where r: "scan_bufs (Suc NBUF) b_next ?P (b_next (bufs s head)) s = Ok r"
    "case r of Some i \<Rightarrow> i < NBUF \<and> ?P (bufs s i) | None \<Rightarrow> \<forall>i<NBUF. \<not> ?P (bufs s i)"
    using scan_all [OF assms(1), of b_next ?P] by blast
  show ?thesis
  proof (cases r)
    case (Some i)
    then have i: "i < NBUF" "caches s dev b i" using r(2) by (simp_all add: caches_def)
    have l: "\<not> b_locked (bufs s i)" using g i by blast
    have ok: "buf_ok (disk s) (bufs s i)" by (rule binvD(1) [OF assms(1) i(1)])
    let ?u = "upd_buf i (\<lambda>k. k\<lparr>b_refcnt := b_refcnt k + 1, b_locked := True\<rparr>) s"
    have get: "bget dev b s = Ok (i, ?u)"
      using r(1) Some l by (simp add: bget_def lock_buf_def upd_buf_def)
    show ?thesis
    proof (cases "b_valid (bufs s i)")
      case True
      then show ?thesis using get got_hit [OF assms(1) d1 i l] by (simp add: bread_def)
    next
      case False
      have key: "b_dev (bufs s i) = dev" "b_blockno (bufs s i) = b" using i(2) by (simp_all add: caches_def)
      have rc: "b_refcnt (bufs s i) = 0" using ok l by (simp add: buf_ok_def)
      have nd: "\<not> b_dirty (bufs s i)" using ok False by (auto simp: buf_ok_def)
      have u: "\<forall>j<NBUF. j \<noteq> i \<longrightarrow> \<not> caches s dev b j" using binvD(2) [OF assms(1) _ i(1) _ _ i(2)] d1 by auto
      have "iderw i ?u = Ok (upd_buf i (\<lambda>k. k\<lparr>b_dev := dev, b_blockno := b, b_valid := True, b_dirty := False, b_refcnt := 1,
          b_locked := True, b_data := disk s (disk_of dev) b\<rparr>) s)"
        unfolding iderw_read [of "bufs ?u i" dev b ?u i, OF _ _ _ _ _ refl, simplified, OF False nd key gg] upd_buf_sel res.inject
        by (rule upd_buf_same) (use key rc in \<open>cases "bufs s i", simp\<close>)
      then show ?thesis using get False got_read [OF assms(1) d1 i(1) l nd u] i(2) by (simp add: bread_def)
    qed
  next
    case None
    then have u: "\<forall>j<NBUF. \<not> caches s dev b j" using r(2) by (simp add: caches_def)
    let ?Q = "\<lambda>k. b_refcnt k = 0 \<and> \<not> b_dirty k"
    obtain q where q: "scan_bufs (Suc NBUF) b_prev ?Q (b_prev (bufs s head)) s = Ok q"
      "case q of Some i \<Rightarrow> i < NBUF \<and> ?Q (bufs s i) | None \<Rightarrow> \<forall>i<NBUF. \<not> ?Q (bufs s i)"
      using scan_all [OF assms(1), of b_prev ?Q] by blast
    have "q \<noteq> None" using q(2) g u by (cases q) (auto simp: free_bufs_def)
    then obtain i where i: "q = Some i" "i < NBUF" "b_refcnt (bufs s i) = 0" "\<not> b_dirty (bufs s i)" using q(2) by auto
    have l: "\<not> b_locked (bufs s i)" using binvD(1) [OF assms(1) i(2)] i(3) by (auto simp: buf_ok_def split: if_splits)
    let ?u = "upd_buf i (\<lambda>k. k\<lparr>b_dev := dev, b_blockno := b, b_valid := False, b_dirty := False, b_refcnt := 1, b_locked := True\<rparr>) s"
    have get: "bget dev b s = Ok (i, ?u)"
      using r(1) None q(1) i(1) l by (simp add: bget_def lock_buf_def upd_buf_def)
    have "iderw i ?u = Ok (upd_buf i (\<lambda>k. k\<lparr>b_dev := dev, b_blockno := b, b_valid := True, b_dirty := False, b_refcnt := 1,
        b_locked := True, b_data := disk s (disk_of dev) b\<rparr>) s)"
      unfolding iderw_read [of "bufs ?u i" dev b ?u i, OF _ _ _ _ _ refl, simplified, OF gg] upd_buf_sel res.inject
      by (rule upd_buf_same) simp
    then show ?thesis using get got_read [OF assms(1) d1 i(2) l i(4)] u i by (simp add: bread_def free_bufs_def)
  qed
qed

section \<open>The cache as its callers see it\<close>

text \<open>
  The root device, number 1: \<open>V\<close> is the current contents of its blocks, \<open>D\<close> what is on disk, \<open>H\<close> the blocks the caller
  has locked with their buffers, \<open>Y\<close> the dirty blocks.
\<close>

definition bc :: "'a bcache_scheme \<Rightarrow> (uint \<Rightarrow> block) \<Rightarrow> (uint \<Rightarrow> block) \<Rightarrow> (uint \<rightharpoonup> nat) \<Rightarrow> uint set \<Rightarrow> bool" where
  "bc s V D H Y \<longleftrightarrow> binv s \<and> havedisk1 s \<and> bview s 1 = V \<and> disk s 1 = D \<and>
     (\<forall>b i. H b = Some i \<longleftrightarrow> i < NBUF \<and> caches s 1 b i \<and> b_locked (bufs s i)) \<and>
     Y = {b. \<exists>i<NBUF. caches s 1 b i \<and> b_dirty (bufs s i)}"

lemma disk_of_1 [simp]: "disk_of 1 = 1"
  by (simp add: disk_of_def)

lemma bc_held:
  assumes "bc s V D H Y" "H b = Some i"
  shows "i < NBUF" "caches s 1 b i" "b_locked (bufs s i)" "b_valid (bufs s i)" "b_data (bufs s i) = V b"
    "b_dirty (bufs s i) \<longleftrightarrow> b \<in> Y" "b_refcnt (bufs s i) = 1"
proof -
  have inv: "binv s" using assms by (simp add: bc_def)
  show 1: "i < NBUF" "caches s 1 b i" "b_locked (bufs s i)" using assms by (auto simp: bc_def)
  show 2: "b_valid (bufs s i)" "b_refcnt (bufs s i) = 1" using binvD(1) [OF inv 1(1)] 1(3) by (auto simp: buf_ok_def)
  show "b_data (bufs s i) = V b" using bview_cached [OF inv 1(1) _ 1(2)] 2 assms by (auto simp: bc_def)
  have u: "j = i" if "j < NBUF" "caches s 1 b j" for j using binvD(2) [OF inv that(1) 1(1) _ that(2) 1(2)] by simp
  have "Y = {b. \<exists>i<NBUF. caches s 1 b i \<and> b_dirty (bufs s i)}" using assms by (simp add: bc_def)
  then show "b_dirty (bufs s i) \<longleftrightarrow> b \<in> Y" using u 1(1,2) by blast
qed

lemma busy_keys:
  assumes "bc s V D H Y"
  shows "{i. i < NBUF \<and> i \<notin> free_bufs s} = {i. i < NBUF \<and> b_dev (bufs s i) = 1 \<and> b_blockno (bufs s i) \<in> dom H \<union> Y}"
proof -
  have "i \<notin> free_bufs s \<longleftrightarrow> b_dev (bufs s i) = 1 \<and> b_blockno (bufs s i) \<in> dom H \<union> Y" if i: "i < NBUF" for i
  proof
    assume "i \<notin> free_bufs s"
    then have "b_locked (bufs s i) \<or> b_dirty (bufs s i)" "b_dev (bufs s i) = 1"
      using i binvD(1) [of s i] assms by (auto simp: free_bufs_def bc_def buf_ok_def split: if_splits)
    then show "b_dev (bufs s i) = 1 \<and> b_blockno (bufs s i) \<in> dom H \<union> Y" using assms i by (auto simp: bc_def caches_def dom_def)
  next
    assume k: "b_dev (bufs s i) = 1 \<and> b_blockno (bufs s i) \<in> dom H \<union> Y"
    then obtain j where j: "j < NBUF" "caches s 1 (b_blockno (bufs s i)) j" "b_locked (bufs s j) \<or> b_dirty (bufs s j)"
      using assms by (auto simp: bc_def)
    have "j = i" using binvD(2) [of s j i 1] assms i j k by (auto simp: bc_def caches_def)
    then show "i \<notin> free_bufs s" using j binvD(1) [of s i] i assms by (auto simp: free_bufs_def bc_def buf_ok_def)
  qed
  then show ?thesis by auto
qed

lemma free_left:
  assumes "bc s V D H Y" "card (dom H \<union> Y) < NBUF" "finite (dom H \<union> Y)"
  shows "free_bufs s \<noteq> {}"
proof
  assume f: "free_bufs s = {}"
  have b: "b_dev (bufs s i) = 1" "b_blockno (bufs s i) \<in> dom H \<union> Y" if "i < NBUF" for i
    using busy_keys [OF assms(1)] f that by blast+
  have "inj_on (\<lambda>i. b_blockno (bufs s i)) {..<NBUF}"
  proof (rule inj_onI)
    fix i j assume "i \<in> {..<NBUF}" "j \<in> {..<NBUF}" "b_blockno (bufs s i) = b_blockno (bufs s j)"
    then show "i = j" using binvD(2) [of s i j 1 "b_blockno (bufs s j)"] assms(1) b(1) by (simp add: bc_def caches_def)
  qed
  moreover have "(\<lambda>i. b_blockno (bufs s i)) ` {..<NBUF} \<subseteq> dom H \<union> Y" using b(2) by blast
  ultimately have "card {..<NBUF} \<le> card (dom H \<union> Y)" using assms(3) by (intro card_inj_on_le)
  then show False using assms(2) by simp
qed

lemma bview_cong:
  assumes "\<And>i. i < NBUF \<Longrightarrow> caches t d b i = caches s d b i"
    "\<And>i. i < NBUF \<Longrightarrow> caches s d b i \<Longrightarrow> b_valid (bufs t i) = b_valid (bufs s i) \<and> b_data (bufs t i) = b_data (bufs s i)"
    "disk t (disk_of d) b = disk s (disk_of d) b"
  shows "bview t d b = bview s d b"
proof -
  have "find (\<lambda>i. caches t d b i \<and> b_valid (bufs t i)) [0..<NBUF] = find (\<lambda>i. caches s d b i \<and> b_valid (bufs s i)) [0..<NBUF]"
    using assms(1,2) by (intro find_cong) auto
  note f = this
  show ?thesis
  proof (cases "find (\<lambda>i. caches s d b i \<and> b_valid (bufs s i)) [0..<NBUF]")
    case None
    then show ?thesis using assms(3) f by (simp add: bview_def)
  next
    case (Some i)
    then have "i < NBUF" "caches s d b i" by (auto simp: find_Some_iff)
    then show ?thesis using assms(2) Some f by (simp add: bview_def)
  qed
qed

lemma bcD:
  assumes "bc s V D H Y"
  shows "binv s" "havedisk1 s" "bview s 1 = V" "disk s 1 = D"
    "H b = Some i \<longleftrightarrow> i < NBUF \<and> caches s 1 b i \<and> b_locked (bufs s i)"
    "b \<in> Y \<longleftrightarrow> (\<exists>i<NBUF. caches s 1 b i \<and> b_dirty (bufs s i))"
    "i < NBUF \<Longrightarrow> j < NBUF \<Longrightarrow> caches s 1 b i \<Longrightarrow> caches s 1 b j \<Longrightarrow> i = j"
proof -
  show i: "binv s" "havedisk1 s" "bview s 1 = V" "disk s 1 = D"
    "H b = Some i \<longleftrightarrow> i < NBUF \<and> caches s 1 b i \<and> b_locked (bufs s i)" using assms by (simp_all add: bc_def)
  show "b \<in> Y \<longleftrightarrow> (\<exists>i<NBUF. caches s 1 b i \<and> b_dirty (bufs s i))" using assms unfolding bc_def by blast
  show "i < NBUF \<Longrightarrow> j < NBUF \<Longrightarrow> caches s 1 b i \<Longrightarrow> caches s 1 b j \<Longrightarrow> i = j" using binvD(2) [OF i(1), of i j 1 b] by simp
qed

lemma bcI:
  assumes "binv s" "havedisk1 s" "\<And>c. bview s 1 c = V c" "disk s 1 = D"
    "\<And>c j. H c = Some j \<longleftrightarrow> j < NBUF \<and> caches s 1 c j \<and> b_locked (bufs s j)"
    "\<And>c. c \<in> Y \<longleftrightarrow> (\<exists>j<NBUF. caches s 1 c j \<and> b_dirty (bufs s j))"
  shows "bc s V D H Y"
proof -
  have "bview s 1 = V" using assms(3) by (simp add: fun_eq_iff)
  moreover have "Y = {c. \<exists>j<NBUF. caches s 1 c j \<and> b_dirty (bufs s j)}" using assms(6) by blast
  ultimately show ?thesis unfolding bc_def using assms(1,2,4,5) by blast
qed

lemma bc_bread:
  assumes bc: "bc s V D H Y" and h: "H b = None" and "b < FSSIZE" "\<not> diskerr s 1 b"
    and fin: "finite (dom H \<union> Y)" and room: "card (insert b (dom H \<union> Y)) \<le> NBUF"
  shows "wp (bread 1 b s) (\<lambda>(i, t). bc t V D (H(b \<mapsto> i)) Y \<and> disk_same s t)"
proof -
  note B = bcD [OF bc]
  have "(\<exists>i<NBUF. caches s 1 b i) \<or> free_bufs s \<noteq> {}"
  proof (cases "b \<in> Y")
    case True
    then show ?thesis using B(6) by blast
  next
    case False
    then have "b \<notin> dom H \<union> Y" using h by auto
    then have "card (dom H \<union> Y) < NBUF" using room fin by simp
    then show ?thesis using free_left [OF bc _ fin] by blast
  qed
  moreover have "\<forall>i<NBUF. caches s 1 b i \<longrightarrow> \<not> b_locked (bufs s i)" 
  proof (intro allI impI notI)
    fix i assume "i < NBUF" "caches s 1 b i" "b_locked (bufs s i)"
    then have "H b = Some i" using B(5) by blast
    then show False using h by simp
  qed
  ultimately have "can_get 1 b s" using B(2) assms(3,4) unfolding can_get_def by simp
  note r = bread_spec [OF B(1) this]
  show ?thesis
  proof (rule wp_mono [OF r], clarify)
    fix i t assume g: "got 1 b s i t"
    then have t: "binv t" "i < NBUF" "caches t 1 b i" "b_locked (bufs t i)" "b_dirty (bufs t i) = b_dirty (bufs s i)"
      "\<not> b_locked (bufs s i)" "caches s 1 b i \<or> i \<in> free_bufs s"
      by (simp_all add: got_def)
    have o: "bufs t j = bufs s j" if "j \<noteq> i" for j using g that by (simp add: got_def)
    have v: "bview t 1 = V" "disk t 1 = D" "havedisk1 t" and ds: "disk_same s t"
      using g B(2-4) by (auto simp: got_def view_same_def disk_same_def fun_eq_iff)
    have c: "caches t 1 c i \<longleftrightarrow> c = b" for c using t(3) by (auto simp: caches_def)
    have hi: "H c \<noteq> Some i" for c using B(5) [of c i] t(6) by auto
    have "(H(b \<mapsto> i)) c = Some j \<longleftrightarrow> j < NBUF \<and> caches t 1 c j \<and> b_locked (bufs t j)" for c j
    proof (cases "j = i")
      case True
      then show ?thesis using c t(2,4) hi by auto
    next
      case False
      have "c \<noteq> b" if "j < NBUF" "caches t 1 c j"
        using binvD(2) [OF t(1) that(1) t(2) _ that(2)] t(3) False by auto
      then show ?thesis using False B(5) [of c j] o [OF False] h by (auto simp: caches_def)
    qed
    moreover have "c \<in> Y \<longleftrightarrow> (\<exists>j<NBUF. caches t 1 c j \<and> b_dirty (bufs t j))" for c
    proof -
      have "caches t 1 c j \<and> b_dirty (bufs t j) \<longleftrightarrow> caches s 1 c j \<and> b_dirty (bufs s j)" for j
        using o [of j] t(5,7) c [of c] by (cases "j = i") (auto simp: caches_def free_bufs_def)
      then show ?thesis using B(6) [of c] by simp
    qed
    ultimately show "bc t V D (H(b \<mapsto> i)) Y \<and> disk_same s t" using t(1) v ds unfolding bc_def by blast
  qed
qed

lemma bc_upd:
  assumes bc: "bc s V D H Y" and h: "H b = Some i" and l: "link_same f"
    and f: "b_dev (f (bufs s i)) = b_dev (bufs s i)" "b_blockno (f (bufs s i)) = b_blockno (bufs s i)" "b_valid (f (bufs s i))"
      "b_locked (f (bufs s i))" "b_refcnt (f (bufs s i)) = b_refcnt (bufs s i)"
  shows "bc (upd_buf i f s) (V(b := b_data (f (bufs s i)))) D H (if b_dirty (f (bufs s i)) then insert b Y else Y - {b})"
    (is "bc ?t ?V D H ?Y")
proof -
  note B = bcD [OF bc] and C = bc_held [OF bc h]
  have key: "b_dev (bufs s i) = 1" "b_blockno (bufs s i) = b" using C(2) by (simp_all add: caches_def)
  have u: "j = i" if "j < NBUF" "caches s 1 b j" for j using B(7) [OF that(1) C(1) that(2) C(2)] .
  have c: "caches ?t 1 c j = caches s 1 c j" for c j using f(1,2) by (simp add: caches_def)
  have ci: "caches s 1 c i \<longleftrightarrow> c = b" for c using key by (auto simp: caches_def)
  have inv: "binv ?t" by (rule binv_upd [OF B(1) l]) (use f key u C(7) in \<open>auto simp: buf_ok_def\<close>)
  moreover have "bview ?t 1 c = ?V c" for c
  proof (cases "c = b")
    case True
    then show ?thesis using bview_cached [OF inv C(1), of 1 b] c C(2) f(3) by simp
  next
    case False
    then have "bview ?t 1 c = bview s 1 c" by (intro bview_cong) (use c ci in auto)
    then show ?thesis using B(3) False by auto
  qed
  moreover have "H c = Some j \<longleftrightarrow> j < NBUF \<and> caches ?t 1 c j \<and> b_locked (bufs ?t j)" for c j
    using B(5) [of c j] c f(4) C(3) by (cases "j = i") auto
  moreover have "c \<in> ?Y \<longleftrightarrow> (\<exists>j<NBUF. caches ?t 1 c j \<and> b_dirty (bufs ?t j))" for c
  proof (cases "c = b")
    case True
    have "(\<exists>j<NBUF. caches ?t 1 b j \<and> b_dirty (bufs ?t j)) \<longleftrightarrow> b_dirty (bufs ?t i)" unfolding c using C(1,2) u by blast
    then show ?thesis using True by simp
  next
    case False
    then have "caches s 1 c j \<and> b_dirty (bufs ?t j) \<longleftrightarrow> caches s 1 c j \<and> b_dirty (bufs s j)" for j using ci by auto
    then show ?thesis using B(6) [of c] c False by auto
  qed
  moreover have "havedisk1 ?t" "disk ?t 1 = D" using B(2,4) by simp_all
  ultimately show ?thesis by (intro bcI)
qed

lemma bc_disk:
  assumes bc: "bc s V D H Y" and h: "H b = Some i"
  shows "bc (disk_write 1 b v s) V (D(b := v)) H Y" (is "bc ?t V _ H Y")
proof -
  note B = bcD [OF bc] and C = bc_held [OF bc h]
  have t: "bufs ?t = bufs s" "havedisk1 ?t" "disk ?t = (disk s)(1 := D(b := v))" using B(2,4) by (simp_all add: disk_write_def)
  have q: "idequeue ?t = idequeue s" by (simp add: disk_write_def)
  have c: "caches ?t = caches s" using t(1) by (simp add: caches_def fun_eq_iff)
  have "buf_ok (disk ?t) (bufs s j)" if j: "j < NBUF" for j
  proof (cases "caches s 1 b j")
    case True
    then have "j = i" using B(7) [OF j C(1) _ C(2)] by simp
    then show ?thesis using binvD(1) [OF B(1) C(1)] C(3) by (simp add: buf_ok_def)
  next
    case False
    then have "disk ?t (disk_of (b_dev (bufs s j))) (b_blockno (bufs s j)) = disk s (disk_of (b_dev (bufs s j))) (b_blockno (bufs s j))"
      if "b_dev (bufs s j) = 1" using t(3) B(4) that by (auto simp: caches_def)
    moreover have "b_dev (bufs s j) = 1" if "b_dev (bufs s j) \<noteq> 0" using binvD(1) [OF B(1) j] that
      by (simp add: buf_ok_def word_le_nat_alt word_unat_eq_iff)
    ultimately show ?thesis using binvD(1) [OF B(1) j] by (auto simp: buf_ok_def)
  qed
  then have inv: "binv ?t" using B(1) t(1) q dll_cong [of ?t s] unfolding binv_def by (simp add: nexts_def prevs_def)
  have "bview ?t 1 x = V x" for x
  proof (cases "x = b")
    case True
    then show ?thesis using bview_cached [OF inv C(1), of 1 b] C t(1) c by simp
  next
    case False
    then have "bview ?t 1 x = bview s 1 x" by (intro bview_cong) (use t c B(4) in auto)
    then show ?thesis using B(3) by simp
  qed
  moreover have "disk ?t 1 = D(b := v)" using t(3) by simp
  ultimately show ?thesis by (rule bcI [OF inv t(2)]) (use B(5,6) t(1) c in simp_all)
qed

lemma bc_fill:
  assumes "bc s V D H Y" "H b = Some i"
  shows "bc (upd_buf i (b_data_update (\<lambda>_. v)) s) (V(b := v)) D H Y"
  using bc_upd [OF assms, of "b_data_update (\<lambda>_. v)"] bc_held(3,4,6) [OF assms] by (cases "b \<in> Y") (simp_all add: link_same_def insert_absorb)

lemma bc_mark:
  assumes "bc s V D H Y" "H b = Some i"
  shows "bc (upd_buf i (b_dirty_update (\<lambda>_. True)) s) V D H (insert b Y)"
  using bc_upd [OF assms, of "b_dirty_update (\<lambda>_. True)"] bc_held [OF assms] by (simp add: link_same_def)

text \<open>\<open>bwrite\<close> puts the block's contents on disk, by one more write.\<close>

lemma bc_bwrite:
  assumes bc: "bc s V D H Y" and h: "H b = Some i" and b: "b < FSSIZE"
  shows "wp (bwrite i s) (\<lambda>t. bc t V (D(b := V b)) H (Y - {b}) \<and> diskwrites t = diskwrites s @ [(1, b, V b)] \<and> diskerr t = diskerr s \<and>
    bcache.more t = bcache.more s)"
proof -
  note B = bcD [OF bc] and C = bc_held [OF bc h]
  let ?f = "\<lambda>k. k\<lparr>b_valid := True, b_dirty := False\<rparr>" and ?u = "disk_write 1 b (V b) s"
  have key: "b_dev (bufs s i) = 1" "b_blockno (bufs s i) = b" using C(2) by (simp_all add: caches_def)
  have q: "idequeue s = []" using B(1) by (simp add: binv_def)
  have "bwrite i s = Ok (upd_buf i ?f ?u)"
    using key C(3,4,5) B(2) b q
    by (cases "bufs s i", simp add: bwrite_def iderw_def Let_def idestart_def ideintr_def not_le) (simp add: upd_buf_def disk_write_def)
  moreover have "bc (upd_buf i ?f ?u) V (D(b := V b)) H (Y - {b})"
    using bc_upd [OF bc_disk [OF bc h] h, of ?f "V b"] C by (simp add: link_same_def disk_write_def)
  ultimately show ?thesis by (simp add: disk_write_def)
qed

lemma bc_cong:
  assumes bc: "bc s V D H Y" and "dll t xs" "set xs = {..<NBUF}" and c: "contents t = contents s" and
    d: "disk t = disk s" "havedisk1 t = havedisk1 s" "idequeue t = idequeue s"
  shows "bc t V D H Y"
proof -
  note B = bcD [OF bc] and S = contents_sel
  have k: "unlinked (bufs t i) = unlinked (bufs s i)" for i using fun_cong [OF c, of i] by (simp add: contents_def)
  have e: "b_valid (bufs t i) = b_valid (bufs s i)" "b_dirty (bufs t i) = b_dirty (bufs s i)" "b_dev (bufs t i) = b_dev (bufs s i)"
    "b_blockno (bufs t i) = b_blockno (bufs s i)" "b_locked (bufs t i) = b_locked (bufs s i)"
    "b_refcnt (bufs t i) = b_refcnt (bufs s i)" "b_data (bufs t i) = b_data (bufs s i)" for i
    using S [of t i] S [of s i] c by simp_all
  have cs: "caches t = caches s" using e by (simp add: caches_def fun_eq_iff)
  have ok: "buf_ok (disk t) (bufs t i) = buf_ok (disk s) (bufs s i)" for i by (simp only: buf_ok_def e d)
  have "binv t" unfolding binv_def ok e
    by (intro conjI exI [of _ xs] B(1) [unfolded binv_def, THEN conjunct2, THEN conjunct2, THEN conjunct1]
      B(1) [unfolded binv_def, THEN conjunct2, THEN conjunct2, THEN conjunct2])
      (use assms(2,3) d(3) B(1) in \<open>simp_all add: binv_def\<close>)
  then show ?thesis
  proof (rule bcI)
    show "bview t 1 x = V x" for x using bview_cong [of t 1 x s] cs e d B(3) by simp
  qed (use B(2,4) d in simp, use B(4) d in simp, simp only: B(5) cs e, simp only: B(6) cs e)
qed

lemma bc_brelse:
  assumes bc: "bc s V D H Y" and h: "H b = Some i" and clean: "b \<in> Y \<or> V b = D b"
  shows "wp (brelse i s) (\<lambda>t. bc t V D (H(b := None)) Y \<and> disk_same s t)"
proof -
  note B = bcD [OF bc] and C = bc_held [OF bc h]
  have key: "b_dev (bufs s i) = 1" "b_blockno (bufs s i) = b" using C(2) by (simp_all add: caches_def)
  let ?t = "upd_buf i (\<lambda>k. k\<lparr>b_locked := False, b_refcnt := b_refcnt k - 1\<rparr>) s"
  have c: "caches ?t = caches s" by (auto simp: caches_def fun_eq_iff)
  have e: "b_dirty (bufs ?t j) = b_dirty (bufs s j)" for j by simp
  have u: "j = i" if "j < NBUF" "caches s 1 b j" for j using B(7) [OF that(1) C(1) that(2) C(2)] .
  have inv: "binv ?t"
    by (rule binv_upd [OF B(1)]) (use C(4-7) key clean B(4) u in \<open>auto simp: buf_ok_def link_same_def\<close>)
  have "bc ?t V D (H(b := None)) Y"
  proof (rule bcI [OF inv])
    show "bview ?t 1 x = V x" for x using bview_cong [of ?t 1 x s] c B(3) by simp
    show "(H(b := None)) x = Some j \<longleftrightarrow> j < NBUF \<and> caches ?t 1 x j \<and> b_locked (bufs ?t j)" for x j
    proof (cases "j = i")
      case True
      then show ?thesis using B(5) [of x i] key by (auto simp: caches_def)
    next
      case False
      then show ?thesis using B(5) [of x j] c u by auto
    qed
    show "x \<in> Y \<longleftrightarrow> (\<exists>j<NBUF. caches ?t 1 x j \<and> b_dirty (bufs ?t j))" for x 
      unfolding c B(6) e by (rule refl)
  qed (use B(2,4) in simp_all)
  note bt = this
  obtain xs where xs: "dll ?t xs" "set xs = {..<NBUF}" using inv by (auto simp: binv_def)
  then have "i \<in> set xs" using C(1) by simp
  then obtain ys zs where yz: "xs = ys @ i # zs" by (auto dest: split_list)
  note T = to_front_spec [OF xs(1) [unfolded yz]]
  have "bc (to_front i ?t) V D (H(b := None)) Y"
    by (rule bc_cong [OF bt T(1)]) (use T xs(2) yz in auto)
  moreover have "brelse i s = Ok (to_front i ?t)" using C(3,7) by (simp add: brelse_def Let_def)
  ultimately show ?thesis using T by (simp add: disk_same_def)
qed

section \<open>Initialisation\<close>

text \<open>The static array before \<open>binit\<close>: all zero.\<close>

definition zeroed :: "'a bcache_scheme \<Rightarrow> bool" where
  "zeroed s \<longleftrightarrow> idequeue s = [] \<and> (\<forall>i<NBUF. \<not> b_valid (bufs s i) \<and> \<not> b_dirty (bufs s i) \<and> b_dev (bufs s i) = 0 \<and> b_refcnt (bufs s i) = 0 \<and> \<not> b_locked (bufs s i))"

lemma binit_push:
  assumes "dll s xs" "b \<notin> set (head # xs)"
  defines "t \<equiv> upd_buf head (b_next_update (\<lambda>_. b)) (upd_buf (b_next (bufs s head)) (b_prev_update (\<lambda>_. b))
    (upd_buf b (\<lambda>k. k\<lparr>b_next := b_next (bufs s head), b_prev := head, b_locked := False\<rparr>) s))"
  shows "dll t (b # xs)"
proof -
  have f: "fpath (nexts s) head xs head" and p: "fpath (prevs s) head (rev xs) head" and d: "distinct (head # xs)"
    using assms(1) by (simp_all add: dll_def)
  have h: "nexts s head = last (head # rev xs)" using fpath_first [OF f] by (cases xs) (simp_all add: last_rev)
  have "nexts t = (nexts s)(b := nexts s head, head := b)" by (auto simp: t_def nexts_def)
  then have "fpath (nexts t) head (b # xs) head" using fpath_push [OF f assms(2)] d by simp
  moreover have "prevs t = (prevs s)(b := head, nexts s head := b)" by (auto simp: t_def nexts_def prevs_def)
  then have "fpath (prevs t) head (rev xs @ [b]) head" unfolding h using fpath_extend [OF p, of b] d assms(2) by (simp del: last.simps)
  ultimately show ?thesis using d assms(2) by (simp add: dll_def)
qed

lemma binit_loop_spec:
  assumes "dll s xs" "distinct bs" "set bs \<inter> set (head # xs) = {}" "zeroed s"
  shows "dll (binit_loop bs s) (rev bs @ xs) \<and> zeroed (binit_loop bs s) \<and> disk_same s (binit_loop bs s)"
  using assms
proof (induction bs arbitrary: s xs)
  case Nil
  then show ?case by (simp add: disk_same_def)
next
  case (Cons b bs)
  have b: "b \<noteq> head" using Cons.prems(3) by auto
  let ?t = "upd_buf head (b_next_update (\<lambda>_. b)) (upd_buf (b_next (bufs s head)) (b_prev_update (\<lambda>_. b))
    (upd_buf b (\<lambda>k. k\<lparr>b_next := b_next (bufs s head), b_prev := head, b_locked := False\<rparr>) s))"
  have e: "binit_loop (b # bs) s = binit_loop bs ?t" using b by (simp add: Let_def)
  have "dll ?t (b # xs)" using Cons.prems by (intro binit_push) auto
  moreover have "zeroed ?t" using Cons.prems(4) by (simp add: zeroed_def)
  ultimately have "dll (binit_loop bs ?t) (rev bs @ b # xs) \<and> zeroed (binit_loop bs ?t) \<and> disk_same ?t (binit_loop bs ?t)"
    using Cons.prems by (intro Cons.IH) auto
  then show ?case unfolding e by (simp add: disk_same_def)
qed

lemma bc_binit:
  assumes "zeroed s" "havedisk1 s"
  shows "bc (binit s) (disk s 1) (disk s 1) Map.empty {}" "disk_same s (binit s)"
proof -
  let ?s = "upd_buf head (\<lambda>k. k\<lparr>b_prev := head, b_next := head\<rparr>) s"
  have "dll ?s []" by (simp add: dll_def nexts_def prevs_def)
  moreover have z: "zeroed ?s" using assms(1) by (simp add: zeroed_def)
  ultimately have B: "dll (binit s) (rev [0..<NBUF])" "zeroed (binit s)" "disk_same ?s (binit s)"
    using binit_loop_spec [of ?s "[]" "[0..<NBUF]"] by (auto simp: binit_def)
  show ds: "disk_same s (binit s)" using B(3) by (simp add: disk_same_def)
  have n: "\<not> caches (binit s) 1 b i" if "i < NBUF" for b i using B(2) that by (simp add: zeroed_def caches_def)
  have "set (rev [0..<NBUF]) = {..<NBUF}" by auto
  then have "binv (binit s)" unfolding binv_def using B(1,2) by (auto simp: zeroed_def buf_ok_def)
  then show "bc (binit s) (disk s 1) (disk s 1) Map.empty {}"
    by (rule bcI) (use n ds assms(2) in \<open>auto simp: disk_same_def bview_uncached\<close>)
qed

section \<open>Properties\<close>

definition sample_buf :: buf where
  "sample_buf = \<lparr>b_valid = False, b_dirty = False, b_dev = 0, b_blockno = 0, b_locked = False, b_refcnt = 0, b_prev = 0, b_next = 0,
     b_data = []\<rparr>"

definition sample_disk :: bcache where
  "sample_disk = \<lparr>bufs = (\<lambda>_. sample_buf), disk = (\<lambda>_ b. replicate 512 (ucast b)), havedisk1 = True, diskerr = (\<lambda>_ _. False), idequeue = [], diskwrites = []\<rparr>"

lemma bc_sample: "bc (binit sample_disk) (\<lambda>b. replicate 512 (ucast b)) (\<lambda>b. replicate 512 (ucast b)) Map.empty {}"
  "diskerr (binit sample_disk) 1 b = False" "diskwrites (binit sample_disk) = []"
  using bc_binit [of sample_disk] by (simp_all add: sample_disk_def zeroed_def sample_buf_def disk_same_def)

text \<open>
  Property C34. \<open>bread\<close> returns, with its lock held, a buffer with the current contents of the block, which may be newer
  than the disk's. It changes neither the contents of any block nor the disk nor which blocks are dirty, whatever buffer it
  recycles, and no block ever sits in two buffers. Unless the block is cached it needs a buffer that is neither held nor dirty.
\<close>

theorem bread_returns_contents:
  assumes "bc s V D H Y" "H b = None" "b < FSSIZE" "\<not> diskerr s 1 b" "finite (dom H \<union> Y)" "card (insert b (dom H \<union> Y)) \<le> NBUF"
  shows "\<exists>i t. bread 1 b s = Ok (i, t) \<and> b_data (bufs t i) = V b \<and> b_locked (bufs t i) \<and> bc t V D (H(b \<mapsto> i)) Y \<and>
    disk_same s t \<and> (\<forall>j k c. j < NBUF \<longrightarrow> k < NBUF \<longrightarrow> caches t 1 c j \<longrightarrow> caches t 1 c k \<longrightarrow> j = k)"
proof -
  obtain i t where t: "bread 1 b s = Ok (i, t)" "bc t V D (H(b \<mapsto> i)) Y" "disk_same s t"
    using iffD1 [OF wp_iff, OF bc_bread [OF assms]] by auto
  then show ?thesis using bc_held(3,5) [OF t(2), of b i] bcD(7) [OF t(2)] by auto
qed

theorem bread_returns_contents_witness:
  "\<exists>i t. bread 1 7 (binit sample_disk) = Ok (i, t) \<and> b_data (bufs t i) = replicate 512 7"
  using bread_returns_contents [OF bc_sample(1), of 7] by (auto simp: bc_sample FSSIZE_def NBUF_def)

text \<open>
  Property C35. A block read, overwritten and released is on the disk with the new contents when \<open>bwrite\<close> ran in between, by
  exactly one disk write; a later \<open>bread\<close> finds them. No other block changes, in the cache or on the disk, and the buffer is
  free to be recycled again.
\<close>

theorem bread_bwrite_brelse_durable:
  assumes "bc s V D H Y" "H b = None" "b < FSSIZE" "\<not> diskerr s 1 b" "finite (dom H \<union> Y)" "card (insert b (dom H \<union> Y)) \<le> NBUF"
  shows "\<exists>i t u w. bread 1 b s = Ok (i, t) \<and> bwrite i (upd_buf i (b_data_update (\<lambda>_. v)) t) = Ok u \<and> brelse i u = Ok w \<and>
    bc w (V(b := v)) (D(b := v)) H (Y - {b}) \<and> diskwrites w = diskwrites s @ [(1, b, v)]"
proof -
  obtain i t where t: "bread 1 b s = Ok (i, t)" "bc t V D (H(b \<mapsto> i)) Y" "disk_same s t"
    using iffD1 [OF wp_iff, OF bc_bread [OF assms]] by auto
  have h: "(H(b \<mapsto> i)) b = Some i" by simp
  obtain u where u: "bwrite i (upd_buf i (b_data_update (\<lambda>_. v)) t) = Ok u" "bc u (V(b := v)) (D(b := v)) (H(b \<mapsto> i)) (Y - {b})"
    "diskwrites u = diskwrites t @ [(1, b, v)]"
    using iffD1 [OF wp_iff, OF bc_bwrite [OF bc_fill [OF t(2) h, of v] h assms(3)]] by (simp del: fun_upd_apply add: fun_upd_same) blast
  have "b \<in> Y - {b} \<or> (V(b := v)) b = (D(b := v)) b" by simp
  note b = this
  obtain w where w: "brelse i u = Ok w" "bc w (V(b := v)) (D(b := v)) ((H(b \<mapsto> i))(b := None)) (Y - {b})" "disk_same u w"
    using iffD1 [OF wp_iff, OF bc_brelse [OF u(2) h b]] by blast
  have "(H(b \<mapsto> i))(b := None) = H" using assms(2) by (auto simp: fun_eq_iff)
  then show ?thesis using t u w by (auto simp: disk_same_def)
qed

theorem bread_bwrite_brelse_durable_witness:
  "\<exists>i t u w. bread 1 7 (binit sample_disk) = Ok (i, t) \<and> bwrite i (upd_buf i (b_data_update (\<lambda>_. [42])) t) = Ok u \<and>
    brelse i u = Ok w \<and> disk w 1 7 = [42] \<and> diskwrites w = [(1, 7, [42])]"
proof -
  obtain i t u w where w: "bread 1 7 (binit sample_disk) = Ok (i, t)" "bwrite i (upd_buf i (b_data_update (\<lambda>_. [42])) t) = Ok u"
    "brelse i u = Ok w" "bc w ((\<lambda>b. replicate 512 (ucast b))(7 := [42])) ((\<lambda>b. replicate 512 (ucast b))(7 := [42])) Map.empty ({} - {7})"
    "diskwrites w = diskwrites (binit sample_disk) @ [(1, 7, [42])]"
    using bread_bwrite_brelse_durable [OF bc_sample(1), of 7 "[42]"] by (auto simp: bc_sample FSSIZE_def NBUF_def)
  then show ?thesis using bcD(4) [OF w(4)] by (auto simp: bc_sample)
qed

end
