(* ===== verification/Log.thy ===== *)
theory Log
  imports Bio
begin

text \<open>
  The write-ahead log (\<open>log.c\<close>) over the buffer cache. As in the cache, a section under \<open>log.lock\<close> is one step, so the
  lock itself is not in the state; \<open>begin_op\<close> says whether it returns or goes to sleep on the log, and \<open>wakeup(&log)\<close> is
  counted. A block is written to disk whole or not at all; a crash keeps the writes done so far and nothing else.
\<close>

section \<open>State\<close>

definition MAXOPBLOCKS :: int where "MAXOPBLOCKS = 10"
definition LOGSIZE :: int where "LOGSIZE = MAXOPBLOCKS * 3"
definition BSIZE :: nat where "BSIZE = 512"

text \<open>The numbers of the logged blocks are \<open>int\<close> in the code and compared with \<open>uint\<close>: the model keeps their 32 bits.\<close>

record log_state = bcache +
  l_start :: uint
  l_size :: int
  l_outstanding :: int
  l_committing :: bool
  l_dev :: uint
  lh_n :: int
  lh_block :: "nat \<Rightarrow> uint"
  log_wakeups :: nat

section \<open>The header on disk\<close>

text \<open>A \<open>struct logheader\<close> in a block: \<open>n\<close> at offset 0, \<open>block[i]\<close> at \<open>4 + 4 i\<close>, little-endian.\<close>

definition get32 :: "block \<Rightarrow> nat \<Rightarrow> uint" where
  "get32 d a = ucast (d ! a) OR push_bit 8 (ucast (d ! (a + 1))) OR push_bit 16 (ucast (d ! (a + 2))) OR push_bit 24 (ucast (d ! (a + 3)))"

definition put32 :: "block \<Rightarrow> nat \<Rightarrow> uint \<Rightarrow> block" where
  "put32 d a w = d[a := ucast w, a + 1 := ucast (drop_bit 8 w), a + 2 := ucast (drop_bit 16 w), a + 3 := ucast (drop_bit 24 w)]"

definition block_at :: "nat \<Rightarrow> (nat \<Rightarrow> uint) \<Rightarrow> uint res" where
  "block_at i f = (if int i < LOGSIZE then Ok (f i) else Undef)"

section \<open>Operations\<close>

text \<open>\<open>memmove(dst->data, src->data, BSIZE)\<close>\<close>

definition copy_data :: "nat \<Rightarrow> nat \<Rightarrow> 'a bcache_scheme \<Rightarrow> 'a bcache_scheme" where
  "copy_data dst src s = upd_buf dst (b_data_update (\<lambda>_. b_data (bufs s src))) s"

fun install_loop :: "nat list \<Rightarrow> 'a log_state_scheme \<Rightarrow> 'a log_state_scheme res" where
  "install_loop [] s = Ok s"
| "install_loop (tail # ts) s =
     rbind (bread (l_dev s) (l_start s + word_of_nat tail + 1) s) (\<lambda>(lbuf, s).
     rbind (block_at tail (lh_block s)) (\<lambda>b.
     rbind (bread (l_dev s) b s) (\<lambda>(dbuf, s).
     rbind (bwrite dbuf (copy_data dbuf lbuf s)) (\<lambda>s.
     rbind (brelse lbuf s) (\<lambda>s.
     rbind (brelse dbuf s) (\<lambda>s.
     install_loop ts s))))))"

definition install_trans :: "'a log_state_scheme \<Rightarrow> 'a log_state_scheme res" where
  "install_trans s = install_loop [0..<nat (lh_n s)] s"

fun get_blocks :: "nat list \<Rightarrow> block \<Rightarrow> (nat \<Rightarrow> uint) \<Rightarrow> (nat \<Rightarrow> uint) res" where
  "get_blocks [] d f = Ok f"
| "get_blocks (i # is) d f =
     rbind (block_at i (\<lambda>i. get32 d (4 + 4 * i))) (\<lambda>b. get_blocks is d (f(i := b)))"

definition read_head :: "'a log_state_scheme \<Rightarrow> 'a log_state_scheme res" where
  "read_head s =
     rbind (bread (l_dev s) (l_start s) s) (\<lambda>(buf, s).
     let d = b_data (bufs s buf); s = s\<lparr>lh_n := sint (get32 d 0)\<rparr>
     in rbind (get_blocks [0..<nat (lh_n s)] d (lh_block s)) (\<lambda>f.
        brelse buf (s\<lparr>lh_block := f\<rparr>)))"

fun put_blocks :: "nat list \<Rightarrow> (nat \<Rightarrow> uint) \<Rightarrow> block \<Rightarrow> block res" where
  "put_blocks [] f d = Ok d"
| "put_blocks (i # is) f d = rbind (block_at i f) (\<lambda>b. put_blocks is f (put32 d (4 + 4 * i) b))"

definition write_head :: "'a log_state_scheme \<Rightarrow> 'a log_state_scheme res" where
  "write_head s =
     rbind (bread (l_dev s) (l_start s) s) (\<lambda>(buf, s).
     rbind (put_blocks [0..<nat (lh_n s)] (lh_block s) (put32 (b_data (bufs s buf)) 0 (word_of_int (lh_n s)))) (\<lambda>d.
     rbind (bwrite buf (upd_buf buf (b_data_update (\<lambda>_. d)) s)) (\<lambda>s.
     brelse buf s)))"

definition recover_from_log :: "'a log_state_scheme \<Rightarrow> 'a log_state_scheme res" where
  "recover_from_log s =
     rbind (read_head s) (\<lambda>s.
     rbind (install_trans s) (\<lambda>s.
     write_head (s\<lparr>lh_n := 0\<rparr>)))"

fun write_log_loop :: "nat list \<Rightarrow> 'a log_state_scheme \<Rightarrow> 'a log_state_scheme res" where
  "write_log_loop [] s = Ok s"
| "write_log_loop (tail # ts) s =
     rbind (bread (l_dev s) (l_start s + word_of_nat tail + 1) s) (\<lambda>(tobuf, s).
     rbind (block_at tail (lh_block s)) (\<lambda>b.
     rbind (bread (l_dev s) b s) (\<lambda>(frombuf, s).
     rbind (bwrite tobuf (copy_data tobuf frombuf s)) (\<lambda>s.
     rbind (brelse frombuf s) (\<lambda>s.
     rbind (brelse tobuf s) (\<lambda>s.
     write_log_loop ts s))))))"

definition write_log :: "'a log_state_scheme \<Rightarrow> 'a log_state_scheme res" where
  "write_log s = write_log_loop [0..<nat (lh_n s)] s"

definition commit :: "'a log_state_scheme \<Rightarrow> 'a log_state_scheme res" where
  "commit s =
     (if 0 < lh_n s then
        rbind (write_log s) (\<lambda>s.
        rbind (write_head s) (\<lambda>s.
        rbind (install_trans s) (\<lambda>s.
        write_head (s\<lparr>lh_n := 0\<rparr>))))
      else Ok s)"

datatype 'a begun = Begun 'a | Waits

definition begin_op :: "'a log_state_scheme \<Rightarrow> 'a log_state_scheme begun" where
  "begin_op s =
     (if l_committing s then Waits
      else if LOGSIZE < lh_n s + (l_outstanding s + 1) * MAXOPBLOCKS then Waits
      else Begun (s\<lparr>l_outstanding := l_outstanding s + 1\<rparr>))"

definition end_op :: "'a log_state_scheme \<Rightarrow> 'a log_state_scheme res" where
  "end_op s =
     (let s = s\<lparr>l_outstanding := l_outstanding s - 1\<rparr>
      in if l_committing s then Panic ''log.committing''
         else if l_outstanding s = 0 then
           rbind (commit (s\<lparr>l_committing := True\<rparr>)) (\<lambda>s.
           Ok (s\<lparr>l_committing := False, log_wakeups := log_wakeups s + 1\<rparr>))
         else Ok (s\<lparr>log_wakeups := log_wakeups s + 1\<rparr>))"

text \<open>The index of the slot: the first that has the block, else the one past the end.\<close>

definition log_slot :: "uint \<Rightarrow> nat \<Rightarrow> (nat \<Rightarrow> uint) \<Rightarrow> nat" where
  "log_slot b n f = (case find (\<lambda>i. f i = b) [0..<n] of Some i \<Rightarrow> i | None \<Rightarrow> n)"

definition log_write :: "nat \<Rightarrow> 'a log_state_scheme \<Rightarrow> 'a log_state_scheme res" where
  "log_write b s =
     (if LOGSIZE \<le> lh_n s \<or> l_size s - 1 \<le> lh_n s then Panic ''too big a transaction''
      else if l_outstanding s < 1 then Panic ''log_write outside of trans''
      else
        let i = log_slot (b_blockno (bufs s b)) (nat (lh_n s)) (lh_block s);
            s = s\<lparr>lh_block := (lh_block s)(i := b_blockno (bufs s b))\<rparr>;
            s = (if int i = lh_n s then s\<lparr>lh_n := lh_n s + 1\<rparr> else s)
        in Ok (upd_buf b (b_dirty_update (\<lambda>_. True)) s))"

text \<open>\<open>readsb\<close> copies the super block out of block 1; its fields \<open>nlog\<close> and \<open>logstart\<close> are the fourth and the fifth.\<close>

definition readsb :: "uint \<Rightarrow> 'a log_state_scheme \<Rightarrow> (block \<times> 'a log_state_scheme) res" where
  "readsb dev s = rbind (bread dev 1 s) (\<lambda>(bp, s). let sb = take 28 (b_data (bufs s bp)) in rbind (brelse bp s) (\<lambda>s. Ok (sb, s)))"

definition initlog :: "uint \<Rightarrow> 'a log_state_scheme \<Rightarrow> 'a log_state_scheme res" where
  "initlog dev s =
     rbind (readsb dev s) (\<lambda>(sb, s).
     recover_from_log (s\<lparr>l_start := get32 sb 16, l_size := sint (get32 sb 12), l_dev := dev\<rparr>))"

section \<open>One block copied\<close>

lemma bc_clean:
  assumes "bc s V D H Y" "b \<notin> Y" "H b = None"
  shows "V b = D b"
proof (cases "\<exists>i<NBUF. caches s 1 b i")
  case True
  then obtain i where i: "i < NBUF" "caches s 1 b i" by blast
  have "\<not> b_dirty (bufs s i)" using bcD(6) [OF assms(1)] assms(2) i by blast
  moreover have "\<not> b_locked (bufs s i)" using bcD(5) [OF assms(1), of b i] assms(3) i by simp
  ultimately have "bview s 1 b = disk s (disk_of 1) b" using bview_clean [OF bcD(1) [OF assms(1)] i(1) _ i(2)] by simp
  then show ?thesis using bcD(3,4) [OF assms(1)] by simp
next
  case False
  then have "bview s 1 b = disk s (disk_of 1) b" by (intro bview_uncached) blast
  then show ?thesis using bcD(3,4) [OF assms(1)] by simp
qed

definition rest_same :: "'a bcache_scheme \<Rightarrow> 'a bcache_scheme \<Rightarrow> bool" where
  "rest_same s t \<longleftrightarrow> bcache.more t = bcache.more s \<and> diskerr t = diskerr s"

lemma log_sel:
  assumes "rest_same s t"
  shows "l_start t = l_start s" "l_size t = l_size s" "l_outstanding t = l_outstanding s" "l_committing t = l_committing s"
    "l_dev t = l_dev s" "lh_n t = lh_n s" "lh_block t = lh_block s" "log_wakeups t = log_wakeups s" "diskerr t = diskerr s"
  using assms by (cases s; cases t; simp add: rest_same_def)+

lemma copy_data_bc:
  assumes "bc s V D H Y" "H a = Some i" "H b = Some j"
  shows "bc (copy_data i j s) (V(a := V b)) D H Y"
  using bc_fill [OF assms(1,2)] bc_held(5) [OF assms(1,3)] by (simp add: copy_data_def)

text \<open>The blocks \<open>a\<close> and \<open>b\<close> are read, \<open>b\<close>'s contents put into \<open>a\<close>, \<open>a\<close> written, both released, in either order.\<close>

definition copied :: "'a bcache_scheme \<Rightarrow> (uint \<Rightarrow> block) \<Rightarrow> (uint \<Rightarrow> block) \<Rightarrow> uint set \<Rightarrow> uint \<Rightarrow> uint \<Rightarrow> (uint \<rightharpoonup> nat) \<Rightarrow> 'a bcache_scheme \<Rightarrow> bool" where
  "copied s V D Y a b H t \<longleftrightarrow> bc t (V(a := V b)) (D(a := V b)) H (Y - {a}) \<and> rest_same s t \<and>
     diskwrites t = diskwrites s @ [(1, a, V b)]"

lemma copied_brelse:
  assumes "copied s V D Y a b H t" "H x = Some k" "x = a \<or> x \<in> Y \<or> V x = D x"
  shows "wp (brelse k t) (copied s V D Y a b (H(x := None)))"
proof -
  have "x \<in> Y - {a} \<or> (V(a := V b)) x = (D(a := V b)) x" using assms(3) by auto
  note r = bc_brelse [OF assms(1) [unfolded copied_def, THEN conjunct1] assms(2) this]
  show ?thesis using assms(1) by (intro wp_mono [OF r]) (simp del: fun_upd_apply add: copied_def rest_same_def disk_same_def)
qed

lemma copy_tail:
  assumes bc: "bc u V D H Y" and H: "H = [a \<mapsto> i, b \<mapsto> j]" and ab: "a \<noteq> b" "a < FSSIZE" "b \<in> Y \<or> V b = D b"
    and u: "rest_same s u" "diskwrites u = diskwrites s"
    and k: "\<And>t. copied s V D Y a b Map.empty t \<Longrightarrow> wp (F t) Q"
  shows "wp (rbind (bwrite i (copy_data i j u)) (\<lambda>s. rbind (brelse i s) (\<lambda>s. rbind (brelse j s) F))) Q"
    "wp (rbind (bwrite i (copy_data i j u)) (\<lambda>s. rbind (brelse j s) (\<lambda>s. rbind (brelse i s) F))) Q"
proof -
  have h: "H a = Some i" "H b = Some j" using ab H by simp_all
  have w: "wp (bwrite i (copy_data i j u)) (copied s V D Y a b H)"
    by (rule wp_mono [OF bc_bwrite [OF copy_data_bc [OF bc h] h(1) ab(2)]]) (use u in \<open>simp add: copied_def rest_same_def copy_data_def\<close>)
  have n: "H(a := None, b := None) = Map.empty" "H(b := None, a := None) = Map.empty" using H by (auto simp: fun_eq_iff)
  show "wp (rbind (bwrite i (copy_data i j u)) (\<lambda>s. rbind (brelse i s) (\<lambda>s. rbind (brelse j s) F))) Q"
    using w
  proof (rule wp_bindI)
    fix t assume "copied s V D Y a b H t"
    then have "wp (brelse i t) (copied s V D Y a b (H(a := None)))" by (rule copied_brelse) (use h in auto)
    then show "wp (rbind (brelse i t) (\<lambda>s. rbind (brelse j s) F)) Q"
    proof (rule wp_bindI)
      fix t assume "copied s V D Y a b (H(a := None)) t"
      then have "wp (brelse j t) (copied s V D Y a b (H(a := None, b := None)))" by (rule copied_brelse) (use h ab in auto)
      then show "wp (rbind (brelse j t) F) Q" unfolding n by (rule wp_bindI) (rule k)
    qed
  qed
  show "wp (rbind (bwrite i (copy_data i j u)) (\<lambda>s. rbind (brelse j s) (\<lambda>s. rbind (brelse i s) F))) Q"
    using w
  proof (rule wp_bindI)
    fix t assume "copied s V D Y a b H t"
    then have "wp (brelse j t) (copied s V D Y a b (H(b := None)))" by (rule copied_brelse) (use h ab in auto)
    then show "wp (rbind (brelse j t) (\<lambda>s. rbind (brelse i s) F)) Q"
    proof (rule wp_bindI)
      fix t assume "copied s V D Y a b (H(b := None)) t"
      then have "wp (brelse i t) (copied s V D Y a b (H(b := None, a := None)))" by (rule copied_brelse) (use h ab in auto)
      then show "wp (rbind (brelse i t) F) Q" unfolding n by (rule wp_bindI) (rule k)
    qed
  qed
qed

text \<open>Two blocks read one after the other.\<close>

definition no_err :: "'a bcache_scheme \<Rightarrow> bool" where
  "no_err s \<longleftrightarrow> (\<forall>b. \<not> diskerr s 1 b)"

lemma bread_first:
  assumes "bc s V D Map.empty Y" "no_err s" "a < FSSIZE" "finite Y" "card (insert a Y) \<le> NBUF"
  shows "wp (bread 1 a s) (\<lambda>(i, t). bc t V D [a \<mapsto> i] Y \<and> rest_same s t \<and> diskwrites t = diskwrites s)"
  by (rule wp_mono [OF bc_bread [OF assms(1)]]) (use assms(2-) in \<open>auto simp: no_err_def disk_same_def rest_same_def\<close>)

lemma bread_second:
  assumes "bc s V D [a \<mapsto> i] Y" "rest_same r s" "diskwrites s = diskwrites r" "no_err r" "b < FSSIZE" "a \<noteq> b" "finite Y"
    "card (insert a (insert b Y)) \<le> NBUF"
  shows "wp (bread 1 b s) (\<lambda>(j, t). bc t V D [a \<mapsto> i, b \<mapsto> j] Y \<and> rest_same r t \<and> diskwrites t = diskwrites r)"
proof -
  have "insert b (dom [a \<mapsto> i] \<union> Y) = insert a (insert b Y)" by auto
  then show ?thesis using assms
    by (intro wp_mono [OF bc_bread [OF assms(1)]]) (auto simp: no_err_def disk_same_def rest_same_def)
qed

section \<open>The loops\<close>

text \<open>Block \<open>i\<close> of the log, and the region it is in.\<close>

definition log_blk :: "uint \<Rightarrow> nat \<Rightarrow> uint" where "log_blk st i = st + word_of_nat i + 1"

definition in_log :: "uint \<Rightarrow> uint \<Rightarrow> bool" where
  "in_log st b \<longleftrightarrow> unat st \<le> unat b \<and> unat b < unat st + nat LOGSIZE"

definition upds :: "(uint \<Rightarrow> block) \<Rightarrow> (uint \<times> block) list \<Rightarrow> uint \<Rightarrow> block" where
  "upds D ps = fold (\<lambda>(b, v) D. D(b := v)) ps D"

lemma upds_simps [simp]: "upds D [] = D" "upds D ((b, v) # ps) = upds (D(b := v)) ps" "upds D (ps @ qs) = upds (upds D ps) qs"
  by (simp_all add: upds_def)

lemma upds_other: "b \<notin> fst ` set ps \<Longrightarrow> upds D ps b = D b"
  by (induction ps arbitrary: D) auto

lemma upds_in: "distinct (map fst ps) \<Longrightarrow> (b, v) \<in> set ps \<Longrightarrow> upds D ps b = v"
proof (induction ps arbitrary: D)
  case (Cons p ps)
  then show ?case by (cases p) (auto simp: upds_other rev_image_eqI)
qed simp

lemma log_blk_num:
  assumes "unat st + nat LOGSIZE \<le> unat FSSIZE" "int i < LOGSIZE - 1"
  shows "unat (log_blk st i) = unat st + i + 1"
proof -
  have i: "i < 29" using assms(2) by (simp add: LOGSIZE_def MAXOPBLOCKS_def)
  have s: "unat st + 30 \<le> 2000" using assms(1) by (simp add: LOGSIZE_def MAXOPBLOCKS_def FSSIZE_def)
  have w: "unat (word_of_nat i :: uint) = i" using i by (simp add: unat_of_nat take_bit_nat_eq_self)
  have "unat (st + word_of_nat i) = unat st + i" using s i w by (simp add: unat_add_lem [THEN iffD1])
  then show ?thesis using s i by (simp add: log_blk_def unat_add_lem [THEN iffD1])
qed

text \<open>A log of \<open>n\<close> blocks numbered \<open>f\<close> that fits: distinct homes, on the disk and outside the log.\<close>

definition fits :: "uint \<Rightarrow> nat \<Rightarrow> (nat \<Rightarrow> uint) \<Rightarrow> bool" where
  "fits st n f \<longleftrightarrow> unat st + nat LOGSIZE \<le> unat FSSIZE \<and> int n \<le> LOGSIZE - 1 \<and> inj_on f {..<n} \<and>
     (\<forall>i<n. f i < FSSIZE \<and> \<not> in_log st (f i))"

lemma fitsD:
  assumes "fits st n f" "i < n"
  shows "log_blk st i < FSSIZE" "f i < FSSIZE" "j < n \<Longrightarrow> log_blk st i \<noteq> f j" "log_blk st i \<noteq> st" "in_log st (log_blk st i)"
    "block_at i f = Ok (f i)" "f i \<noteq> st" "j < n \<Longrightarrow> log_blk st i = log_blk st j \<longleftrightarrow> i = j"
proof -
  have n: "unat (log_blk st k) = unat st + k + 1" "k < 29" if "k < n" for k
    using assms(1) that log_blk_num [of st k] by (auto simp: fits_def LOGSIZE_def MAXOPBLOCKS_def)
  have s: "unat st + 30 \<le> 2000" using assms(1) by (simp add: fits_def LOGSIZE_def MAXOPBLOCKS_def FSSIZE_def)
  show "log_blk st i < FSSIZE" using n [OF assms(2)] s by (simp add: FSSIZE_def word_less_nat_alt)
  show il: "in_log st (log_blk st i)" using n [OF assms(2)] by (simp add: in_log_def LOGSIZE_def MAXOPBLOCKS_def)
  show "j < n \<Longrightarrow> log_blk st i \<noteq> f j" using assms(1) il by (auto simp: fits_def)
  show "log_blk st i \<noteq> st" using n [OF assms(2)] by auto
  show "f i < FSSIZE" using assms by (simp add: fits_def)
  show "block_at i f = Ok (f i)" using n [OF assms(2)] by (simp add: block_at_def LOGSIZE_def MAXOPBLOCKS_def)
  have "in_log st st" by (simp add: in_log_def LOGSIZE_def MAXOPBLOCKS_def)
  then show "f i \<noteq> st" using assms by (auto simp: fits_def)
  show "j < n \<Longrightarrow> log_blk st i = log_blk st j \<longleftrightarrow> i = j" using n [OF assms(2)] n [of j] by (auto simp: word_unat_eq_iff)
qed

lemma rest_trans: "rest_same s t \<Longrightarrow> rest_same t u \<Longrightarrow> rest_same s u"
  by (simp add: rest_same_def)

lemma no_err_same: "rest_same s t \<Longrightarrow> no_err t = no_err s"
  by (simp add: rest_same_def no_err_def)

definition as_writes :: "(uint \<times> block) list \<Rightarrow> (uint \<times> uint \<times> block) list" where
  "as_writes ps = map (\<lambda>(b, v). (1, b, v)) ps"

lemma as_writes_simps [simp]: "as_writes [] = []" "as_writes (p # ps) = (1, fst p, snd p) # as_writes ps"
  "as_writes (ps @ qs) = as_writes ps @ as_writes qs"
  by (auto simp: as_writes_def split_beta)

definition log_at :: "'a log_state_scheme \<Rightarrow> uint \<Rightarrow> nat \<Rightarrow> (nat \<Rightarrow> uint) \<Rightarrow> bool" where
  "log_at s st n f \<longleftrightarrow> l_dev s = 1 \<and> l_start s = st \<and> lh_block s = f \<and> no_err s \<and> fits st n f"

lemma log_at_same: "log_at s st n f \<Longrightarrow> rest_same s t \<Longrightarrow> log_at t st n f"
  by (simp add: log_at_def log_sel no_err_same)

definition wrote :: "'a bcache_scheme \<Rightarrow> (uint \<Rightarrow> block) \<Rightarrow> (uint \<Rightarrow> block) \<Rightarrow> uint set \<Rightarrow> (uint \<times> block) list \<Rightarrow> 'a bcache_scheme \<Rightarrow> bool" where
  "wrote s V D Y ps t \<longleftrightarrow> bc t (upds V ps) (upds D ps) Map.empty Y \<and> rest_same s t \<and> diskwrites t = diskwrites s @ as_writes ps"

lemma two_reads:
  fixes s :: "'a log_state_scheme"
  assumes bc: "bc s V D Map.empty Y" and s: "l_dev s = 1" "no_err s" "block_at i (lh_block s) = Ok b"
    and ab: "a \<noteq> b" "a < FSSIZE" "b < FSSIZE" and Y: "finite Y" "card (insert a (insert b Y)) \<le> NBUF"
    and k: "\<And>p q u. bc u V D [a \<mapsto> p, b \<mapsto> q] Y \<Longrightarrow> rest_same s u \<Longrightarrow> diskwrites u = diskwrites s \<Longrightarrow> wp (G p q u) Q"
  shows "wp (rbind (bread (l_dev s) a s) (\<lambda>(p, t). rbind (block_at i (lh_block t)) (\<lambda>b. rbind (bread (l_dev t) b t) (\<lambda>(q, u). G p q u)))) Q"
proof -
  have "card (insert a Y) \<le> card (insert a (insert b Y))" using Y(1) by (intro card_mono) auto
  then have "wp (bread 1 a s) (\<lambda>(p, t). bc t V D [a \<mapsto> p] Y \<and> rest_same s t \<and> diskwrites t = diskwrites s)"
    using Y by (intro bread_first [OF bc s(2) ab(2)]) auto
  then show ?thesis unfolding s(1)
  proof (rule wp_bindI, clarsimp simp del: wp_rbind)
    fix p t assume t: "bc t V D [a \<mapsto> p] Y" "rest_same s t" "diskwrites t = diskwrites s"
    have "wp (bread 1 b t) (\<lambda>(q, u). bc u V D [a \<mapsto> p, b \<mapsto> q] Y \<and> rest_same s u \<and> diskwrites u = diskwrites s)"
      by (rule bread_second [OF t s(2) ab(3,1) Y])
    then show "wp (rbind (block_at i (lh_block t)) (\<lambda>b. rbind (bread (l_dev t) b t) (\<lambda>(q, u). G p q u))) Q"
      unfolding log_sel [OF t(2)] s(1,3) rbind_simps by (rule wp_bindI) (auto simp del: wp_rbind intro: k)
  qed
qed

lemma write_log_step:
  assumes bc: "bc s V D Map.empty Y" and at: "log_at s st n f" and i: "i < n"
    and Y: "finite Y" "card Y < NBUF" "f i \<in> Y" "log_blk st i \<notin> Y"
    and k: "\<And>t. copied s V D Y (log_blk st i) (f i) Map.empty t \<Longrightarrow> wp (write_log_loop is t) Q"
  shows "wp (write_log_loop (i # is) s) Q"
proof -
  have s: "l_dev s = 1" "l_start s = st" "lh_block s = f" "no_err s" and fit: "fits st n f" using at by (simp_all add: log_at_def)
  note F = fitsD [OF fit i]
  have ab: "log_blk st i \<noteq> f i" using F(3) i by simp
  have room: "card (insert (log_blk st i) (insert (f i) Y)) \<le> NBUF" using Y by (simp add: insert_absorb)
  show ?thesis unfolding write_log_loop.simps s(2) log_blk_def [symmetric]
    by (rule two_reads [OF bc s(1,4) _ ab F(1,2) Y(1) room]) (use F(6) s(3) Y(3) in \<open>auto intro: copy_tail(2) [OF _ refl ab F(1)] k simp del: wp_rbind\<close>)
qed

lemma install_step:
  assumes bc: "bc s V D Map.empty Y" and at: "log_at s st n f" and i: "i < n"
    and Y: "finite Y" "card (insert (log_blk st i) (insert (f i) Y)) \<le> NBUF" "log_blk st i \<notin> Y"
    and k: "\<And>t. copied s V D Y (f i) (log_blk st i) Map.empty t \<Longrightarrow> wp (install_loop is t) Q"
  shows "wp (install_loop (i # is) s) Q"
proof -
  have s: "l_dev s = 1" "l_start s = st" "lh_block s = f" "no_err s" and fit: "fits st n f" using at by (simp_all add: log_at_def)
  note F = fitsD [OF fit i]
  have ab: "log_blk st i \<noteq> f i" using F(3) i by simp
  have cl: "V (log_blk st i) = D (log_blk st i)" using bc_clean [OF bc Y(3)] by simp
  have b: "block_at i (lh_block s) = Ok (f i)" using F(6) s(3) by simp
  show ?thesis unfolding install_loop.simps s(2) log_blk_def [symmetric]
  proof (rule two_reads [OF bc s(1,4) b ab F(1,2) Y(1,2)])
    fix p q u assume u: "bc u V D [log_blk st i \<mapsto> p, f i \<mapsto> q] Y" "rest_same s u" "diskwrites u = diskwrites s"
    have "[log_blk st i \<mapsto> p, f i \<mapsto> q] = [f i \<mapsto> q, log_blk st i \<mapsto> p]" using ab by (simp add: fun_upd_twist)
    then show "wp (rbind (bwrite q (copy_data q p u)) (\<lambda>s. rbind (brelse p s) (\<lambda>s. rbind (brelse q s) (install_loop is)))) Q"
      by (intro copy_tail(2) [OF u(1) _ ab [symmetric] F(2) _ u(2,3) k]) (use cl in auto)
  qed
qed

lemma wrote_Cons:
  assumes "copied s V D Y a b Map.empty t" "wrote t (V(a := V b)) (D(a := V b)) Z ps u"
  shows "wrote s V D Z ((a, V b) # ps) u"
  using assms by (simp add: wrote_def copied_def rest_same_def del: fun_upd_apply)

lemma write_log_spec:
  assumes "bc s V D Map.empty Y" "log_at s st n f" "set is \<subseteq> {..<n}" "finite Y" "card Y < NBUF" "f ` {..<n} \<subseteq> Y" "\<forall>b\<in>Y. \<not> in_log st b"
  shows "wp (write_log_loop is s) (wrote s V D Y (map (\<lambda>i. (log_blk st i, V (f i))) is))"
  using assms
proof (induction "is" arbitrary: s V D)
  case Nil
  then show ?case by (simp add: wrote_def rest_same_def)
next
  case (Cons i "is")
  have fit: "fits st n f" and i: "i < n" using Cons.prems by (auto simp: log_at_def)
  have a: "log_blk st i \<notin> Y" using Cons.prems(7) fitsD(5) [OF fit i] by blast
  show ?case
  proof (rule write_log_step [OF Cons.prems(1,2) i Cons.prems(4,5) _ a])
    fix t assume t: "copied s V D Y (log_blk st i) (f i) Map.empty t"
    let ?V = "V(log_blk st i := V (f i))" and ?D = "D(log_blk st i := V (f i))"
    have r: "rest_same s t" using t by (simp add: copied_def)
    have b: "bc t ?V ?D Map.empty Y" using t a by (simp add: copied_def del: fun_upd_apply)
    have "wp (write_log_loop is t) (wrote t ?V ?D Y (map (\<lambda>i. (log_blk st i, ?V (f i))) is))"
      using Cons.prems by (intro Cons.IH [OF b log_at_same [OF _ r]]) auto
    moreover have "map (\<lambda>j. (log_blk st j, ?V (f j))) is = map (\<lambda>j. (log_blk st j, V (f j))) is"
      using Cons.prems(3) fitsD(3) [OF fit i] by (intro map_cong) force+
    ultimately show "wp (write_log_loop is t) (wrote s V D Y (map (\<lambda>i. (log_blk st i, V (f i))) (i # is)))"
      unfolding list.map by (auto intro: wrote_Cons [OF t] elim!: wp_mono simp del: fun_upd_apply)
  qed (use Cons.prems i in auto)
qed

lemma install_spec:
  assumes "bc s V D Map.empty Y" "log_at s st n f" "set is \<subseteq> {..<n}" "distinct is" "finite Y"
    "\<forall>i\<in>set is. card (insert (log_blk st i) (insert (f i) Y)) \<le> NBUF" "\<forall>b\<in>Y. \<not> in_log st b"
  shows "wp (install_loop is s) (wrote s V D (Y - f ` set is) (map (\<lambda>i. (f i, V (log_blk st i))) is))"
  using assms
proof (induction "is" arbitrary: s V D Y)
  case Nil
  then show ?case by (simp add: wrote_def rest_same_def)
next
  case (Cons i "is")
  have fit: "fits st n f" and i: "i < n" using Cons.prems by (auto simp: log_at_def)
  have a: "log_blk st i \<notin> Y" using Cons.prems(7) fitsD(5) [OF fit i] by blast
  have c: "card (insert (log_blk st i) (insert (f i) Y)) \<le> NBUF" using Cons.prems(6) by simp
  show ?case
  proof (rule install_step [OF Cons.prems(1,2) i Cons.prems(5) c a])
    fix t assume t: "copied s V D Y (f i) (log_blk st i) Map.empty t"
    let ?V = "V(f i := V (log_blk st i))" and ?D = "D(f i := V (log_blk st i))"
    have r: "rest_same s t" using t by (simp add: copied_def)
    have b: "bc t ?V ?D Map.empty (Y - {f i})" using t by (simp add: copied_def del: fun_upd_apply)
    have "card (insert (log_blk st j) (insert (f j) (Y - {f i}))) \<le> NBUF" if "j \<in> set is" for j
    proof (rule order.trans)
      show "card (insert (log_blk st j) (insert (f j) (Y - {f i}))) \<le> card (insert (log_blk st j) (insert (f j) Y))"
        using Cons.prems(5) by (intro card_mono) auto
      show "card (insert (log_blk st j) (insert (f j) Y)) \<le> NBUF" using Cons.prems(6) that by simp
    qed
    then have "wp (install_loop is t) (wrote t ?V ?D (Y - {f i} - f ` set is) (map (\<lambda>i. (f i, ?V (log_blk st i))) is))"
      using Cons.prems by (intro Cons.IH [OF b log_at_same [OF _ r]]) auto
    moreover have "map (\<lambda>j. (f j, ?V (log_blk st j))) is = map (\<lambda>j. (f j, V (log_blk st j))) is"
      using Cons.prems(3) fitsD(3) [OF fit _ i] by (intro map_cong) force+
    moreover have "Y - {f i} - f ` set is = Y - f ` set (i # is)" by auto
    ultimately show "wp (install_loop is t) (wrote s V D (Y - f ` set (i # is)) (map (\<lambda>i. (f i, V (log_blk st i))) (i # is)))"
      unfolding list.map by (auto intro: wrote_Cons [OF t] elim!: wp_mono simp del: fun_upd_apply)
  qed
qed

section \<open>The header in its block\<close>

lemma length_put32 [simp]: "length (put32 d a w) = length d"
  by (simp add: put32_def)

lemma bytes_word: "(ucast (ucast (w :: uint) :: uchar) :: uint) OR push_bit 8 (ucast (ucast (drop_bit 8 w) :: uchar)) OR
    push_bit 16 (ucast (ucast (drop_bit 16 w) :: uchar)) OR push_bit 24 (ucast (ucast (drop_bit 24 w) :: uchar)) = w"
  (is "?l = w")
proof (rule bit_eqI)
  fix n :: nat assume "possible_bit TYPE(uint) n"
  then have n: "n < 32" by simp
  show "bit ?l n = bit w n"
    using n by (cases "n < 8"; cases "n < 16"; cases "n < 24") (auto simp: bit_or_iff bit_push_bit_iff bit_ucast_iff bit_drop_bit_eq)
qed

lemma get32_put32 [simp]: "a + 3 < length d \<Longrightarrow> get32 (put32 d a w) a = w"
  using bytes_word [of w] by (simp add: get32_def put32_def)

lemma get32_put32_other: "a + 3 < b \<or> b + 3 < a \<Longrightarrow> get32 (put32 d a w) b = get32 d b"
  by (auto simp: get32_def put32_def)

lemma put_blocks_spec:
  assumes "set is \<subseteq> {..<29}" "distinct is" "length d = 512"
  shows "\<exists>h. put_blocks is f d = Ok h \<and> length h = 512 \<and> get32 h 0 = get32 d 0 \<and> (\<forall>i. get32 h (4 + 4 * i) = (if i \<in> set is then f i else get32 d (4 + 4 * i)))"
  using assms
proof (induction "is" arbitrary: d)
  case (Cons i "is")
  let ?d = "put32 d (4 + 4 * i) (f i)"
  have i: "i < 29" using Cons.prems by auto
  obtain h where h: "put_blocks is f ?d = Ok h" "length h = 512" "get32 h 0 = get32 ?d 0"
    "get32 h (4 + 4 * j) = (if j \<in> set is then f j else get32 ?d (4 + 4 * j))" for j
    using Cons.IH [of ?d] Cons.prems by auto
  have o: "get32 ?d (4 + 4 * j) = (if j = i then f i else get32 d (4 + 4 * j))" for j
    using i Cons.prems(3) get32_put32_other [of "4 + 4 * i" "4 + 4 * j" d] by (cases "j = i") (auto simp: nat_neq_iff)
  show ?case
    using h o i get32_put32_other [of "4 + 4 * i" 0] Cons.prems(2) by (auto simp: block_at_def LOGSIZE_def MAXOPBLOCKS_def)
qed simp

lemma get_blocks_spec:
  "set is \<subseteq> {..<29} \<Longrightarrow> \<exists>g. get_blocks is d f = Ok g \<and> (\<forall>i. g i = (if i \<in> set is then get32 d (4 + 4 * i) else f i))"
proof (induction "is" arbitrary: f)
  case (Cons i "is")
  then have p: "set is \<subseteq> {..<29}" by simp
  obtain g where "get_blocks is d (f(i := get32 d (4 + 4 * i))) = Ok g"
    "\<forall>j. g j = (if j \<in> set is then get32 d (4 + 4 * j) else (f(i := get32 d (4 + 4 * i))) j)"
    using Cons.IH [OF p, of "f(i := get32 d (4 + 4 * i))"] by blast
  then show ?case using Cons.prems by (auto simp: block_at_def LOGSIZE_def MAXOPBLOCKS_def)
qed simp

lemma bc_fields:
  assumes "bufs t = bufs s" "disk t = disk s" "havedisk1 t = havedisk1 s" "idequeue t = idequeue s"
  shows "bc t V D H Y = bc s V D H Y"
proof -
  have c: "caches t = caches s" using assms by (simp add: caches_def fun_eq_iff)
  have "bview t = bview s" by (intro ext) (simp add: bview_def assms c split: option.split)
  moreover have "binv t = binv s" using assms dll_cong [of t s] by (simp add: binv_def nexts_def prevs_def)
  ultimately show ?thesis using assms c by (simp add: bc_def)
qed

lemma bc_log_fields [simp]:
  "bc (s\<lparr>lh_n := x\<rparr>) V D H Y = bc s V D H Y" "bc (s\<lparr>lh_block := f\<rparr>) V D H Y = bc s V D H Y"
  "bc (s\<lparr>l_start := st\<rparr>) V D H Y = bc s V D H Y" "bc (s\<lparr>l_size := x\<rparr>) V D H Y = bc s V D H Y"
  "bc (s\<lparr>l_dev := dv\<rparr>) V D H Y = bc s V D H Y" "bc (s\<lparr>l_committing := cm\<rparr>) V D H Y = bc s V D H Y"
  "bc (s\<lparr>l_outstanding := x\<rparr>) V D H Y = bc s V D H Y" "bc (s\<lparr>log_wakeups := w\<rparr>) V D H Y = bc s V D H Y"
  by (rule bc_fields; simp)+

text \<open>A header block with \<open>n\<close> entries \<open>f\<close>.\<close>

definition header :: "block \<Rightarrow> nat \<Rightarrow> (nat \<Rightarrow> uint) \<Rightarrow> bool" where
  "header h n f \<longleftrightarrow> length h = 512 \<and> get32 h 0 = word_of_nat n \<and> (\<forall>i<n. get32 h (4 + 4 * i) = f i)"

lemma bc_finite: "bc s V D H Y \<Longrightarrow> finite Y"
proof -
  assume "bc s V D H Y"
  then have "Y \<subseteq> (\<lambda>i. b_blockno (bufs s i)) ` {..<NBUF}" unfolding bc_def caches_def by blast
  then show "finite Y" by (rule finite_subset) simp
qed

lemma write_head_spec:
  fixes s :: "'a log_state_scheme"
  assumes bc: "bc s V D Map.empty Y" and s: "l_dev s = 1" "l_start s = st" "no_err s" "lh_n s = int n" "n \<le> 29" "lh_block s = f"
    and st: "st < FSSIZE" "st \<notin> Y" "card Y < NBUF" "length (V st) = 512"
  shows "wp (write_head s) (\<lambda>t. \<exists>h. header h n f \<and> wrote s V D Y [(st, h)] t)"
proof -
  have fin: "finite Y" by (rule bc_finite [OF bc])
  have room: "card (insert st Y) \<le> NBUF" using st fin by simp
  show ?thesis unfolding write_head_def s(1,2)
  proof (rule wp_bindI [OF bread_first [OF bc s(3) st(1) fin room]], clarsimp simp del: wp_rbind)
    fix i t assume t: "bc t V D [st \<mapsto> i] Y" "rest_same s t" "diskwrites t = diskwrites s"
    have d: "b_data (bufs t i) = V st" using bc_held(5) [OF t(1)] by simp
    have n: "set [0..<n] \<subseteq> {..<29}" using s(5) by auto
    obtain h where h: "put_blocks [0..<n] f (put32 (V st) 0 (word_of_int (int n))) = Ok h" "length h = 512"
      "get32 h 0 = get32 (put32 (V st) 0 (word_of_int (int n))) 0" "\<forall>i. get32 h (4 + 4 * i) =
         (if i \<in> set [0..<n] then f i else get32 (put32 (V st) 0 (word_of_int (int n))) (4 + 4 * i))"
      using put_blocks_spec [OF n distinct_upt, of "put32 (V st) 0 (word_of_int (int n))" f] st(4) by auto
    then have hd: "header h n f" using st(4) by (simp add: header_def)
    let ?u = "upd_buf i (b_data_update (\<lambda>_. h)) t" and ?H = "[st \<mapsto> i]"
    have H: "?H st = Some i" by simp
    have u: "bc ?u (V(st := h)) D ?H Y" by (rule bc_fill [OF t(1) H])
    have w: "wp (bwrite i ?u) (\<lambda>t. bc t (V(st := h)) (D(st := h)) ?H Y \<and> rest_same s t \<and> diskwrites t = diskwrites s @ [(1, st, h)])"
      by (rule wp_mono [OF bc_bwrite [OF u H st(1)]]) (use t st(2) in \<open>simp add: rest_same_def del: fun_upd_apply add: fun_upd_same\<close>)
    have "wp (rbind (bwrite i ?u) (brelse i)) (wrote s V D Y [(st, h)])"
    proof (rule wp_bindI [OF w], elim conjE)
      fix x assume x: "bc x (V(st := h)) (D(st := h)) ?H Y" "rest_same s x" "diskwrites x = diskwrites s @ [(1, st, h)]"
      have "?H(st := None) = Map.empty" by auto
      then show "wp (brelse i x) (wrote s V D Y [(st, h)])"
        using x by (intro wp_mono [OF bc_brelse [OF x(1) H]])
          (simp_all add: wrote_def rest_same_def disk_same_def del: fun_upd_apply add: fun_upd_same)
    qed
    then show "wp (rbind (put_blocks [0..<nat (lh_n t)] (lh_block t) (put32 (b_data (bufs t i)) 0 (word_of_int (lh_n t))))
        (\<lambda>d. rbind (bwrite i (upd_buf i (b_data_update (\<lambda>_. d)) t)) (brelse i))) (\<lambda>t. \<exists>h. header h n f \<and> wrote s V D Y [(st, h)] t)"
      unfolding log_sel [OF t(2)] s(4,6) d nat_int h(1) rbind_simps by (rule wp_mono) (use hd in blast)
  qed
qed

section \<open>Recovery\<close>

text \<open>What a disk's log says: how many blocks, where they belong, and the disk once they are copied there.\<close>

definition hd_n :: "uint \<Rightarrow> (uint \<Rightarrow> block) \<Rightarrow> nat" where "hd_n st D = nat (sint (get32 (D st) 0))"
definition hd_blk :: "uint \<Rightarrow> (uint \<Rightarrow> block) \<Rightarrow> nat \<Rightarrow> uint" where "hd_blk st D i = get32 (D st) (4 + 4 * i)"

definition pending :: "uint \<Rightarrow> (uint \<Rightarrow> block) \<Rightarrow> (uint \<times> block) list" where
  "pending st D = map (\<lambda>i. (hd_blk st D i, D (log_blk st i))) [0..<hd_n st D]"

definition log_valid :: "uint \<Rightarrow> (uint \<Rightarrow> block) \<Rightarrow> bool" where
  "log_valid st D \<longleftrightarrow> length (D st) = 512 \<and> 0 \<le> sint (get32 (D st) 0) \<and> fits st (hd_n st D) (hd_blk st D)"

lemma fits_n: "fits st n f \<Longrightarrow> n \<le> 29" "fits st n f \<Longrightarrow> st < FSSIZE"
  by (simp_all add: fits_def LOGSIZE_def MAXOPBLOCKS_def FSSIZE_def word_less_nat_alt)

lemma in_log_start [simp]: "in_log st st"
  by (simp add: in_log_def LOGSIZE_def MAXOPBLOCKS_def)

lemma bread_brelse:
  assumes "bc s V D [a \<mapsto> i] Y" "a \<in> Y \<or> V a = D a"
  shows "wp (brelse i s) (\<lambda>t. bc t V D Map.empty Y \<and> rest_same s t \<and> diskwrites t = diskwrites s)"
proof -
  have "[a \<mapsto> i](a := None) = Map.empty" by auto
  then show ?thesis using wp_mono [OF bc_brelse [OF assms(1) _ assms(2)]] by (simp add: rest_same_def disk_same_def)
qed

definition head_read :: "uint \<Rightarrow> (uint \<Rightarrow> block) \<Rightarrow> 'a log_state_scheme \<Rightarrow> 'a log_state_scheme \<Rightarrow> bool" where
  "head_read st D s t \<longleftrightarrow> bc t D D Map.empty {} \<and> l_dev t = 1 \<and> l_start t = st \<and> no_err t \<and> diskwrites t = diskwrites s \<and>
     lh_n t = int (hd_n st D) \<and> (\<forall>i<hd_n st D. lh_block t i = hd_blk st D i) \<and> l_outstanding t = l_outstanding s \<and> l_size t = l_size s \<and>
     l_committing t = l_committing s"

lemma read_head_spec:
  fixes s :: "'a log_state_scheme"
  assumes bc: "bc s D D Map.empty {}" and s: "l_dev s = 1" "l_start s = st" "no_err s" and v: "log_valid st D"
  shows "wp (read_head s) (head_read st D s)"
proof -
  have fit: "fits st (hd_n st D) (hd_blk st D)" using v by (simp add: log_valid_def)
  show ?thesis unfolding read_head_def s(1,2)
  proof (rule wp_bindI [OF bread_first [OF bc s(3) fits_n(2) [OF fit]]], simp, simp add: NBUF_def, clarsimp simp del: wp_rbind simp: Let_def)
    fix i t assume t: "bc t D D [st \<mapsto> i] {}" "rest_same s t" "diskwrites t = diskwrites s"
    have d: "b_data (bufs t i) = D st" using bc_held(5) [OF t(1)] by simp
    have n: "nat (sint (get32 (D st) 0)) = hd_n st D" "sint (get32 (D st) 0) = int (hd_n st D)" using v by (simp_all add: log_valid_def hd_n_def)
    have "set [0..<hd_n st D] \<subseteq> {..<29}" using fits_n(1) [OF fit] by auto
    then obtain g where g: "get_blocks [0..<hd_n st D] (D st) (lh_block t) = Ok g" "\<forall>i<hd_n st D. g i = hd_blk st D i"
      using get_blocks_spec [of "[0..<hd_n st D]" "D st" "lh_block t"] by (auto simp: hd_blk_def)
    let ?u = "t\<lparr>lh_n := int (hd_n st D), lh_block := g\<rparr>"
    have "bc ?u D D [st \<mapsto> i] {}" using t(1) by simp
    then have "wp (brelse i ?u) (\<lambda>w. bc w D D Map.empty {} \<and> rest_same ?u w \<and> diskwrites w = diskwrites ?u)" by (rule bread_brelse) simp
    moreover have "no_err ?u" "l_dev ?u = 1" "l_start ?u = st" "l_outstanding ?u = l_outstanding s" "l_size ?u = l_size s" "l_committing ?u = l_committing s"
      using log_sel [OF t(2)] s by (simp_all add: no_err_def)
    ultimately show "wp (rbind (get_blocks [0..<nat (sint (get32 (b_data (bufs t i)) 0))] (b_data (bufs t i)) (lh_block t))
       (\<lambda>f. brelse i (t\<lparr>lh_n := sint (get32 (b_data (bufs t i)) 0), lh_block := f\<rparr>)))
      (head_read st D s)"
      unfolding d n(2) nat_int g(1) rbind_simps using t(3) g(2) 
      by (elim wp_mono) (auto simp: head_read_def dest: log_sel no_err_same)
  qed
qed

lemma fits_cong: "(\<And>i. i < n \<Longrightarrow> f i = g i) \<Longrightarrow> fits st n f = fits st n g"
  by (simp add: fits_def inj_on_def)

lemma upds_start: "st \<notin> f ` set is \<Longrightarrow> upds D (map (\<lambda>i. (f i, g i)) is) st = D st"
  by (rule upds_other) auto

definition recovered_to :: "uint \<Rightarrow> (uint \<Rightarrow> block) \<Rightarrow> 'a log_state_scheme \<Rightarrow> 'a log_state_scheme \<Rightarrow> bool" where
  "recovered_to st D s t \<longleftrightarrow> (\<exists>h f. header h 0 f \<and> (let ps = pending st D @ [(st, h)] in
     bc t (upds D ps) (upds D ps) Map.empty {} \<and> diskwrites t = diskwrites s @ as_writes ps) \<and> l_dev t = 1 \<and> l_start t = st \<and> no_err t \<and>
     lh_n t = 0 \<and> l_outstanding t = l_outstanding s \<and> l_size t = l_size s \<and> l_committing t = l_committing s)"

lemma recover_spec:
  fixes s :: "'a log_state_scheme"
  assumes bc: "bc s D D Map.empty {}" and s: "l_dev s = 1" "l_start s = st" "no_err s" and v: "log_valid st D"
  shows "wp (recover_from_log s) (recovered_to st D s)"
  unfolding recover_from_log_def
proof (rule wp_bindI [OF read_head_spec [OF assms]], unfold head_read_def, elim conjE)
  let ?n = "hd_n st D"
  fix t :: "'a log_state_scheme" assume t: "bc t D D Map.empty {}" "l_dev t = 1" "l_start t = st" "no_err t" "diskwrites t = diskwrites s" "lh_n t = int ?n"
    "\<forall>i<?n. lh_block t i = hd_blk st D i" "l_outstanding t = l_outstanding s" "l_size t = l_size s" "l_committing t = l_committing s"
  have fit: "fits st ?n (lh_block t)" using v t(7) fits_cong [of ?n "lh_block t" "hd_blk st D"] by (simp add: log_valid_def)
  have at: "log_at t st ?n (lh_block t)" using t fit by (simp add: log_at_def)
  have ps: "map (\<lambda>i. (lh_block t i, D (log_blk st i))) [0..<?n] = pending st D" using t(7) by (simp add: pending_def)
  have two: "card (insert a (insert b {})) \<le> NBUF" for a b :: uint by (simp add: NBUF_def card_insert_if)
  have "wp (install_trans t) (wrote t D D {} (pending st D))"
    using install_spec [OF t(1) at, of "[0..<?n]"] two t(6) ps by (simp add: install_trans_def lessThan_atLeast0)
  then show "wp (rbind (install_trans t) (\<lambda>s. write_head (s\<lparr>lh_n := 0\<rparr>))) (recovered_to st D s)"
  proof (rule wp_bindI)
    fix u assume "wrote t D D {} (pending st D) u"
    then have u: "bc u (upds D (pending st D)) (upds D (pending st D)) Map.empty {}" "rest_same t u"
      "diskwrites u = diskwrites s @ as_writes (pending st D)" using t(5) by (simp_all add: wrote_def)
    have "st \<notin> lh_block t ` set [0..<?n]" using fitsD(7) [OF fit] by fastforce
    then have "upds D (pending st D) st = D st" unfolding ps [symmetric] by (rule upds_start)
    then have l: "length (upds D (pending st D) st) = 512" using v by (simp add: log_valid_def)
    let ?u = "u\<lparr>lh_n := 0\<rparr>"
    have e: "no_err ?u" "l_dev ?u = 1" "l_start ?u = st" "l_outstanding ?u = l_outstanding s" "l_size ?u = l_size s" "l_committing ?u = l_committing s"
      using t log_sel [OF u(2)] no_err_same [OF u(2)] by (simp_all add: no_err_def)
    have "wp (write_head ?u) (\<lambda>w. \<exists>h. header h 0 (lh_block ?u) \<and> wrote ?u (upds D (pending st D)) (upds D (pending st D)) {} [(st, h)] w)"
      by (rule write_head_spec) (use u(1) e fits_n(2) [OF fit] l in \<open>simp_all add: NBUF_def\<close>)
    then show "wp (write_head ?u) (recovered_to st D s)"
    proof (rule wp_mono, elim exE conjE)
      fix w h assume h: "header h 0 (lh_block ?u)" and w: "wrote ?u (upds D (pending st D)) (upds D (pending st D)) {} [(st, h)] w"
      then have "rest_same ?u w" by (simp add: wrote_def)
      then show "recovered_to st D s w"
        using h w e u(3) log_sel [of ?u w] no_err_same [of ?u w]
        unfolding recovered_to_def by (intro exI [of _ h] exI [of _ "lh_block ?u"]) (simp add: wrote_def Let_def del: fun_upd_apply)
    qed
  qed
qed

section \<open>Commit\<close>

definition commit_writes :: "uint \<Rightarrow> nat \<Rightarrow> (nat \<Rightarrow> uint) \<Rightarrow> (uint \<Rightarrow> block) \<Rightarrow> block \<Rightarrow> block \<Rightarrow> (uint \<times> block) list" where
  "commit_writes st n f V h1 h2 =
     map (\<lambda>i. (log_blk st i, V (f i))) [0..<n] @ (st, h1) # map (\<lambda>i. (f i, V (f i))) [0..<n] @ [(st, h2)]"

text \<open>
  The log between commits: the dirty blocks are the logged ones, and the header on disk is empty. \<open>V\<close> is what the
  system calls see, \<open>H\<close> the buffers they hold.
\<close>

definition log_ok :: "uint \<Rightarrow> (uint \<Rightarrow> block) \<Rightarrow> (uint \<Rightarrow> block) \<Rightarrow> (uint \<rightharpoonup> nat) \<Rightarrow> 'a log_state_scheme \<Rightarrow> bool" where
  "log_ok st V D H s \<longleftrightarrow> bc s V D H (lh_block s ` {..<nat (lh_n s)}) \<and> log_at s st (nat (lh_n s)) (lh_block s) \<and> 0 \<le> lh_n s \<and>
     length (D st) = 512 \<and> get32 (D st) 0 = 0"

definition committed :: "uint \<Rightarrow> (uint \<Rightarrow> block) \<Rightarrow> (uint \<Rightarrow> block) \<Rightarrow> 'a log_state_scheme \<Rightarrow> 'a log_state_scheme \<Rightarrow> bool" where
  "committed st V D s t \<longleftrightarrow> (\<exists>h1 h2. header h1 (nat (lh_n s)) (lh_block s) \<and> header h2 0 (lh_block s) \<and>
     (let ps = commit_writes st (nat (lh_n s)) (lh_block s) V h1 h2 in
      bc t (upds V ps) (upds D ps) Map.empty {} \<and> diskwrites t = diskwrites s @ as_writes ps) \<and> rest_same (s\<lparr>lh_n := 0\<rparr>) t)"

lemma wrote_append:
  "wrote s V D Y ps t \<Longrightarrow> wrote t (upds V ps) (upds D ps) Z qs u \<Longrightarrow> wrote s V D Z (ps @ qs) u"
  by (simp add: wrote_def rest_same_def)

lemma wrote_same: "wrote s V D Y ps t \<Longrightarrow> rest_same s t" "wrote s V D Y ps t \<Longrightarrow> bc t (upds V ps) (upds D ps) Map.empty Y"
  by (simp_all add: wrote_def)

lemma commit_spec:
  fixes s :: "'a log_state_scheme"
  assumes ok: "log_ok st V D Map.empty s" and pos: "0 < lh_n s"
  shows "wp (commit s) (committed st V D s)"
proof -
  define n f Y where nf: "n = nat (lh_n s)" "f = lh_block s" "Y = f ` {..<n}"
  have bc: "bc s V D Map.empty Y" and at: "log_at s st n f" and ln: "lh_n s = int n" and len: "length (D st) = 512"
    using ok by (simp_all add: log_ok_def nf)
  have fit: "fits st n f" using at by (simp add: log_at_def)
  note F = fitsD [OF fit]
  have Y: "finite Y" "card Y < NBUF" "\<forall>b\<in>Y. \<not> in_log st b" "st \<notin> Y"
  proof -
    show "finite Y" by (simp add: nf)
    have "card Y \<le> n" using card_image_le [of "{..<n}" f] by (simp add: nf)
    then show "card Y < NBUF" using fits_n(1) [OF fit] by (simp add: NBUF_def)
    show l: "\<forall>b\<in>Y. \<not> in_log st b" using fit by (auto simp: nf(3) fits_def)
    then show "st \<notin> Y" by auto
  qed
  let ?W1 = "map (\<lambda>i. (log_blk st i, V (f i))) [0..<n]"
  have 1: "wp (write_log s) (wrote s V D Y ?W1)"
    using write_log_spec [OF bc at _ Y(1,2) _ Y(3), of "[0..<n]"] by (simp add: write_log_def ln nf(3) lessThan_atLeast0)
  have 2: "wp (write_head t) (\<lambda>u. \<exists>h1. header h1 n f \<and> wrote s V D Y (?W1 @ [(st, h1)]) u)" if t: "wrote s V D Y ?W1 t" for t
  proof -
    have "st \<notin> log_blk st ` set [0..<n]" using F(4) by fastforce
    then have "upds V ?W1 st = V st" by (rule upds_start)
    then have "length (upds V ?W1 st) = 512" using bc_clean [OF bc Y(4)] len by simp
    then have "wp (write_head t) (\<lambda>u. \<exists>h. header h n f \<and> wrote t (upds V ?W1) (upds D ?W1) Y [(st, h)] u)"
      using log_at_same [OF at wrote_same(1) [OF t]] log_sel [OF wrote_same(1) [OF t]] ln fits_n [OF fit] Y
      by (intro write_head_spec [OF wrote_same(2) [OF t]]) (simp_all add: log_at_def)
    then show ?thesis by (rule wp_mono) (use wrote_append [OF t] in blast)
  qed
  let ?W2 = "map (\<lambda>i. (f i, V (f i))) [0..<n]"
  have 3: "wp (install_trans t) (wrote s V D {} (?W1 @ (st, h1) # ?W2))" if t: "wrote s V D Y (?W1 @ [(st, h1)]) t" for t h1
  proof -
    let ?V = "upds V (?W1 @ [(st, h1)])" and ?D = "upds D (?W1 @ [(st, h1)])"
    have "?V (log_blk st i) = V (f i)" if i: "i < n" for i
    proof -
      have "distinct (map fst ?W1)" using F(8) by (auto simp: distinct_map inj_on_def)
      then have "upds V ?W1 (log_blk st i) = V (f i)" by (rule upds_in) (use i in auto)
      then show ?thesis using F(4) [OF i] by simp
    qed
    then have m: "map (\<lambda>i. (f i, ?V (log_blk st i))) [0..<n] = ?W2" by auto
    have "card (insert (log_blk st i) (insert (f i) Y)) \<le> NBUF" if "i < n" for i
    proof -
      have "insert (f i) Y = Y" using that by (auto simp: nf(3))
      then show ?thesis using Y(1,2) by (simp add: card_insert_if)
    qed
    moreover have y: "Y - f ` set [0..<n] = {}" by (simp add: nf(3) lessThan_atLeast0)
    ultimately have i: "wp (install_loop [0..<n] t) (wrote t ?V ?D {} ?W2)"
      unfolding m [symmetric] y [symmetric]
      by (intro install_spec [OF wrote_same(2) [OF t] log_at_same [OF at wrote_same(1) [OF t]]]) (use Y in auto)
    have "?W1 @ (st, h1) # ?W2 = (?W1 @ [(st, h1)]) @ ?W2" by simp
    then show ?thesis using wp_mono [OF i wrote_append [OF t]] ln log_sel(6) [OF wrote_same(1) [OF t]] by (simp add: install_trans_def)
  qed
  have 4: "wp (write_head (t\<lparr>lh_n := 0\<rparr>)) (committed st V D s)" if h1: "header h1 n f" and t: "wrote s V D {} (?W1 @ (st, h1) # ?W2) t" for t h1
  proof -
    let ?P = "?W1 @ (st, h1) # ?W2" and ?t = "t\<lparr>lh_n := 0\<rparr>"
    have "st \<notin> f ` set [0..<n]" using F(7) by fastforce
    then have "upds V ?P st = h1" using upds_start [of st f "[0..<n]"] by simp
    then have l: "length (upds V ?P st) = 512" using h1 by (simp add: header_def)
    have "log_at t st n f" "lh_block t = f" using log_at_same [OF at wrote_same(1) [OF t]] by (simp_all add: log_at_def)
    then have "wp (write_head ?t) (\<lambda>u. \<exists>h. header h 0 f \<and> wrote ?t (upds V ?P) (upds D ?P) {} [(st, h)] u)"
      using wrote_same(2) [OF t] fits_n [OF fit] l
      by (intro write_head_spec) (simp_all add: log_at_def NBUF_def no_err_def del: upds_simps)
    then show ?thesis
    proof (rule wp_mono, elim exE conjE)
      fix u h2 assume u: "header h2 0 f" "wrote ?t (upds V ?P) (upds D ?P) {} [(st, h2)] u"
      have r: "rest_same (s\<lparr>lh_n := 0\<rparr>) ?t" using wrote_same(1) [OF t] by (cases s; cases t) (simp add: rest_same_def)
      have "commit_writes st n f V h1 h2 = ?P @ [(st, h2)]" by (simp add: commit_writes_def)
      then show "committed st V D s u"
        using h1 u t rest_trans [OF r wrote_same(1) [OF u(2)]] unfolding committed_def nf(1,2) [symmetric]
        by (intro exI [of _ h1] exI [of _ h2]) (simp add: wrote_def del: fun_upd_apply)
    qed
  qed
  show ?thesis unfolding commit_def using pos
    by (auto intro!: wp_bindI [OF 1] wp_bindI [OF 2] wp_bindI [OF 3] 4 simp del: wp_rbind)
qed

section \<open>Crashes\<close>

lemma sint_small: "n \<le> 29 \<Longrightarrow> sint (word_of_nat n :: uint) = int n"
  by (simp add: signed_of_nat signed_take_bit_int_eq_self)

lemma valid_header:
  assumes "header (D st) m f" "fits st m f"
  shows "log_valid st D" "pending st D = map (\<lambda>i. (f i, D (log_blk st i))) [0..<m]"
proof -
  have n: "hd_n st D = m" "0 \<le> sint (get32 (D st) 0)"
    using assms(1) fits_n(1) [OF assms(2)] by (simp_all add: header_def hd_n_def sint_small)
  have b: "hd_blk st D i = f i" if "i < m" for i using assms(1) that by (simp add: header_def hd_blk_def)
  show "log_valid st D" using n b assms fits_cong [of m "hd_blk st D" f] by (simp add: log_valid_def header_def)
  show "pending st D = map (\<lambda>i. (f i, D (log_blk st i))) [0..<m]" using n b by (simp add: pending_def)
qed

lemma fits_0: "fits st n f \<Longrightarrow> fits st 0 f"
  by (simp add: fits_def LOGSIZE_def MAXOPBLOCKS_def)

text \<open>The disk after the first \<open>k\<close> writes of a commit: its log recovers all of the old blocks, or all of the new ones.\<close>

lemma crash_point:
  fixes k :: nat
  assumes fit: "fits st n f" and D: "length (D st) = 512" "get32 (D st) 0 = 0" and h: "header h1 n f" "header h2 0 f"
    and V: "\<And>b. b \<notin> f ` {..<n} \<Longrightarrow> V b = D b"
  defines "D' \<equiv> upds D (take k (commit_writes st n f V h1 h2))"
  shows "log_valid st D' \<and> (\<forall>b. \<not> in_log st b \<longrightarrow> upds D' (pending st D') b = (if k \<le> n then D b else V b))"
proof -
  note F = fitsD [OF fit]
  let ?w1 = "\<lambda>i. (log_blk st i, V (f i))" and ?w2 = "\<lambda>i. (f i, V (f i))"
  have lg: "b \<notin> log_blk st ` set [0..<j]" if "\<not> in_log st b" "j \<le> n" for b j using that F(5) by (auto dest: less_le_trans)
  have s1: "st \<notin> log_blk st ` set [0..<j]" "st \<notin> f ` set [0..<j]" if "j \<le> n" for j
    using that F(4,7) by (metis atLeastLessThan_iff imageE less_le_trans set_upt)+
  have d2: "distinct (map fst (map ?w2 [0..<n]))" using fit by (auto simp: distinct_map fits_def inj_on_def)
  have d1: "distinct (map fst (map ?w1 [0..<n]))" using F(8) by (auto simp: distinct_map inj_on_def)
  have new: "upds E (map ?w2 [0..<n]) b = V b" if "b \<notin> f ` {..<n} \<Longrightarrow> E b = D b" for E b
  proof (cases "b \<in> f ` {..<n}")
    case True
    then have "(b, V b) \<in> set (map ?w2 [0..<n])" by auto
    then show ?thesis by (rule upds_in [OF d2])
  next
    case False
    then show ?thesis using that V by (subst upds_other) (auto simp: image_image)
  qed
  consider (log) "k \<le> n" | (install) "n < k" "k \<le> 2 * n + 1" | (all) "2 * n + 1 < k" by linarith
  then show ?thesis
  proof cases
    case log
    then have e: "D' = upds D (map ?w1 [0..<k])" by (simp add: D'_def commit_writes_def take_map)
    have "D' st = D st" unfolding e using s1(1) [OF log] by (rule upds_start)
    then have "header (D' st) 0 f" using D by (simp add: header_def)
    note v = valid_header [where D = D' and st = st, OF this fits_0 [OF fit]]
    have "D' b = D b" if "\<not> in_log st b" for b unfolding e by (rule upds_start) (rule lg [OF that log])
    then show ?thesis using v log by simp
  next
    case install
    define j where "j = k - n - 1"
    have j: "j \<le> n" using install by (simp add: j_def)
    have e: "D' = upds ((upds D (map ?w1 [0..<n]))(st := h1)) (map ?w2 [0..<j])"
      using install j by (simp add: D'_def commit_writes_def take_map j_def take_Cons')
    have st: "D' st = h1" unfolding e using upds_start [OF s1(2) [OF j]] by simp
    have "D' (log_blk st i) = V (f i)" if i: "i < n" for i
    proof -
      have "log_blk st i \<notin> f ` set [0..<j]" using F(3) [OF i] j by (metis atLeastLessThan_iff imageE less_le_trans set_upt)
      then have "D' (log_blk st i) = upds D (map ?w1 [0..<n]) (log_blk st i)" unfolding e using F(4) [OF i] by (simp add: upds_start)
      then show ?thesis using upds_in [OF d1, of "log_blk st i" "V (f i)" D] i by auto
    qed
    moreover note v = valid_header [where D = D' and st = st, unfolded st, OF h(1) fit]
    ultimately have p: "pending st D' = map ?w2 [0..<n]" by auto
    have "D' b = D b" if "\<not> in_log st b" "b \<notin> f ` {..<n}" for b
    proof -
      have "b \<notin> f ` set [0..<j]" "b \<noteq> st" using that j by (auto dest: less_le_trans)
      then show ?thesis unfolding e using upds_start [OF lg [OF that(1) order_refl]] by (simp add: upds_start)
    qed
    then show ?thesis using v(1) p new install by auto
  next
    case all
    then have e: "D' = (upds ((upds D (map ?w1 [0..<n]))(st := h1)) (map ?w2 [0..<n]))(st := h2)"
      by (simp add: D'_def commit_writes_def)
    note v = valid_header [where D = D' and st = st, OF _ fits_0 [OF fit]]
    have "D' b = V b" if b: "\<not> in_log st b" for b
    proof -
      have "b \<noteq> st" using b by auto
      then show ?thesis unfolding e using new [of b] upds_start [OF lg [OF b order_refl]] by simp
    qed
    then show ?thesis using v h(2) all e by simp
  qed
qed

section \<open>A system call's use of the log\<close>

lemma log_slot_cases:
  obtains (old) "log_slot b n f < n" "f (log_slot b n f) = b" | (new) "log_slot b n f = n" "b \<notin> f ` {..<n}"
proof (cases "find (\<lambda>i. f i = b) [0..<n]")
  case None
  have "log_slot b n f = n" using None by (simp add: log_slot_def)
  moreover have "b \<notin> f ` {..<n}" using None by (auto simp: find_None_iff)
  ultimately show thesis by (rule new)
next
  case (Some i)
  then have "log_slot b n f = i" "i < n" "f i = b" by (simp_all add: log_slot_def) (auto simp: find_Some_iff)
  then have "log_slot b n f < n" "f (log_slot b n f) = b" by simp_all
  then show thesis by (rule old)
qed

lemma log_write_spec:
  fixes s :: "'a log_state_scheme"
  assumes ok: "log_ok st V D H s" and h: "H b = Some i" and b: "b < FSSIZE" "\<not> in_log st b"
    and room: "lh_n s < l_size s - 1" "l_size s \<le> LOGSIZE" and out: "1 \<le> l_outstanding s"
  shows "wp (log_write i s) (\<lambda>t. log_ok st V D H t \<and> lh_block t ` {..<nat (lh_n t)} = insert b (lh_block s ` {..<nat (lh_n s)}) \<and>
    l_size t = l_size s \<and> l_outstanding t = l_outstanding s \<and> l_committing t = l_committing s \<and> diskwrites t = diskwrites s \<and> lh_n t \<le> lh_n s + 1)"
proof -
  define n f where nf: "n = nat (lh_n s)" "f = lh_block s"
  have bc: "bc s V D H (f ` {..<n})" and at: "log_at s st n f" and ln: "lh_n s = int n" and d: "length (D st) = 512" "get32 (D st) 0 = 0"
    using ok by (simp_all add: log_ok_def nf)
  have k: "b_blockno (bufs s i) = b" using bc_held(2) [OF bc h] by (simp add: caches_def)
  have fit: "fits st n f" and s: "l_dev s = 1" "l_start s = st" "no_err s" using at by (simp_all add: log_at_def)
  have n29: "int n < LOGSIZE - 1" using room ln by simp
  let ?j = "log_slot b n f"
  let ?t = "upd_buf i (b_dirty_update (\<lambda>_. True)) (if ?j = n then s\<lparr>lh_block := f(?j := b), lh_n := int n + 1\<rparr> else s\<lparr>lh_block := f(?j := b)\<rparr>)"
  have e: "log_write i s = Ok ?t" using room out n29 ln k by (simp add: log_write_def Let_def nf [symmetric])
  have mark: "bc (upd_buf i (b_dirty_update (\<lambda>_. True)) u) V D H (insert b (f ` {..<n}))" if "bc u V D H (f ` {..<n})" for u :: "'a log_state_scheme"
    by (rule bc_mark [OF that h])
  have ne: "no_err (u\<lparr>lh_block := g\<rparr>) = no_err u" "no_err (u\<lparr>lh_n := m\<rparr>) = no_err u" "no_err (upd_buf i g' u) = no_err u" for u :: "'a log_state_scheme" and g g' m
    by (simp_all add: no_err_def)
  have sel: "l_size (upd_buf i g u) = l_size u" "l_outstanding (upd_buf i g u) = l_outstanding u" "l_committing (upd_buf i g u) = l_committing u"
    "l_start (upd_buf i g u) = l_start u" "l_dev (upd_buf i g u) = l_dev u" "lh_n (upd_buf i g u) = lh_n u" "lh_block (upd_buf i g u) = lh_block u"
    for g and u :: "'a log_state_scheme" by (simp_all add: upd_buf_def)
  show ?thesis
  proof (cases rule: log_slot_cases [of b n f])
    case old
    then have "f(?j := b) = f" by auto
    moreover have "insert b (f ` {..<n}) = f ` {..<n}" using old image_eqI [of b f ?j "{..<n}"] by (simp add: insert_absorb)
    moreover have "s\<lparr>lh_block := f\<rparr> = s" by (simp add: nf)
    ultimately have t: "?t = upd_buf i (b_dirty_update (\<lambda>_. True)) s" "insert b (f ` {..<n}) = f ` {..<n}" using old by simp_all
    then show ?thesis unfolding e wp_simps t log_ok_def sel using mark [OF bc] at ln d ne t(2) by (simp add: nf [symmetric] log_at_def sel)
  next
    case new
    let ?f = "f(n := b)"
    have suc: "nat (int n + 1) = Suc n" by simp
    have im: "?f ` {..<Suc n} = insert b (f ` {..<n})" by (auto simp: lessThan_Suc)
    have "fits st (Suc n) ?f" using fit n29 new(2) b by (auto simp: fits_def inj_on_def less_Suc_eq)
    moreover have "bc ?t V D H (insert b (f ` {..<n}))" using new(1) by (intro mark) (simp add: bc)
    ultimately show ?thesis unfolding e wp_simps log_ok_def sel using new(1) s d im ne ln suc
      by (simp add: log_at_def sel nf(2) [symmetric] del: fun_upd_apply)
  qed
qed

lemma log_ok_change:
  assumes "log_ok st V D H s" "bc t V' D H' (lh_block s ` {..<nat (lh_n s)})" "rest_same s t"
  shows "log_ok st V' D H' t"
  using assms log_at_same [OF _ assms(3), of st "nat (lh_n s)" "lh_block s"] log_sel [OF assms(3)] by (simp add: log_ok_def)

lemma log_ok_bread:
  assumes ok: "log_ok st V D Map.empty s" and b: "b < FSSIZE"
  shows "wp (bread 1 b s) (\<lambda>(i, t). log_ok st V D [b \<mapsto> i] t \<and> rest_same s t \<and> diskwrites t = diskwrites s)"
proof -
  let ?Y = "lh_block s ` {..<nat (lh_n s)}"
  have bc: "bc s V D Map.empty ?Y" and fit: "fits st (nat (lh_n s)) (lh_block s)" and "no_err s" using ok by (simp_all add: log_ok_def log_at_def)
  have "card ?Y \<le> 29" using card_image_le [of "{..<nat (lh_n s)}" "lh_block s"] fits_n(1) [OF fit] by simp
  then have "card (insert b ?Y) \<le> NBUF" by (simp add: card_insert_if NBUF_def)
  then show ?thesis
    by (intro wp_mono [OF bread_first [OF bc \<open>no_err s\<close> b]]) (use log_ok_change [OF ok] in \<open>auto simp del: fun_upd_apply\<close>)
qed

lemma log_ok_brelse:
  assumes ok: "log_ok st V D [b \<mapsto> i] s" and b: "b \<in> lh_block s ` {..<nat (lh_n s)}"
  shows "wp (brelse i s) (\<lambda>t. log_ok st V D Map.empty t \<and> rest_same s t \<and> diskwrites t = diskwrites s)"
proof -
  have "bc s V D [b \<mapsto> i] (lh_block s ` {..<nat (lh_n s)})" using ok by (simp add: log_ok_def)
  from bread_brelse [OF this disjI1 [OF b]] show ?thesis by (rule wp_mono) (use log_ok_change [OF ok] in blast)
qed

lemma commit_done:
  assumes ok: "log_ok st V D Map.empty s" and pos: "0 < lh_n s"
  shows "wp (commit s) (\<lambda>t. (\<exists>V'. log_ok st V' V' Map.empty t \<and> (\<forall>b. \<not> in_log st b \<longrightarrow> V' b = V b)) \<and> rest_same (s\<lparr>lh_n := 0\<rparr>) t)"
proof (rule wp_mono [OF commit_spec [OF assms]])
  fix t assume "committed st V D s t"
  let ?n = "nat (lh_n s)" and ?f = "lh_block s"
  from \<open>committed st V D s t\<close> obtain h1 h2 where h: "header h1 ?n ?f" "header h2 0 ?f" and r: "rest_same (s\<lparr>lh_n := 0\<rparr>) t"
    and t: "bc t (upds V (commit_writes st ?n ?f V h1 h2)) (upds D (commit_writes st ?n ?f V h1 h2)) Map.empty {}"
    unfolding committed_def Let_def by blast
  have bc: "bc s V D Map.empty (?f ` {..<?n})" and fit: "fits st ?n ?f" and d: "length (D st) = 512" "get32 (D st) 0 = 0"
    using ok by (simp_all add: log_ok_def log_at_def)
  let ?W = "commit_writes st ?n ?f V h1 h2"
  have c: "V b = D b" if "b \<notin> ?f ` {..<?n}" for b using bc_clean [OF bc that] by simp
  have st: "upds D ?W st = h2" by (simp add: commit_writes_def)
  have k: "take (2 * ?n + 2) ?W = ?W" by (simp add: commit_writes_def)
  have hd: "header (upds D ?W st) 0 ?f" using h(2) st by simp
  have p: "pending st (upds D ?W) = []" using valid_header(2) [where D = "upds D ?W" and st = st, OF hd fits_0 [OF fit]] by simp
  have V: "upds D ?W b = V b" if "\<not> in_log st b" for b
    using crash_point [where D = D and V = V and k = "2 * ?n + 2", OF fit d h c] that p unfolding k by simp
  have e: "upds V ?W = upds D ?W"
  proof
    fix b show "upds V ?W b = upds D ?W b" using bc_clean [OF t, of b] by simp
  qed
  have "log_ok st (upds D ?W) (upds D ?W) Map.empty t"
    using t r h(2) st ok log_sel [OF r] no_err_same [OF r] fits_0 [OF fit]
    by (simp add: log_ok_def e log_at_def header_def no_err_def)
  then show "(\<exists>V'. log_ok st V' V' Map.empty t \<and> (\<forall>b. \<not> in_log st b \<longrightarrow> V' b = V b)) \<and> rest_same (s\<lparr>lh_n := 0\<rparr>) t"
    using V r by blast
qed

section \<open>Starting up\<close>

lemma get32_take: "a + 3 < k \<Longrightarrow> get32 (take k d) a = get32 d a"
  by (simp add: get32_def)

lemma readsb_spec:
  assumes bc: "bc s D D Map.empty {}" and "no_err s"
  shows "wp (readsb 1 s) (\<lambda>(sb, t). sb = take 28 (D 1) \<and> bc t D D Map.empty {} \<and> rest_same s t \<and> diskwrites t = diskwrites s)"
  unfolding readsb_def
proof (rule wp_bindI [OF bread_first [OF bc assms(2)]])
  fix p assume "case p of (i, t) \<Rightarrow> bc t D D [1 \<mapsto> i] {} \<and> rest_same s t \<and> diskwrites t = diskwrites s"
  then obtain i t where p: "p = (i, t)" and t: "bc t D D [1 \<mapsto> i] {}" "rest_same s t" "diskwrites t = diskwrites s" by (cases p) auto
  have d: "b_data (bufs t i) = D 1" using bc_held(5) [OF t(1)] by simp
  have "wp (brelse i t) (\<lambda>u. bc u D D Map.empty {} \<and> rest_same t u \<and> diskwrites u = diskwrites t)" by (rule bread_brelse [OF t(1)]) simp
  then show "wp (case p of (bp, s) \<Rightarrow> let sb = take 28 (b_data (bufs s bp)) in rbind (brelse bp s) (\<lambda>s. Ok (sb, s)))
      (\<lambda>(sb, t). sb = take 28 (D 1) \<and> bc t D D Map.empty {} \<and> rest_same s t \<and> diskwrites t = diskwrites s)"
    unfolding p prod.case Let_def d by (rule wp_bindI) (use t(2,3) in \<open>auto intro: rest_trans\<close>)
qed (simp_all add: FSSIZE_def NBUF_def)

lemma initlog_spec:
  fixes c :: "'a log_state_scheme"
  assumes z: "zeroed c" "havedisk1 c" "no_err c" and D: "disk c 1 = D" "log_valid st D" "get32 (D 1) 16 = st"
  shows "wp (initlog 1 (binit c)) (\<lambda>t. \<exists>V. log_ok st V V Map.empty t \<and> lh_n t = 0 \<and> l_size t = sint (get32 (D 1) 12) \<and>
    l_outstanding t = l_outstanding c \<and> l_committing t = l_committing c \<and> (\<forall>b. b \<noteq> st \<longrightarrow> V b = upds D (pending st D) b))"
  unfolding initlog_def
proof (rule wp_bindI)
  have b: "bc (binit c) D D Map.empty {}" "disk_same c (binit c)" using bc_binit [OF z(1,2)] D(1) by simp_all
  have rc: "rest_same c (binit c)" using b(2) by (simp add: rest_same_def disk_same_def)
  show "wp (readsb 1 (binit c)) (\<lambda>(sb, t). sb = take 28 (D 1) \<and> bc t D D Map.empty {} \<and> rest_same c t)"
    by (rule wp_mono [OF readsb_spec [OF b(1)]]) (use z(3) no_err_same [OF rc] rest_trans [OF rc] in auto)
  fix p assume "case p of (sb, t) \<Rightarrow> sb = take 28 (D 1) \<and> bc t D D Map.empty {} \<and> rest_same c t"
  then obtain t where p: "p = (take 28 (D 1), t)" and t: "bc t D D Map.empty {}" "rest_same c t" by (cases p) auto
  let ?t = "t\<lparr>l_start := st, l_size := sint (get32 (D 1) 12), l_dev := 1\<rparr>"
  have n: "no_err ?t" using no_err_same [OF t(2)] z(3) by (simp add: no_err_def)
  have f: "fits st 0 f" for f using fits_0 D(2) by (auto simp: log_valid_def fits_def)
  have "wp (recover_from_log ?t) (recovered_to st D ?t)" by (rule recover_spec) (use t(1) n D(2) in simp_all)
  then have "wp (recover_from_log ?t) (\<lambda>t. \<exists>V. log_ok st V V Map.empty t \<and> lh_n t = 0 \<and> l_size t = sint (get32 (D 1) 12) \<and>
      l_outstanding t = l_outstanding c \<and> l_committing t = l_committing c \<and> (\<forall>b. b \<noteq> st \<longrightarrow> V b = upds D (pending st D) b))"
  proof (rule wp_mono)
    fix u assume "recovered_to st D ?t u"
    then obtain h g where u: "header h 0 g" "bc u (upds D (pending st D @ [(st, h)])) (upds D (pending st D @ [(st, h)])) Map.empty {}"
      "l_dev u = 1" "l_start u = st" "no_err u" "lh_n u = 0" "l_size u = sint (get32 (D 1) 12)" "l_outstanding u = l_outstanding t" "l_committing u = l_committing t"
      unfolding recovered_to_def Let_def by (auto simp del: upds_simps)
    then show "\<exists>V. log_ok st V V Map.empty u \<and> lh_n u = 0 \<and> l_size u = sint (get32 (D 1) 12) \<and>
      l_outstanding u = l_outstanding c \<and> l_committing u = l_committing c \<and> (\<forall>b. b \<noteq> st \<longrightarrow> V b = upds D (pending st D) b)"
      using f log_sel [OF t(2)] by (intro exI [of _ "upds D (pending st D @ [(st, h)])"]) (simp add: log_ok_def log_at_def header_def)
  qed
  then show "wp (case p of (sb, s) \<Rightarrow> recover_from_log (s\<lparr>l_start := get32 sb 16, l_size := sint (get32 sb 12), l_dev := 1\<rparr>))
    (\<lambda>t. \<exists>V. log_ok st V V Map.empty t \<and> lh_n t = 0 \<and> l_size t = sint (get32 (D 1) 12) \<and>
      l_outstanding t = l_outstanding c \<and> l_committing t = l_committing c \<and> (\<forall>b. b \<noteq> st \<longrightarrow> V b = upds D (pending st D) b))"
    by (simp add: p get32_take D(3))
qed

section \<open>Properties\<close>

text \<open>The disk after some writes.\<close>

definition replay :: "(uint \<times> uint \<times> block) list \<Rightarrow> (uint \<Rightarrow> uint \<Rightarrow> block) \<Rightarrow> uint \<Rightarrow> uint \<Rightarrow> block" where
  "replay ws d = fold (\<lambda>(e, b, v) d. d(e := (d e)(b := v))) ws d"

lemma replay_writes: "replay (as_writes ps) d 1 = upds (d 1) ps"
  by (induction ps arbitrary: d) (auto simp: replay_def upds_def)

lemma replay_cong: "d e = d' e \<Longrightarrow> replay ws d e = replay ws d' e"
proof (induction ws arbitrary: d d')
  case (Cons w ws)
  obtain f b v where w: "w = (f, b, v)" by (cases w) auto
  have "(d(f := (d f)(b := v))) e = (d'(f := (d' f)(b := v))) e" using Cons.prems by (cases "e = f") simp_all
  then have "replay ws (d(f := (d f)(b := v))) e = replay ws (d'(f := (d' f)(b := v))) e" by (rule Cons.IH)
  then show ?case by (simp add: replay_def w)
qed (simp add: replay_def)

lemma take_writes: "take k (as_writes ps) = as_writes (take k ps)"
  by (simp add: as_writes_def take_map)

text \<open>One block changed in a system call, up to its \<open>end_op\<close>.\<close>

lemma logged_update:
  fixes s :: "'a log_state_scheme"
  assumes ok: "log_ok st V D Map.empty s" and b: "b < FSSIZE" "\<not> in_log st b"
    and s: "\<not> l_committing s" "l_outstanding s = 0" "lh_n s = 0" "1 < l_size s" "l_size s \<le> LOGSIZE"
  shows "\<exists>s1 i s2 s3 s4. begin_op s = Begun s1 \<and> bread 1 b s1 = Ok (i, s2) \<and> log_write i (upd_buf i (b_data_update (\<lambda>_. v)) s2) = Ok s3 \<and>
    brelse i s3 = Ok s4 \<and> log_ok st (V(b := v)) D Map.empty s4 \<and> lh_block s4 ` {..<nat (lh_n s4)} = {b} \<and> 0 < lh_n s4 \<and>
    l_outstanding s4 = 1 \<and> \<not> l_committing s4 \<and> l_size s4 = l_size s \<and> diskwrites s4 = diskwrites s"
proof -
  let ?s1 = "s\<lparr>l_outstanding := 1\<rparr>"
  have 1: "begin_op s = Begun ?s1" using s by (simp add: begin_op_def LOGSIZE_def MAXOPBLOCKS_def)
  have ok1: "log_ok st V D Map.empty ?s1" using ok by (simp add: log_ok_def log_at_def no_err_def)
  obtain i s2 where 2: "bread 1 b ?s1 = Ok (i, s2)" "log_ok st V D [b \<mapsto> i] s2" "rest_same ?s1 s2" "diskwrites s2 = diskwrites s"
    using log_ok_bread [OF ok1 b(1)] by (auto simp: wp_iff)
  let ?s2 = "upd_buf i (b_data_update (\<lambda>_. v)) s2" and ?H = "[b \<mapsto> i]"
  have H: "?H b = Some i" by simp
  have r: "rest_same s2 ?s2" by (simp add: rest_same_def)
  have "bc s2 V D ?H (lh_block s2 ` {..<nat (lh_n s2)})" using 2(2) by (simp add: log_ok_def)
  from log_ok_change [OF 2(2) bc_fill [OF this H] r] have ok2: "log_ok st (V(b := v)) D ?H ?s2" .
  have f: "lh_n ?s2 = 0" "l_size ?s2 = l_size s" "l_outstanding ?s2 = 1" "l_committing ?s2 = l_committing s"
    using log_sel [OF rest_trans [OF 2(3) r]] s by simp_all
  have room: "lh_n ?s2 < l_size ?s2 - 1" "l_size ?s2 \<le> LOGSIZE" "1 \<le> l_outstanding ?s2" using f s by simp_all
  obtain s3 where 3: "log_write i ?s2 = Ok s3" "log_ok st (V(b := v)) D ?H s3" "lh_block s3 ` {..<nat (lh_n s3)} = {b}"
    "l_size s3 = l_size s" "l_outstanding s3 = 1" "l_committing s3 = l_committing s" "diskwrites s3 = diskwrites s"
    using log_write_spec [OF ok2 H b room] f 2(4) by (auto simp: wp_iff simp del: fun_upd_apply)
  obtain s4 where 4: "brelse i s3 = Ok s4" "log_ok st (V(b := v)) D Map.empty s4" "rest_same s3 s4" "diskwrites s4 = diskwrites s3"
    using log_ok_brelse [OF 3(2)] 3(3) by (auto simp: wp_iff simp del: fun_upd_apply)
  have "0 < lh_n s4" using 3(3) log_sel [OF 4(3)] by (cases "0 < lh_n s3") simp_all
  then show ?thesis using 1 2 3 4 s log_sel [OF 4(3)] by (auto simp del: fun_upd_apply)
qed

text \<open>What a crash leaves, wherever it cuts the writes of a commit off.\<close>

lemma commit_crash_points:
  fixes s :: "'a log_state_scheme"
  assumes ok: "log_ok st V D Map.empty s" and pos: "0 < lh_n s" and sb: "get32 (D 1) 16 = st" "\<not> in_log st 1" "1 \<notin> lh_block s ` {..<nat (lh_n s)}"
  shows "\<exists>t. commit s = Ok t \<and> (\<forall>k (c :: 'a log_state_scheme). zeroed c \<longrightarrow> havedisk1 c \<longrightarrow> no_err c \<longrightarrow>
    disk c 1 = replay (take k (drop (length (diskwrites s)) (diskwrites t))) (disk s) 1 \<longrightarrow>
    (\<exists>u. initlog 1 (binit c) = Ok u \<and> (\<forall>b. \<not> in_log st b \<longrightarrow> disk u 1 b = (if k \<le> nat (lh_n s) then D b else V b))))"
proof -
  let ?n = "nat (lh_n s)" and ?f = "lh_block s"
  obtain t where t: "commit s = Ok t" "committed st V D s t" using commit_spec [OF ok pos] by (auto simp: wp_iff)
  then obtain h1 h2 where h: "header h1 ?n ?f" "header h2 0 ?f" and w: "diskwrites t = diskwrites s @ as_writes (commit_writes st ?n ?f V h1 h2)"
    unfolding committed_def Let_def by blast
  have bc: "bc s V D Map.empty (?f ` {..<?n})" and fit: "fits st ?n ?f" and d: "length (D st) = 512" "get32 (D st) 0 = 0"
    using ok by (simp_all add: log_ok_def log_at_def)
  have cl: "V b = D b" if "b \<notin> ?f ` {..<?n}" for b using bc_clean [OF bc that] by simp
  let ?W = "commit_writes st ?n ?f V h1 h2"
  have "\<exists>u. initlog 1 (binit c) = Ok u \<and> (\<forall>b. \<not> in_log st b \<longrightarrow> disk u 1 b = (if k \<le> ?n then D b else V b))"
    if c: "zeroed c" "havedisk1 c" "no_err c" "disk c 1 = replay (take k (drop (length (diskwrites s)) (diskwrites t))) (disk s) 1" for k and c :: "'a log_state_scheme"
  proof -
    let ?D = "upds D (take k ?W)"
    have D: "disk c 1 = ?D" using c(4) w bcD(4) [OF bc] by (simp add: take_writes replay_writes)
    have v: "log_valid st ?D" "\<forall>b. \<not> in_log st b \<longrightarrow> upds ?D (pending st ?D) b = (if k \<le> ?n then D b else V b)"
      using crash_point [where D = D and V = V and k = k, OF fit d h cl] by blast+
    have "log_blk st i \<noteq> 1" if "i < ?n" for i using fitsD(5) [OF fit that] sb(2) by auto
    then have "1 \<notin> fst ` set ?W" using sb(2,3) in_log_start [of st] by (auto simp: commit_writes_def)
    then have "?D 1 = D 1" by (intro upds_other) (auto dest: in_set_takeD)
    then have "get32 (?D 1) 16 = st" using sb(1) by simp
    from initlog_spec [OF c(1-3) D v(1) this] obtain u V' where u: "initlog 1 (binit c) = Ok u" "log_ok st V' V' Map.empty u"
      "\<forall>b. b \<noteq> st \<longrightarrow> V' b = upds ?D (pending st ?D) b" by (auto simp: wp_iff)
    have e: "disk u 1 = V'" using bcD(4) u(2) unfolding log_ok_def by blast
    show ?thesis
    proof (intro exI [of _ u] conjI allI impI)
      fix b assume b: "\<not> in_log st b"
      then have "b \<noteq> st" using in_log_start by blast
      then show "disk u 1 b = (if k \<le> ?n then D b else V b)" using u(3) v(2) b e by simp
    qed (rule u(1))
  qed
  then show ?thesis using t(1) by blast
qed

lemma end_op_crash:
  fixes s :: "'a log_state_scheme"
  assumes ok: "log_ok st V D Map.empty s" and s: "l_outstanding s = 1" "\<not> l_committing s"
    and sb: "get32 (D 1) 16 = st" "\<not> in_log st 1" "1 \<notin> lh_block s ` {..<nat (lh_n s)}"
  shows "\<exists>t. end_op s = Ok t \<and> (\<forall>k (c :: 'a log_state_scheme). zeroed c \<longrightarrow> havedisk1 c \<longrightarrow> no_err c \<longrightarrow>
    disk c 1 = replay (take k (drop (length (diskwrites s)) (diskwrites t))) (disk s) 1 \<longrightarrow>
    (\<exists>u. initlog 1 (binit c) = Ok u \<and> (\<forall>b. \<not> in_log st b \<longrightarrow> disk u 1 b = (if k \<le> nat (lh_n s) then D b else V b))))"
proof -
  let ?s = "s\<lparr>l_outstanding := 0, l_committing := True\<rparr>"
  have ok': "log_ok st V D Map.empty ?s" using ok by (simp add: log_ok_def log_at_def no_err_def)
  show ?thesis
  proof (cases "0 < lh_n s")
    case True
    then obtain t where t: "commit ?s = Ok t" "\<forall>k (c :: 'a log_state_scheme). zeroed c \<longrightarrow> havedisk1 c \<longrightarrow> no_err c \<longrightarrow>
        disk c 1 = replay (take k (drop (length (diskwrites s)) (diskwrites t))) (disk s) 1 \<longrightarrow>
        (\<exists>u. initlog 1 (binit c) = Ok u \<and> (\<forall>b. \<not> in_log st b \<longrightarrow> disk u 1 b = (if k \<le> nat (lh_n s) then D b else V b)))"
      using commit_crash_points [OF ok'] sb by auto
    have "end_op s = Ok (t\<lparr>l_committing := False, log_wakeups := log_wakeups t + 1\<rparr>)" using s t(1) by (simp add: end_op_def Let_def)
    then show ?thesis using t(2) by auto
  next
    case False
    then have z: "lh_n s = 0" using ok by (simp add: log_ok_def)
    have bc: "bc s V D Map.empty {}" and fit: "fits st 0 (lh_block s)" and d: "length (D st) = 512" "get32 (D st) 0 = 0"
      using ok z by (simp_all add: log_ok_def log_at_def)
    have cl: "V b = D b" for b using bc_clean [OF bc] by simp
    have "header (D st) 0 (lh_block s)" using d by (simp add: header_def)
    note v = valid_header [where D = D and st = st, OF this fit]
    have "\<exists>u. initlog 1 (binit c) = Ok u \<and> (\<forall>b. \<not> in_log st b \<longrightarrow> disk u 1 b = D b)"
      if c: "zeroed c" "havedisk1 c" "no_err c" "disk c 1 = D" for c :: "'a log_state_scheme"
    proof -
      obtain u V' where u: "initlog 1 (binit c) = Ok u" "log_ok st V' V' Map.empty u" "\<forall>b. b \<noteq> st \<longrightarrow> V' b = upds D (pending st D) b"
        using initlog_spec [OF c v(1) sb(1)] by (auto simp: wp_iff)
      have "disk u 1 = V'" using bcD(4) u(2) unfolding log_ok_def by blast
      moreover have "b \<noteq> st" if "\<not> in_log st b" for b using that in_log_start by blast
      ultimately show ?thesis using u(1,3) v(2) by simp
    qed
    moreover have "end_op s = Ok (s\<lparr>l_outstanding := 0, l_committing := False, log_wakeups := log_wakeups s + 1\<rparr>)"
      using s z by (simp add: end_op_def Let_def commit_def)
    ultimately show ?thesis using bcD(4) [OF bc] cl by (auto simp: replay_def)
  qed
qed

text \<open>
  Property C2. A commit is atomic. Let the log hold some blocks, none of them the super block or in the log itself. Then
  \<open>commit\<close> returns, and wherever a crash cuts its disk writes off, booting from what is on the disk then, with an empty cache
  (\<open>binit\<close> and \<open>initlog\<close>), leaves every block outside the log as it was before the commit, if the crash came before the
  header was written, and as the system calls saw it, if it came after.
\<close>

theorem commit_crash_safe:
  fixes s :: "'a log_state_scheme"
  assumes ok: "log_ok st V D Map.empty s" and pos: "0 < lh_n s" and sb: "get32 (D 1) 16 = st" "\<not> in_log st 1" "1 \<notin> lh_block s ` {..<nat (lh_n s)}"
  shows "\<exists>t. commit s = Ok t \<and> (\<forall>k (c :: 'a log_state_scheme). zeroed c \<longrightarrow> havedisk1 c \<longrightarrow> no_err c \<longrightarrow>
    disk c = replay (take k (drop (length (diskwrites s)) (diskwrites t))) (disk s) \<longrightarrow>
    (\<exists>u. initlog 1 (binit c) = Ok u \<and> (\<forall>b. \<not> in_log st b \<longrightarrow> disk u 1 b = (if k \<le> nat (lh_n s) then D b else V b))))"
proof -
  obtain t where t: "commit s = Ok t" "\<And>k (c :: 'a log_state_scheme). zeroed c \<Longrightarrow> havedisk1 c \<Longrightarrow> no_err c \<Longrightarrow>
      disk c 1 = replay (take k (drop (length (diskwrites s)) (diskwrites t))) (disk s) 1 \<Longrightarrow>
      \<exists>u. initlog 1 (binit c) = Ok u \<and> (\<forall>b. \<not> in_log st b \<longrightarrow> disk u 1 b = (if k \<le> nat (lh_n s) then D b else V b))"
    using commit_crash_points [OF assms] by blast
  show ?thesis by (intro exI [of _ t] conjI t(1) allI impI t(2)) simp_all
qed

definition sample_image :: "uint \<Rightarrow> block" where
  "sample_image b = (if b = 1 then put32 (put32 (replicate 512 0) 12 30) 16 2 else replicate 512 0)"

definition sample_log :: log_state where
  "sample_log = \<lparr>bufs = (\<lambda>_. sample_buf), disk = (\<lambda>_. sample_image), havedisk1 = True, diskerr = (\<lambda>_ _. False), idequeue = [], diskwrites = [],
     l_start = 0, l_size = 0, l_outstanding = 0, l_committing = False, l_dev = 0, lh_n = 0, lh_block = (\<lambda>_. 0), log_wakeups = 0\<rparr>"

lemma sample_super: "get32 (sample_image 1) 16 = 2" "get32 (sample_image 1) 12 = 30" "get32 (sample_image 2) 0 = 0" "length (sample_image b) = 512"
  by (simp_all add: sample_image_def get32_put32_other, simp add: get32_def)

lemma sample_regions: "fits 2 0 f" "\<not> in_log 2 1" "\<not> in_log 2 100"
  by (simp_all add: fits_def in_log_def LOGSIZE_def MAXOPBLOCKS_def FSSIZE_def)

lemma sample_started:
  obtains s V where "initlog 1 (binit sample_log) = Ok s" "log_ok 2 V V Map.empty s" "lh_n s = 0" "l_size s = 30" "l_outstanding s = 0"
    "\<not> l_committing s" "\<And>b. b \<noteq> 2 \<Longrightarrow> V b = sample_image b"
proof -
  have h: "header (sample_image 2) 0 (\<lambda>_. 0)" by (simp add: header_def sample_super)
  note v = valid_header [where D = sample_image and st = 2, OF h sample_regions(1)]
  have "wp (initlog 1 (binit sample_log)) (\<lambda>t. \<exists>V. log_ok 2 V V Map.empty t \<and> lh_n t = 0 \<and> l_size t = sint (get32 (sample_image 1) 12) \<and>
    l_outstanding t = l_outstanding sample_log \<and> l_committing t = l_committing sample_log \<and> (\<forall>b. b \<noteq> 2 \<longrightarrow> V b = upds sample_image (pending 2 sample_image) b))"
    by (rule initlog_spec) (use v(1) sample_super in \<open>simp_all add: sample_log_def zeroed_def sample_buf_def no_err_def\<close>)
  then show thesis using that v(2) by (auto simp: wp_iff sample_super sample_log_def)
qed

theorem commit_crash_safe_witness:
  "\<exists>s0 s1 i s2 s3 s t. initlog 1 (binit sample_log) = Ok s0 \<and> begin_op s0 = Begun s1 \<and> bread 1 100 s1 = Ok (i, s2) \<and>
    log_write i (upd_buf i (b_data_update (\<lambda>_. [42])) s2) = Ok s3 \<and> brelse i s3 = Ok s \<and> commit s = Ok t \<and>
    (\<exists>u. initlog 1 (binit (sample_log\<lparr>disk := replay (take 0 (drop (length (diskwrites s)) (diskwrites t))) (disk s)\<rparr>)) = Ok u \<and> disk u 1 100 = replicate 512 0) \<and>
    (\<exists>u. initlog 1 (binit (sample_log\<lparr>disk := replay (take 99 (drop (length (diskwrites s)) (diskwrites t))) (disk s)\<rparr>)) = Ok u \<and> disk u 1 100 = [42])"
proof -
  obtain s0 V where s0: "initlog 1 (binit sample_log) = Ok s0" "log_ok 2 V V Map.empty s0" "lh_n s0 = 0" "l_size s0 = 30" "l_outstanding s0 = 0"
    "\<not> l_committing s0" "\<And>b. b \<noteq> 2 \<Longrightarrow> V b = sample_image b" by (rule sample_started) blast
  have "\<exists>s1 i s2 s3 s4. begin_op s0 = Begun s1 \<and> bread 1 100 s1 = Ok (i, s2) \<and> log_write i (upd_buf i (b_data_update (\<lambda>_. [42])) s2) = Ok s3 \<and>
    brelse i s3 = Ok s4 \<and> log_ok 2 (V(100 := [42])) V Map.empty s4 \<and> lh_block s4 ` {..<nat (lh_n s4)} = {100} \<and> 0 < lh_n s4 \<and>
    l_outstanding s4 = 1 \<and> \<not> l_committing s4 \<and> l_size s4 = l_size s0 \<and> diskwrites s4 = diskwrites s0"
    by (rule logged_update) (use s0 sample_regions in \<open>simp_all add: FSSIZE_def LOGSIZE_def MAXOPBLOCKS_def\<close>)
  then obtain s1 i s2 s3 s where s: "begin_op s0 = Begun s1" "bread 1 100 s1 = Ok (i, s2)" "log_write i (upd_buf i (b_data_update (\<lambda>_. [42])) s2) = Ok s3"
    "brelse i s3 = Ok s" "log_ok 2 (V(100 := [42])) V Map.empty s" "lh_block s ` {..<nat (lh_n s)} = {100}" "0 < lh_n s" by blast
  have "get32 (V 1) 16 = 2" "1 \<notin> lh_block s ` {..<nat (lh_n s)}" using s0(7) [of 1] s(6) by (simp_all add: sample_super)
  from commit_crash_safe [OF s(5,7) this(1) sample_regions(2) this(2)] obtain t where t: "commit s = Ok t"
    "\<And>k c. zeroed (c :: log_state) \<Longrightarrow> havedisk1 c \<Longrightarrow> no_err c \<Longrightarrow> disk c = replay (take k (drop (length (diskwrites s)) (diskwrites t))) (disk s) \<Longrightarrow>
      \<exists>u. initlog 1 (binit c) = Ok u \<and> (\<forall>b. \<not> in_log 2 b \<longrightarrow> disk u 1 b = (if k \<le> nat (lh_n s) then V b else (V(100 := [42])) b))" by blast
  let ?c = "\<lambda>k. sample_log\<lparr>disk := replay (take k (drop (length (diskwrites s)) (diskwrites t))) (disk s)\<rparr>"
  have c: "zeroed (?c k)" "havedisk1 (?c k)" "no_err (?c k)" for k by (simp_all add: sample_log_def zeroed_def sample_buf_def no_err_def)
  have "fits 2 (nat (lh_n s)) (lh_block s)" using s(5) by (simp add: log_ok_def log_at_def)
  then have n: "lh_n s \<le> 29" using fits_n(1) by fastforce
  have v: "V 100 = replicate 512 0" using s0(7) [of 100] by (simp add: sample_image_def)
  have "\<exists>u. initlog 1 (binit (?c 0)) = Ok u \<and> disk u 1 100 = replicate 512 0" using t(2) [of "?c 0" 0, OF c] sample_regions(3) v by auto
  moreover have "\<exists>u. initlog 1 (binit (?c 99)) = Ok u \<and> disk u 1 100 = [42]" using t(2) [of "?c 99" 99, OF c] sample_regions(3) n by auto
  ultimately show ?thesis using s0(1) s(1-4) t(1) by blast
qed

text \<open>
  Property C36. The use of the log that \<open>log.c\<close> describes: \<open>begin_op\<close>, \<open>bread\<close>, change the data, \<open>log_write\<close>, \<open>brelse\<close>,
  \<open>end_op\<close>. When no other operation is in progress it runs to the end, the block is on the disk with its new data, no other
  block outside the log has changed, the log is empty again and those who wait for it have been woken up.
\<close>

theorem logged_update_durable:
  fixes s :: "'a log_state_scheme"
  assumes "log_ok st V D Map.empty s" "b < FSSIZE" "\<not> in_log st b" "\<not> l_committing s" "l_outstanding s = 0" "lh_n s = 0" "1 < l_size s"
    "l_size s \<le> LOGSIZE"
  shows "\<exists>s1 i s2 s3 s4 t D'. begin_op s = Begun s1 \<and> bread 1 b s1 = Ok (i, s2) \<and> log_write i (upd_buf i (b_data_update (\<lambda>_. v)) s2) = Ok s3 \<and>
    brelse i s3 = Ok s4 \<and> end_op s4 = Ok t \<and> log_ok st D' D' Map.empty t \<and> lh_n t = 0 \<and> l_outstanding t = 0 \<and> \<not> l_committing t \<and>
    log_wakeups t = log_wakeups s4 + 1 \<and> disk t 1 b = v \<and> (\<forall>c. c \<noteq> b \<longrightarrow> \<not> in_log st c \<longrightarrow> disk t 1 c = D c)"
proof -
  obtain s1 i s2 s3 s4 where a: "begin_op s = Begun s1" "bread 1 b s1 = Ok (i, s2)" "log_write i (upd_buf i (b_data_update (\<lambda>_. v)) s2) = Ok s3"
    "brelse i s3 = Ok s4" and ok: "log_ok st (V(b := v)) D Map.empty s4" and Y: "lh_block s4 ` {..<nat (lh_n s4)} = {b}" and s4: "0 < lh_n s4"
    "l_outstanding s4 = 1" "\<not> l_committing s4"
    using logged_update [OF assms, of v] by blast
  let ?s = "s4\<lparr>l_outstanding := 0, l_committing := True\<rparr>"
  have ok': "log_ok st (V(b := v)) D Map.empty ?s" using ok by (simp add: log_ok_def log_at_def no_err_def)
  obtain t D' where t: "commit ?s = Ok t" "log_ok st D' D' Map.empty t" "\<And>c. \<not> in_log st c \<Longrightarrow> D' c = (V(b := v)) c" "rest_same (?s\<lparr>lh_n := 0\<rparr>) t"
    using commit_done [OF ok'] s4(1) by (auto simp: wp_iff simp del: fun_upd_apply)
  let ?t = "t\<lparr>l_committing := False, log_wakeups := log_wakeups t + 1\<rparr>"
  have e: "end_op s4 = Ok ?t" using s4 t(1) by (simp add: end_op_def Let_def)
  have okt: "log_ok st D' D' Map.empty ?t" using t(2) by (simp add: log_ok_def log_at_def no_err_def)
  have d: "disk ?t 1 = D'" using t(2) bcD(4) unfolding log_ok_def by simp blast
  have "V c = D c" for c using bc_clean [of s V D Map.empty "{}" c] assms(1,6) by (simp add: log_ok_def)
  then show ?thesis using a e okt d t(3) assms(3) log_sel [OF t(4)]
    by (intro exI [of _ s1] exI [of _ i] exI [of _ s2] exI [of _ s3] exI [of _ s4] exI [of _ ?t] exI [of _ D']) simp
qed

theorem logged_update_durable_witness:
  "\<exists>s0 s1 i s2 s3 s4 t. initlog 1 (binit sample_log) = Ok s0 \<and> begin_op s0 = Begun s1 \<and> bread 1 100 s1 = Ok (i, s2) \<and>
    log_write i (upd_buf i (b_data_update (\<lambda>_. [42])) s2) = Ok s3 \<and> brelse i s3 = Ok s4 \<and> end_op s4 = Ok t \<and> disk t 1 100 = [42] \<and>
    disk t 1 50 = replicate 512 0"
proof -
  obtain s0 V where s0: "initlog 1 (binit sample_log) = Ok s0" "log_ok 2 V V Map.empty s0" "lh_n s0 = 0" "l_size s0 = 30" "l_outstanding s0 = 0"
    "\<not> l_committing s0" "\<And>b. b \<noteq> 2 \<Longrightarrow> V b = sample_image b" by (rule sample_started) blast
  have l: "1 < l_size s0" "l_size s0 \<le> LOGSIZE" "(100 :: uint) < FSSIZE" using s0(4) by (simp_all add: LOGSIZE_def MAXOPBLOCKS_def FSSIZE_def)
  have n: "\<not> in_log 2 50" by (simp add: in_log_def LOGSIZE_def MAXOPBLOCKS_def)
  show ?thesis
    using logged_update_durable [OF s0(2) l(3) sample_regions(3) s0(6,5,3) l(1,2), of "[42]"] s0(1) n s0(7) [of 50] by (auto simp: sample_image_def)
qed

text \<open>
  The room \<open>begin_op\<close> promises and the room there is differ by one block: with the log of 30 blocks that \<open>mkfs\<close> makes, a third
  operation is admitted beside two others, for 30 blocks in all, but the 30th block logged is a panic.
\<close>

lemma reservation_exceeds_log:
  "\<not> l_committing s \<Longrightarrow> lh_n s = 0 \<Longrightarrow> l_outstanding s = 2 \<Longrightarrow> begin_op s \<noteq> Waits"
  "l_size s = LOGSIZE \<Longrightarrow> lh_n s = 29 \<Longrightarrow> log_write i s = Panic ''too big a transaction''"
  by (simp_all add: begin_op_def log_write_def LOGSIZE_def MAXOPBLOCKS_def)

end
