(* ===== verification/Grep.thy ===== *)
theory Grep
  imports Prelude
begin

text \<open>
  \<open>grep.c\<close>. The pattern and the text of the matcher are the C strings without their final NUL: \<open>re+1\<close> is the tail, and the
  end of the list is the NUL. The main loop keeps the \<open>m\<close> bytes of \<open>buf\<close> as a list, so its bytes may include NUL.
  The standard input is the list of bytes left; \<open>avail n\<close> says how many of the \<open>n\<close> bytes left a \<open>read\<close> can give at once.
\<close>

section \<open>The matcher\<close>

function matchhere :: "string \<Rightarrow> string \<Rightarrow> bool" and matchstar :: "char \<Rightarrow> string \<Rightarrow> string \<Rightarrow> bool" where
  "matchhere [] text = True"
| "matchhere (r # re) text =
     (if re \<noteq> [] \<and> hd re = CHR ''*'' then matchstar r (tl re) text
      else if r = CHR ''$'' \<and> re = [] then text = []
      else case text of [] \<Rightarrow> False | t # text' \<Rightarrow> (r = CHR ''.'' \<or> r = t) \<and> matchhere re text')"
| "matchstar c re text =
     (matchhere re text \<or> (case text of [] \<Rightarrow> False | t # text' \<Rightarrow> (t = c \<or> c = CHR ''.'') \<and> matchstar c re text'))"
  by pat_completeness auto
termination
  by (relation "measures [\<lambda>x. case x of Inl (re, text) \<Rightarrow> length re | Inr (c, re, text) \<Rightarrow> Suc (length re),
      \<lambda>x. case x of Inl (re, text) \<Rightarrow> length text | Inr (c, re, text) \<Rightarrow> length text]") auto

fun match_loop :: "string \<Rightarrow> string \<Rightarrow> bool" where
  "match_loop re text = (matchhere re text \<or> (case text of [] \<Rightarrow> False | t # text' \<Rightarrow> match_loop re text'))"

definition match :: "string \<Rightarrow> string \<Rightarrow> bool" where
  "match re text = (if re \<noteq> [] \<and> hd re = CHR ''^'' then matchhere (tl re) text else match_loop re text)"

section \<open>The main loop\<close>

abbreviation nl :: char where "nl \<equiv> CHR 0x0A"
abbreviation NUL :: char where "NUL \<equiv> CHR 0x00"

text \<open>\<open>strchr(p, nl)\<close> at the bytes \<open>p\<close>, which a NUL follows: the bytes up to the newline and those after it.\<close>

definition next_line :: "string \<Rightarrow> (string \<times> string) option" where
  "next_line p =
     (let line = takeWhile (\<lambda>c. c \<noteq> nl \<and> c \<noteq> NUL) p; rest = drop (length line) p
      in if rest \<noteq> [] \<and> hd rest = nl then Some (line, tl rest) else None)"

lemma next_line_shrinks: "next_line p = Some (line, rest) \<Longrightarrow> length rest < length p"
proof -
  let ?k = "length (takeWhile (\<lambda>c. c \<noteq> nl \<and> c \<noteq> NUL) p)"
  assume "next_line p = Some (line, rest)"
  then have "rest = tl (drop ?k p)" "drop ?k p \<noteq> []" by (auto simp: next_line_def Let_def split: if_splits)
  then show ?thesis by simp
qed

function scan_lines :: "string \<Rightarrow> string \<Rightarrow> string list \<times> string" where
  "scan_lines pattern p =
     (case next_line p of
        None \<Rightarrow> ([], p)
      | Some (line, rest) \<Rightarrow>
          let (out, p) = scan_lines pattern rest
          in (if match pattern line then (line @ [nl]) # out else out, p))"
  by auto
termination by (relation "measure (\<lambda>(pattern, p). length p)") (auto simp: next_line_shrinks)

definition BUF :: nat where "BUF = 1024"

fun grep :: "nat \<Rightarrow> (nat \<Rightarrow> nat) \<Rightarrow> string \<Rightarrow> string \<Rightarrow> string \<Rightarrow> string list option" where
  "grep 0 avail pattern buf input = None"
| "grep (Suc k) avail pattern buf input =
     (let n = min (BUF - length buf - 1) (avail (length input))
      in if n = 0 \<or> input = [] then Some []
         else
           let buf = buf @ take n input;
               (out, p) = scan_lines pattern buf;
               buf = (if length p = length buf then [] else p)
           in map_option ((@) out) (grep k avail pattern buf (drop n input)))"

section \<open>Patterns as languages\<close>

datatype item = One char | Star char

text \<open>The items of a pattern without its \<open>^\<close>, and whether it ends in the anchor \<open>$\<close>.\<close>

fun items :: "string \<Rightarrow> item list \<times> bool" where
  "items [] = ([], False)"
| "items [r] = (if r = CHR ''$'' then ([], True) else ([One r], False))"
| "items (r # r' # re) =
     (if r' = CHR ''*'' then (case items re of (xs, e) \<Rightarrow> (Star r # xs, e))
      else case items (r' # re) of (xs, e) \<Rightarrow> (One r # xs, e))"

definition fits_char :: "char \<Rightarrow> char \<Rightarrow> bool" where "fits_char r c \<longleftrightarrow> r = CHR ''.'' \<or> r = c"

fun lang :: "item list \<Rightarrow> string set" where
  "lang [] = {[]}"
| "lang (One r # xs) = {c # w | c w. fits_char r c \<and> w \<in> lang xs}"
| "lang (Star r # xs) = {u @ w | u w. (\<forall>c\<in>set u. fits_char r c) \<and> w \<in> lang xs}"

definition hits :: "item list \<times> bool \<Rightarrow> string \<Rightarrow> bool" where
  "hits p t \<longleftrightarrow> (\<exists>w b. t = w @ b \<and> w \<in> lang (fst p) \<and> (snd p \<longrightarrow> b = []))"

declare matchhere.simps(2) [simp del] matchstar.simps [simp del] match_loop.simps [simp del] scan_lines.simps [simp del]

lemma hits_Nil: "hits ([], e) t \<longleftrightarrow> (e \<longrightarrow> t = [])"
  by (auto simp: hits_def)

lemma hits_One: "hits (One r # xs, e) t \<longleftrightarrow> (\<exists>c t'. t = c # t' \<and> fits_char r c \<and> hits (xs, e) t')"
proof
  assume "hits (One r # xs, e) t"
  then obtain v b where v: "t = v @ b" "v \<in> lang (One r # xs)" "e \<longrightarrow> b = []" unfolding hits_def by auto
  then obtain c w where "v = c # w" "fits_char r c" "w \<in> lang xs" by auto
  then show "\<exists>c t'. t = c # t' \<and> fits_char r c \<and> hits (xs, e) t'" using v by (auto simp: hits_def)
next
  assume "\<exists>c t'. t = c # t' \<and> fits_char r c \<and> hits (xs, e) t'"
  then obtain c t' where c: "t = c # t'" "fits_char r c" "hits (xs, e) t'" by auto
  then obtain w b where w: "t' = w @ b" "w \<in> lang xs" "e \<longrightarrow> b = []" unfolding hits_def by auto
  then have "c # w \<in> lang (One r # xs)" using c(2) by simp
  then show "hits (One r # xs, e) t" unfolding hits_def using c(1) w by (intro exI [of _ "c # w"] exI [of _ b]) simp
qed

lemma hits_StarD:
  assumes "hits (Star r # xs, e) t"
  obtains u w b where "t = u @ w @ b" "\<forall>c\<in>set u. fits_char r c" "w \<in> lang xs" "e \<longrightarrow> b = []"
proof -
  obtain v b where v: "t = v @ b" "v \<in> lang (Star r # xs)" "e \<longrightarrow> b = []" using assms unfolding hits_def by auto
  then obtain u w where "v = u @ w" "\<forall>c\<in>set u. fits_char r c" "w \<in> lang xs" by auto
  then show thesis using that [of u w b] v by simp
qed

lemma hits_StarI:
  assumes "t = u @ w @ b" "\<forall>c\<in>set u. fits_char r c" "w \<in> lang xs" "e \<longrightarrow> b = []"
  shows "hits (Star r # xs, e) t"
proof -
  have "u @ w \<in> lang (Star r # xs)" using assms(2,3) by auto
  then show ?thesis unfolding hits_def using assms(1,4) by (intro exI [of _ "u @ w"] exI [of _ b]) simp
qed

lemma hits_Star: "hits (Star r # xs, e) t \<longleftrightarrow> hits (xs, e) t \<or> (\<exists>c t'. t = c # t' \<and> fits_char r c \<and> hits (Star r # xs, e) t')"
proof
  assume "hits (Star r # xs, e) t"
  then obtain u w b where u: "t = u @ w @ b" "\<forall>c\<in>set u. fits_char r c" "w \<in> lang xs" "e \<longrightarrow> b = []" by (rule hits_StarD)
  show "hits (xs, e) t \<or> (\<exists>c t'. t = c # t' \<and> fits_char r c \<and> hits (Star r # xs, e) t')"
  proof (cases u)
    case Nil
    then show ?thesis using u by (auto simp: hits_def)
  next
    case (Cons c u')
    then have "hits (Star r # xs, e) (u' @ w @ b)" using u by (intro hits_StarI [of _ u' w b]) auto
    then show ?thesis using u Cons by auto
  qed
next
  assume "hits (xs, e) t \<or> (\<exists>c t'. t = c # t' \<and> fits_char r c \<and> hits (Star r # xs, e) t')"
  then show "hits (Star r # xs, e) t"
  proof (elim disjE exE conjE)
    assume "hits (xs, e) t"
    then obtain w b where "t = w @ b" "w \<in> lang xs" "e \<longrightarrow> b = []" unfolding hits_def by auto
    then show ?thesis by (intro hits_StarI [of _ "[]" w b]) auto
  next
    fix c t' assume t: "t = c # t'" "fits_char r c" "hits (Star r # xs, e) t'"
    from t(3) obtain u w b where u: "t' = u @ w @ b" "\<forall>c\<in>set u. fits_char r c" "w \<in> lang xs" "e \<longrightarrow> b = []" by (rule hits_StarD)
    then show ?thesis using t(1,2) by (intro hits_StarI [of _ "c # u" w b]) auto
  qed
qed

lemma matchhere_hits:
  "matchhere re t \<longleftrightarrow> hits (items re) t"
  "matchstar c re t \<longleftrightarrow> hits (Star c # fst (items re), snd (items re)) t"
proof (induction re t and c re t rule: matchhere_matchstar.induct)
  case (1 t)
  then show ?case by (simp add: hits_def)
next
  case (2 r re t)
  show ?case
  proof (cases re)
    case Nil
    then show ?thesis using 2 by (cases t) (auto simp: matchhere.simps hits_Nil hits_One fits_char_def)
  next
    case (Cons r' re')
    then show ?thesis using 2 by (cases "items (r' # re')"; cases "items re'"; cases t) (auto simp: matchhere.simps hits_One fits_char_def)
  qed
next
  case (3 c re t)
  have "matchstar c re t \<longleftrightarrow> hits (items re) t \<or> (\<exists>x t'. t = x # t' \<and> fits_char c x \<and> matchstar c re t')"
    unfolding matchstar.simps [of c re t] using 3(1) by (cases t) (auto simp: fits_char_def)
  also have "\<dots> \<longleftrightarrow> hits (items re) t \<or> (\<exists>x t'. t = x # t' \<and> fits_char c x \<and> hits (Star c # fst (items re), snd (items re)) t')"
    using 3(2) by (cases t) (auto simp: fits_char_def)
  finally show ?case using hits_Star [of c "fst (items re)" "snd (items re)" t] by simp
qed

lemma match_loop_hits: "match_loop re t \<longleftrightarrow> (\<exists>a b. t = a @ b \<and> hits (items re) b)"
proof (induction t)
  case Nil
  then show ?case by (simp add: match_loop.simps [of _ "[]"] matchhere_hits)
next
  case (Cons c t)
  have "match_loop re (c # t) \<longleftrightarrow> hits (items re) (c # t) \<or> (\<exists>a b. t = a @ b \<and> hits (items re) b)"
    using Cons by (simp add: match_loop.simps [of _ "c # t"] matchhere_hits)
  then show ?case by (auto simp: Cons_eq_append_conv)
qed

section \<open>Lines\<close>

text \<open>The complete lines of a text, and what follows the last newline.\<close>

fun split_lines :: "string \<Rightarrow> string list \<times> string" where
  "split_lines [] = ([], [])"
| "split_lines (c # cs) =
     (case split_lines cs of (ls, r) \<Rightarrow>
        if c = nl then ([] # ls, r) else case ls of [] \<Rightarrow> ([], c # r) | l # ls \<Rightarrow> ((c # l) # ls, r))"

lemma split_lines_none: "nl \<notin> set p \<Longrightarrow> split_lines p = ([], p)"
  by (induction p) auto

lemma split_lines_line: "nl \<notin> set l \<Longrightarrow> split_lines (l @ nl # p) = (l # fst (split_lines p), snd (split_lines p))"
  by (induction l) (auto simp: split_beta)

lemma line_cases:
  fixes p :: string
  obtains (none) "nl \<notin> set p" | (line) l q where "p = l @ nl # q" "nl \<notin> set l"
  using split_list_first [of nl p] by blast

lemma split_lines_append:
  "split_lines (p @ q) = (fst (split_lines p) @ fst (split_lines (snd (split_lines p) @ q)), snd (split_lines (snd (split_lines p) @ q)))"
proof (induction "length p" arbitrary: p rule: less_induct)
  case less
  show ?case
  proof (cases rule: line_cases [of p])
    case none
    then show ?thesis by (simp add: split_lines_none)
  next
    case (line l p')
    then show ?thesis using less [of p'] by (simp add: split_lines_line)
  qed
qed

lemma split_lines_join: "concat (map (\<lambda>l. l @ [nl]) (fst (split_lines p))) @ snd (split_lines p) = p" "nl \<notin> set (snd (split_lines p))"
  by (induction p) (auto simp: split_beta split: list.splits)

lemma split_lines_rest:
  "set (snd (split_lines p)) \<subseteq> set p" "length (snd (split_lines p)) \<le> length p" "length (snd (split_lines p)) = length p \<Longrightarrow> nl \<notin> set p"
proof -
  let ?c = "concat (map (\<lambda>l. l @ [nl]) (fst (split_lines p)))" and ?r = "snd (split_lines p)"
  have p: "p = ?c @ ?r" using split_lines_join(1) by simp
  have "set (?c @ ?r) = set p" "length (?c @ ?r) = length p" using p by metis+
  then show "set ?r \<subseteq> set p" "length ?r \<le> length p" by auto
  show "length ?r = length p \<Longrightarrow> nl \<notin> set p" using p split_lines_join(2) by (metis append.left_neutral append_eq_append_conv)
qed

definition matching :: "string \<Rightarrow> string \<Rightarrow> string list" where
  "matching pattern p = map (\<lambda>l. l @ [nl]) (filter (match pattern) (fst (split_lines p)))"

lemma next_line_iff: "NUL \<notin> set p \<Longrightarrow> nl \<notin> set p \<Longrightarrow> next_line p = None"
  "NUL \<notin> set l \<Longrightarrow> nl \<notin> set l \<Longrightarrow> next_line (l @ nl # q) = Some (l, q)"
proof -
  assume "NUL \<notin> set p" "nl \<notin> set p"
  then have "takeWhile (\<lambda>c. c \<noteq> nl \<and> c \<noteq> NUL) p = p" by (auto simp: takeWhile_eq_all_conv)
  note t = this
  show "next_line p = None" unfolding next_line_def Let_def t by simp
next
  assume "NUL \<notin> set l" "nl \<notin> set l"
  then have "takeWhile (\<lambda>c. c \<noteq> nl \<and> c \<noteq> NUL) (l @ nl # q) = l" by (subst takeWhile_append2) auto
  note t = this
  show "next_line (l @ nl # q) = Some (l, q)" unfolding next_line_def Let_def t by simp
qed

lemma scan_lines_matching: "NUL \<notin> set p \<Longrightarrow> scan_lines pattern p = (matching pattern p, snd (split_lines p))"
proof (induction "length p" arbitrary: p rule: less_induct)
  case less
  show ?case
  proof (cases rule: line_cases [of p])
    case none
    then show ?thesis using less.prems by (simp add: scan_lines.simps [of _ p] next_line_iff split_lines_none matching_def)
  next
    case (line l p')
    then show ?thesis using less.prems less.hyps [of p'] 
      by (simp add: scan_lines.simps [of _ "l @ nl # p'"] next_line_iff split_lines_line matching_def)
  qed
qed

lemma grep_fuel: "length input < k \<Longrightarrow> \<exists>out. grep k avail pattern buf input = Some out"
proof (induction k arbitrary: buf input)
  case (Suc k)
  let ?n = "min (BUF - length buf - 1) (avail (length input))"
  show ?case
  proof (cases "?n = 0 \<or> input = []")
    case False
    then have "length (drop ?n input) < k" using Suc.prems by (cases input) auto
    from Suc.IH [OF this] show ?thesis using False by (auto simp: Let_def split_beta)
  qed (auto simp: Let_def)
qed simp

lemma matching_append: "matching pattern (p @ q) = matching pattern p @ matching pattern (snd (split_lines p) @ q)"
  by (simp add: matching_def split_lines_append [of p q])

definition short_lines :: "string \<Rightarrow> bool" where
  "short_lines p \<longleftrightarrow> (\<forall>l\<in>set (snd (split_lines p) # fst (split_lines p)). length l < BUF - 1)"

lemma short_prefix:
  assumes "short_lines (b @ x)" "nl \<notin> set b"
  shows "length b < BUF - 1"
proof (cases rule: line_cases [of x])
  case none
  then have "split_lines (b @ x) = ([], b @ x)" using assms(2) by (simp add: split_lines_none)
  then show ?thesis using assms(1) by (simp add: short_lines_def)
next
  case (line l q)
  then have "split_lines (b @ x) = ((b @ l) # fst (split_lines q), snd (split_lines q))"
    using assms(2) split_lines_line [of "b @ l" q] by simp
  then show ?thesis using assms(1) by (simp add: short_lines_def)
qed

lemma short_append: "short_lines (p @ q) \<Longrightarrow> short_lines (snd (split_lines p) @ q)"
  by (simp add: short_lines_def split_lines_append [of p q])

lemma grep_matching:
  assumes "NUL \<notin> set (buf @ input)" "nl \<notin> set buf" "short_lines (buf @ input)" "length input < k"
  shows "grep k (\<lambda>n. n) pattern buf input = Some (matching pattern (buf @ input))"
  using assms
proof (induction k arbitrary: buf input)
  case (Suc k)
  define n b x where def: "n = min (BUF - length buf - 1) (length input)" "b = buf @ take n input" "x = drop n input"
  have short: "length buf < BUF - 1" using short_prefix Suc.prems by blast
  have e: "b @ x = buf @ input" by (simp add: def)
  show ?case
  proof (cases "input = []")
    case True
    then show ?thesis using Suc.prems(2) by (simp add: matching_def split_lines_none)
  next
    case False
    have set: "set b \<union> set x = set (buf @ input)" using e by (metis set_append)
    have s: "scan_lines pattern b = (matching pattern b, snd (split_lines b))" using Suc.prems(1) set by (intro scan_lines_matching) auto
    let ?p = "snd (split_lines b)"
    define r where "r = (if length ?p = length b then [] else ?p)"
    have c: "r = ?p \<or> r = [] \<and> x = [] \<and> nl \<notin> set ?p"
    proof (cases "length ?p = length b")
      case True
      then have "nl \<notin> set b" by (rule split_lines_rest(3))
      then have "length b < BUF - 1" using short_prefix [of b x] Suc.prems(3) e by simp
      then show ?thesis using True split_lines_join(2) [of b] by (auto simp: r_def def)
    qed (simp add: r_def)
    have p: "matching pattern (buf @ input) = matching pattern b @ matching pattern (?p @ x)" "short_lines (?p @ x)"
      using matching_append [of pattern b x] short_append [of b x] Suc.prems(3) e by simp_all
    have m: "matching pattern (buf @ input) = matching pattern b @ matching pattern (r @ x)"
      using c p(1) by (auto simp: matching_def split_lines_none)
    have r: "NUL \<notin> set (r @ x)" "nl \<notin> set r" "short_lines (r @ x)"
      using c p(2) split_lines_join(2) [of b] Suc.prems(1) set split_lines_rest(1) [of b] by (auto simp: short_lines_def BUF_def)
    have "0 < n" using short False by (simp add: def(1))
    moreover have "length x < k" using Suc.prems(4) \<open>0 < n\<close> False by (cases input) (auto simp: def(3))
    moreover have "grep (Suc k) (\<lambda>n. n) pattern buf input = map_option ((@) (matching pattern b)) (grep k (\<lambda>n. n) pattern r x)"
      unfolding grep.simps Let_def def(1) [symmetric] def(2,3) [symmetric] s prod.case r_def [symmetric] using \<open>0 < n\<close> False by simp
    ultimately show ?thesis using Suc.IH [OF r] m by simp
  qed
qed simp

section \<open>Properties\<close>

text \<open>
  Property C37. The matcher decides the language of its pattern: \<open>match\<close> succeeds exactly when some stretch of the text is a
  word of the pattern's items (a character, \<open>.\<close> for any, each possibly with a \<open>*\<close>), which starts the text if the
  pattern begins with \<open>^\<close> and ends it if the pattern ends with an unstarred \<open>$\<close>.
\<close>

theorem match_language:
  fixes re :: string
  defines "p \<equiv> (if re \<noteq> [] \<and> hd re = CHR ''^'' then tl re else re)"
  shows "match re text \<longleftrightarrow> (\<exists>a w b. text = a @ w @ b \<and> w \<in> lang (fst (items p)) \<and> (re \<noteq> [] \<and> hd re = CHR ''^'' \<longrightarrow> a = []) \<and> (snd (items p) \<longrightarrow> b = []))"
proof (cases "re \<noteq> [] \<and> hd re = CHR ''^''")
  case True
  then show ?thesis by (auto simp: match_def p_def matchhere_hits hits_def)
next
  case False
  then have "match re text \<longleftrightarrow> match_loop p text" unfolding match_def p_def by (simp only: if_False)
  then have "match re text \<longleftrightarrow> (\<exists>a b. text = a @ b \<and> hits (items p) b)" by (simp only: match_loop_hits)
  then show ?thesis using False unfolding hits_def by auto
qed

theorem match_language_witness:
  "\<exists>a w b. ''xabbc'' = a @ w @ b \<and> w \<in> lang [One CHR ''a'', Star CHR ''.'', One CHR ''c''] \<and> b = []"
  using match_language [of "''a.*c$''" "''xabbc''"] by (simp add: match_def match_loop.simps matchhere.simps matchstar.simps)


text \<open>
  Property C38. On a file, where a \<open>read\<close> gives all it is asked for, \<open>grep\<close> writes exactly the lines that match, in order
  and with their newlines, if no line is longer than 1022 characters and there are no NUL bytes. A last line without a newline
  is not looked at.
\<close>

theorem grep_prints_matches:
  assumes "NUL \<notin> set input" "short_lines input"
  shows "grep (Suc (length input)) (\<lambda>n. n) pattern [] input = Some (map (\<lambda>l. l @ [nl]) (filter (match pattern) (fst (split_lines input))))"
  using grep_matching [of "[]" input "Suc (length input)" pattern] assms by (simp add: matching_def)

theorem grep_prints_matches_witness:
  "grep (Suc 13) (\<lambda>n. n) ''^b'' [] (''ab'' @ [nl] @ ''bc'' @ [nl] @ ''cb'' @ [nl] @ ''bbbb'') = Some [''bc'' @ [nl]]"
  using grep_prints_matches [of "''ab'' @ [nl] @ ''bc'' @ [nl] @ ''cb'' @ [nl] @ ''bbbb''" "''^b''"]
  by (simp add: short_lines_def BUF_def match_def matchhere.simps numeral_eq_Suc del: grep.simps)

text \<open>A line that comes in two pieces, as from a pipe, is lost: the first piece has no newline, so \<open>m\<close> is set to 0.\<close>

lemma grep_loses_split_line: "grep 5 (\<lambda>n. 2) ''abc'' [] (''abc'' @ [nl]) = Some []" "match ''abc'' ''abc''"
  by code_simp+

end
