(* ===== verification/Syscall.thy ===== *)
theory Syscall
  imports Kalloc Console_In
begin

text \<open>
  From a trap to the kernel routines: the argument fetching and the dispatcher of \<open>syscall.c\<close>, the system calls of
  \<open>sysproc.c\<close>, and \<open>trap\<close> of \<open>trap.c\<close>. The bytes of the running process's address space are \<open>umem\<close>. What \<open>sysfile.c\<close>
  and \<open>exec.c\<close> answer, the clock chip and the disk's interrupt handler are parameters. A call runs until it returns, or until
  it goes to sleep, or for good.
\<close>

record usys_state = kmem_state +
  umem :: bmem

datatype 's flow = Back int 's | Asleep 's | Yielded 's | Gone 's

section \<open>Arguments\<close>

text \<open>The fields of \<open>myproc()\<close>; through NULL they are undefined.\<close>

definition with_cur :: "nat \<Rightarrow> (nat \<Rightarrow> 'a usys_state_scheme \<Rightarrow> 'b res) \<Rightarrow> 'a usys_state_scheme \<Rightarrow> 'b res" where
  "with_cur c f s = rbind (myproc c s) (\<lambda>(mp, s). case mp of None \<Rightarrow> Undef | Some p \<Rightarrow> f p s)"

definition fetchint :: "nat \<Rightarrow> uint \<Rightarrow> 'a usys_state_scheme \<Rightarrow> (uint option \<times> 'a usys_state_scheme) res" where
  "fetchint c addr = with_cur c (\<lambda>p s.
     let sz = p_sz (procs s p)
     in if sz \<le> addr \<or> sz < addr + 4 then Ok (None, s) else Ok (Some (load32 (umem s) addr), s))"

fun fetchstr_loop :: "nat \<Rightarrow> bmem \<Rightarrow> uint \<Rightarrow> uint \<Rightarrow> uint \<Rightarrow> int" where
  "fetchstr_loop 0 m pp ep s = -1"
| "fetchstr_loop (Suc k) m pp ep s =
     (if s < ep then if m s = 0 then sint (s - pp) else fetchstr_loop k m pp ep (s + 1) else -1)"

text \<open>The length and the pointer, or -1.\<close>

definition fetchstr :: "nat \<Rightarrow> uint \<Rightarrow> 'a usys_state_scheme \<Rightarrow> ((int \<times> uint) \<times> 'a usys_state_scheme) res" where
  "fetchstr c addr = with_cur c (\<lambda>p s.
     let ep = p_sz (procs s p)
     in if ep \<le> addr then Ok ((-1, addr), s)
        else Ok ((fetchstr_loop (unat ep - unat addr) (umem s) addr ep addr, addr), s))"

definition argint :: "nat \<Rightarrow> uint \<Rightarrow> 'a usys_state_scheme \<Rightarrow> (uint option \<times> 'a usys_state_scheme) res" where
  "argint c n = with_cur c (\<lambda>p s. fetchint c (tf_esp (p_tf (procs s p)) + 4 + 4 * n) s)"

definition argptr :: "nat \<Rightarrow> uint \<Rightarrow> int \<Rightarrow> 'a usys_state_scheme \<Rightarrow> (uint option \<times> 'a usys_state_scheme) res" where
  "argptr c n len = with_cur c (\<lambda>p s.
     rbind (argint c n s) (\<lambda>(r, s).
     case r of
       None \<Rightarrow> Ok (None, s)
     | Some i \<Rightarrow>
         let sz = p_sz (procs s p)
         in if len < 0 \<or> sz \<le> i \<or> sz < i + of_int len then Ok (None, s) else Ok (Some i, s)))"

definition argstr :: "nat \<Rightarrow> uint \<Rightarrow> 'a usys_state_scheme \<Rightarrow> ((int \<times> uint) \<times> 'a usys_state_scheme) res" where
  "argstr c n s =
     rbind (argint c n s) (\<lambda>(r, s). case r of None \<Rightarrow> Ok ((-1, 0), s) | Some addr \<Rightarrow> fetchstr c addr s)"

section \<open>System calls on processes\<close>

text \<open>A routine that always returns.\<close>

definition ret :: "(int \<times> 's) res \<Rightarrow> 's flow res" where
  "ret r = rbind r (\<lambda>(v, s). Ok (Back v s))"

definition with_int :: "nat \<Rightarrow> uint \<Rightarrow> (int \<Rightarrow> 'a usys_state_scheme \<Rightarrow> 'a usys_state_scheme flow res) \<Rightarrow>
    'a usys_state_scheme \<Rightarrow> 'a usys_state_scheme flow res" where
  "with_int c n f s = rbind (argint c n s) (\<lambda>(r, s). case r of None \<Rightarrow> Ok (Back (-1) s) | Some v \<Rightarrow> f (sint v) s)"

definition sys_fork :: "'a usys_state_scheme services \<Rightarrow> nat \<Rightarrow> 'a usys_state_scheme \<Rightarrow> 'a usys_state_scheme flow res" where
  "sys_fork sv c s = ret (fork sv c s)"

definition sys_exit :: "'a usys_state_scheme services \<Rightarrow> nat \<Rightarrow> 'a usys_state_scheme \<Rightarrow> 'a usys_state_scheme flow res" where
  "sys_exit sv c s = rbind (exit_P4 sv c s) (\<lambda>s. Ok (Gone s))"

definition sys_wait :: "'a usys_state_scheme services \<Rightarrow> nat \<Rightarrow> 'a usys_state_scheme \<Rightarrow> 'a usys_state_scheme flow res" where
  "sys_wait sv c s = rbind (wait_P4 sv c s) (\<lambda>(r, s). case r of Inl v \<Rightarrow> Ok (Back v s) | Inr _ \<Rightarrow> Ok (Asleep s))"

definition sys_kill :: "nat \<Rightarrow> 'a usys_state_scheme \<Rightarrow> 'a usys_state_scheme flow res" where
  "sys_kill c = with_int c 0 (\<lambda>pid s. ret (kill_P4 c (of_int pid) s))"

definition sys_getpid :: "nat \<Rightarrow> 'a usys_state_scheme \<Rightarrow> 'a usys_state_scheme flow res" where
  "sys_getpid c = with_cur c (\<lambda>p s. Ok (Back (sint (p_pid (procs s p))) s))"

definition sys_sbrk :: "'a usys_state_scheme services \<Rightarrow> nat \<Rightarrow> 'a usys_state_scheme \<Rightarrow> 'a usys_state_scheme flow res" where
  "sys_sbrk sv c = with_int c 0 (\<lambda>n. with_cur c (\<lambda>p s.
     let addr = sint (p_sz (procs s p))
     in rbind (growproc sv c n s) (\<lambda>(r, s). Ok (Back (if r < 0 then -1 else addr) s))))"

text \<open>The loop of \<open>sys_sleep\<close> from its test on, when it began at tick \<open>ticks0\<close>: \<open>n\<close> is compared as an unsigned number.\<close>

definition sys_sleep_from :: "nat \<Rightarrow> uint \<Rightarrow> int \<Rightarrow> 'a usys_state_scheme \<Rightarrow> 'a usys_state_scheme flow res" where
  "sys_sleep_from c ticks0 n s =
     (if ticks s - ticks0 < of_int n then
        with_cur c (\<lambda>p s.
          if p_killed (procs s p) then Ok (Back (-1) s)
          else rbind (sleep_P4 c (Some Ch_ticks) None s) (\<lambda>s. Ok (Asleep s))) s
      else Ok (Back 0 s))"

definition sys_sleep :: "nat \<Rightarrow> 'a usys_state_scheme \<Rightarrow> 'a usys_state_scheme flow res" where
  "sys_sleep c = with_int c 0 (\<lambda>n s. sys_sleep_from c (ticks s) n s)"

definition sys_uptime :: "'a usys_state_scheme \<Rightarrow> 'a usys_state_scheme flow res" where
  "sys_uptime s = Ok (Back (sint (ticks s)) s)"

definition store_words :: "bmem \<Rightarrow> uint \<Rightarrow> uint list \<Rightarrow> bmem" where
  "store_words m a ws = fst (foldl (\<lambda>(m, a) w. (store32 m a w, a + 4)) (m, a) ws)"

text \<open>\<open>cmos\<close>: the six fields the clock chip gives, seconds first.\<close>

definition sys_date :: "uint list \<Rightarrow> nat \<Rightarrow> 'a usys_state_scheme \<Rightarrow> 'a usys_state_scheme flow res" where
  "sys_date cmos c s =
     rbind (argptr c 0 24 s) (\<lambda>(r, s).
     case r of None \<Rightarrow> Ok (Back (-1) s) | Some d \<Rightarrow> Ok (Back 0 (s\<lparr>umem := store_words (umem s) d cmos\<rparr>)))"

definition sys_getuid :: "nat \<Rightarrow> 'a usys_state_scheme \<Rightarrow> 'a usys_state_scheme flow res" where
  "sys_getuid c s = ret (getuid c s)"

definition sys_getgid :: "nat \<Rightarrow> 'a usys_state_scheme \<Rightarrow> 'a usys_state_scheme flow res" where
  "sys_getgid c s = ret (getgid c s)"

definition sys_getppid :: "nat \<Rightarrow> 'a usys_state_scheme \<Rightarrow> 'a usys_state_scheme flow res" where
  "sys_getppid c s = ret (getppid c s)"

definition sys_setuid :: "nat \<Rightarrow> 'a usys_state_scheme \<Rightarrow> 'a usys_state_scheme flow res" where
  "sys_setuid c = with_int c 0 (\<lambda>n s.
     if n < 0 \<or> 32767 < n then Ok (Back (-1) s) else rbind (setuid c (of_int n) s) (\<lambda>(_, s). Ok (Back 0 s)))"

definition sys_setgid :: "nat \<Rightarrow> 'a usys_state_scheme \<Rightarrow> 'a usys_state_scheme flow res" where
  "sys_setgid c = with_int c 0 (\<lambda>n s.
     if n < 0 \<or> 32767 < n then Ok (Back (-1) s) else rbind (setgid c (of_int n) s) (\<lambda>(_, s). Ok (Back 0 s)))"

text \<open>A row of \<open>struct uproc\<close> is 96 bytes: seven words, \<open>state[32]\<close>, \<open>size\<close>, \<open>name[32]\<close>.\<close>

definition store_string :: "bmem \<Rightarrow> uint \<Rightarrow> string \<Rightarrow> bmem" where
  "store_string m a xs = fst (foldl (\<lambda>(m, a) x. (m(a := x), a + 1)) (m, a) (map (\<lambda>ch. of_nat (of_char ch)) xs @ [0]))"

definition store_row :: "bmem \<Rightarrow> uint \<Rightarrow> uproc \<Rightarrow> bmem" where
  "store_row m a u =
     (let m = store_words m a [u_pid u, u_uid u, u_gid u, u_ppid u, u_priority u, u_elapsed_ticks u, u_CPU_total_ticks u];
          m = store_string m (a + 28) (u_state u);
          m = store32 m (a + 60) (u_size u)
      in store_string m (a + 64) (u_name u))"

fun store_rows :: "bmem \<Rightarrow> uint \<Rightarrow> uproc list \<Rightarrow> bmem" where
  "store_rows m a [] = m"
| "store_rows m a (u # us) = store_rows (store_row m a u) (a + 96) us"

definition sys_getprocs :: "nat \<Rightarrow> 'a usys_state_scheme \<Rightarrow> 'a usys_state_scheme flow res" where
  "sys_getprocs c = with_int c 0 (\<lambda>n s.
     rbind (argptr c 1 n s) (\<lambda>(r, s).
     case r of
       None \<Rightarrow> Ok (Back (-1) s)
     | Some t \<Rightarrow> rbind (getprocs c n s) (\<lambda>(v, rows, s). Ok (Back v (s\<lparr>umem := store_rows (umem s) t rows\<rparr>)))))"

definition sys_setpriority :: "nat \<Rightarrow> 'a usys_state_scheme \<Rightarrow> 'a usys_state_scheme flow res" where
  "sys_setpriority c = with_int c 0 (\<lambda>pid. with_int c 1 (\<lambda>prior s.
     if prior < 0 \<or> MAXPRIO < prior then Ok (Back (-1) s) else ret (setpriority c (of_int pid) prior s)))"

definition sys_getpriority :: "nat \<Rightarrow> 'a usys_state_scheme \<Rightarrow> 'a usys_state_scheme flow res" where
  "sys_getpriority c = with_int c 0 (\<lambda>pid s.
     if pid < 0 then Ok (Back (-1) s) else ret (getpriority c (of_int pid) s))"

section \<open>Dispatch\<close>

text \<open>
  \<open>syscalls[num]()\<close>. The calls of \<open>sysfile.c\<close> and \<open>sys_halt\<close> are the parameter \<open>other\<close>, by their number.
\<close>

definition sys_table ::
  "'a usys_state_scheme services \<Rightarrow> (nat \<Rightarrow> 'a usys_state_scheme \<Rightarrow> 'a usys_state_scheme flow res) \<Rightarrow> uint list \<Rightarrow> nat \<Rightarrow> nat \<Rightarrow>
   ('a usys_state_scheme \<Rightarrow> 'a usys_state_scheme flow res) option" where
  "sys_table sv other cmos c num =
     (if num = 1 then Some (sys_fork sv c)
      else if num = 2 then Some (sys_exit sv c)
      else if num = 3 then Some (sys_wait sv c)
      else if num = 6 then Some (sys_kill c)
      else if num = 11 then Some (sys_getpid c)
      else if num = 12 then Some (sys_sbrk sv c)
      else if num = 13 then Some (sys_sleep c)
      else if num = 14 then Some sys_uptime
      else if num = 23 then Some (sys_date cmos c)
      else if num = 24 then Some (sys_getuid c)
      else if num = 25 then Some (sys_getgid c)
      else if num = 26 then Some (sys_getppid c)
      else if num = 27 then Some (sys_setuid c)
      else if num = 28 then Some (sys_setgid c)
      else if num = 29 then Some (sys_getprocs c)
      else if num = 30 then Some (sys_setpriority c)
      else if num = 31 then Some (sys_getpriority c)
      else if num \<in> {4, 5, 7, 8, 9, 10, 15, 16, 17, 18, 19, 20, 21, 22} then Some (other num)
      else None)"

definition set_eax :: "nat \<Rightarrow> int \<Rightarrow> 'a usys_state_scheme \<Rightarrow> 'a usys_state_scheme" where
  "set_eax p v s = upd_proc p (\<lambda>k. k\<lparr>p_tf := (p_tf k)\<lparr>tf_eax := of_int v\<rparr>\<rparr>) s"

definition syscall ::
  "'a usys_state_scheme services \<Rightarrow> (nat \<Rightarrow> 'a usys_state_scheme \<Rightarrow> 'a usys_state_scheme flow res) \<Rightarrow> uint list \<Rightarrow> nat \<Rightarrow>
   'a usys_state_scheme \<Rightarrow> 'a usys_state_scheme flow res" where
  "syscall sv other cmos c = with_cur c (\<lambda>p s.
     let num = sint (tf_eax (p_tf (procs s p)))
     in case (if 0 < num then sys_table sv other cmos c (nat num) else None) of
          Some f \<Rightarrow>
            rbind (f s) (\<lambda>r. Ok (case r of Back v s \<Rightarrow> Back v (set_eax p v s) | _ \<Rightarrow> r))
        | None \<Rightarrow>
            rbind (cprintf c ''%d %s: unknown sys call %d\<newline>''
              [Num (p_pid (procs s p)), Str (Some (p_name (procs s p))), Num (of_int num)] s) (\<lambda>s.
            Ok (Back (-1) (set_eax p (-1) s))))"

section \<open>Traps\<close>

definition T_SYSCALL :: uint where "T_SYSCALL = 64"
definition T_IRQ0 :: uint where "T_IRQ0 = 32"
definition IRQ_TIMER :: uint where "IRQ_TIMER = 0"
definition IRQ_KBD :: uint where "IRQ_KBD = 1"
definition IRQ_COM1 :: uint where "IRQ_COM1 = 4"
definition IRQ_IDE :: uint where "IRQ_IDE = 14"
definition IRQ_SPURIOUS :: uint where "IRQ_SPURIOUS = 31"
definition SCHED_INTERVAL :: uint where "SCHED_INTERVAL = 10"

text \<open>
  The hardware's side: what \<open>getc\<close> hands to \<open>consoleintr\<close> for the keyboard and the serial line, the disk's handler, \<open>cr2\<close>, and
  the memory and frame pointer that the stack dump of \<open>procdump\<close> reads.
\<close>

record 's hardware =
  hw_kbd :: "uint list"
  hw_uart :: "uint list"
  hw_ideintr :: "'s \<Rightarrow> 's res"
  hw_cr2 :: uint
  hw_mem :: "uint \<Rightarrow> uint"
  hw_ebp :: "nat \<Rightarrow> uint"

definition killed_now :: "nat \<Rightarrow> 'a usys_state_scheme \<Rightarrow> (bool \<times> 'a usys_state_scheme) res" where
  "killed_now c = with_cur c (\<lambda>p s. Ok (p_killed (procs s p), s))"

text \<open>\<open>if(myproc() && myproc()->killed && (tf->cs&3) == DPL_USER)\<close>, and whether there is a process and it is running.\<close>

definition killed_user :: "nat \<Rightarrow> trapframe \<Rightarrow> 'a usys_state_scheme \<Rightarrow> (bool \<times> bool \<times> 'a usys_state_scheme) res" where
  "killed_user c tf s =
     rbind (myproc c s) (\<lambda>(mp, s).
     case mp of
       None \<Rightarrow> Ok (False, False, s)
     | Some p \<Rightarrow> Ok (p_killed (procs s p) \<and> tf_cs tf AND 3 = DPL_USER, p_state (procs s p) = RUNNING, s))"

definition timer_tick :: "nat \<Rightarrow> 'a usys_state_scheme \<Rightarrow> 'a usys_state_scheme res" where
  "timer_tick c s =
     rbind (cpuid c s) (\<lambda>i. if i = 0 then wakeup_P4 c (Some Ch_ticks) (s\<lparr>ticks := ticks s + 1\<rparr>) else Ok s)"

definition trap_default :: "'a usys_state_scheme hardware \<Rightarrow> nat \<Rightarrow> trapframe \<Rightarrow> 'a usys_state_scheme \<Rightarrow> 'a usys_state_scheme res" where
  "trap_default hw c tf s =
     rbind (myproc c s) (\<lambda>(mp, s).
     rbind (cpuid c s) (\<lambda>i.
     case (if tf_cs tf AND 3 = 0 then None else mp) of
       None \<Rightarrow>
         rbind (cprintf c ''unexpected trap %d from cpu %d eip %x (cr2=0x%x)\<newline>''
           [Num (tf_trapno tf), Num (of_nat i), Num (tf_eip tf), Num (hw_cr2 hw)] s) (\<lambda>_. Panic ''trap'')
     | Some p \<Rightarrow>
         rbind (cprintf c ''pid %d %s: trap %d err %d on cpu %d eip 0x%x addr 0x%x--kill proc\<newline>''
           [Num (p_pid (procs s p)), Str (Some (p_name (procs s p))), Num (tf_trapno tf), Num (tf_err tf), Num (of_nat i),
            Num (tf_eip tf), Num (hw_cr2 hw)] s) (\<lambda>s.
         Ok (upd_proc p (p_killed_update (\<lambda>_. True)) s))))"

text \<open>The \<open>switch\<close>. \<open>lapiceoi\<close> only acknowledges the interrupt to the chip.\<close>

definition trap_irq :: "'a usys_state_scheme hardware \<Rightarrow> nat \<Rightarrow> trapframe \<Rightarrow> 'a usys_state_scheme \<Rightarrow> 'a usys_state_scheme res" where
  "trap_irq hw c tf s =
     (let n = tf_trapno tf
      in if n = T_IRQ0 + IRQ_TIMER then timer_tick c s
         else if n = T_IRQ0 + IRQ_IDE then hw_ideintr hw s
         else if n = T_IRQ0 + IRQ_IDE + 1 then Ok s
         else if n = T_IRQ0 + IRQ_KBD then consoleintr c (hw_mem hw) (hw_ebp hw) (hw_kbd hw) s
         else if n = T_IRQ0 + IRQ_COM1 then consoleintr c (hw_mem hw) (hw_ebp hw) (hw_uart hw) s
         else if n = T_IRQ0 + 7 \<or> n = T_IRQ0 + IRQ_SPURIOUS then
           rbind (cpuid c s) (\<lambda>i.
           cprintf c ''cpu%d: spurious interrupt at %x:%x\<newline>'' [Num (of_nat i), Num (ucast (tf_cs tf)), Num (tf_eip tf)] s)
         else trap_default hw c tf s)"

text \<open>The end of \<open>trap\<close>: from the last test on, and from the first on.\<close>

definition trap_leave :: "'a usys_state_scheme services \<Rightarrow> nat \<Rightarrow> trapframe \<Rightarrow> 'a usys_state_scheme \<Rightarrow> 'a usys_state_scheme flow res" where
  "trap_leave sv c tf s =
     rbind (killed_user c tf s) (\<lambda>(killed, _, s). if killed then sys_exit sv c s else Ok (Back 0 s))"

definition trap_end :: "'a usys_state_scheme services \<Rightarrow> nat \<Rightarrow> trapframe \<Rightarrow> 'a usys_state_scheme \<Rightarrow> 'a usys_state_scheme flow res" where
  "trap_end sv c tf s =
     rbind (killed_user c tf s) (\<lambda>(killed, running, s).
     if killed then sys_exit sv c s
     else if running \<and> tf_trapno tf = T_IRQ0 + IRQ_TIMER \<and> ticks s mod SCHED_INTERVAL = 0 then
       rbind (yield_P4 c s) (\<lambda>s. Ok (Yielded s))
     else trap_leave sv c tf s)"

definition trap ::
  "'a usys_state_scheme services \<Rightarrow> (nat \<Rightarrow> 'a usys_state_scheme \<Rightarrow> 'a usys_state_scheme flow res) \<Rightarrow> uint list \<Rightarrow>
   'a usys_state_scheme hardware \<Rightarrow> nat \<Rightarrow> trapframe \<Rightarrow> 'a usys_state_scheme \<Rightarrow> 'a usys_state_scheme flow res" where
  "trap sv other cmos hw c tf s =
     (if tf_trapno tf = T_SYSCALL then
        with_cur c (\<lambda>p s.
          if p_killed (procs s p) then sys_exit sv c s
          else
            rbind (syscall sv other cmos c (upd_proc p (p_tf_update (\<lambda>_. tf)) s)) (\<lambda>r.
            case r of
              Back v s \<Rightarrow> rbind (killed_now c s) (\<lambda>(killed, s). if killed then sys_exit sv c s else Ok (Back 0 s))
            | _ \<Rightarrow> Ok r)) s
      else rbind (trap_irq hw c tf s) (trap_end sv c tf))"

section \<open>Arguments stay inside the process\<close>

lemma with_cur_eq:
  assumes "at_rest c s" "c_proc (cpus s c) = Some p"
  shows "with_cur c f s = f p (touched c s)"
  using assms at_rest_myproc [OF assms(1)] by (simp add: with_cur_def)

lemma touched_again [simp]: "touched c (touched c s) = touched c s"
  by (simp add: touched_def)

lemma touched_cur [simp]: "c_proc (cpus (touched c s) d) = c_proc (cpus s d)" "umem (touched c s) = umem s"
  by (simp_all add: touched_def)

text \<open>The value of argument \<open>n\<close>, if its word lies below \<open>sz\<close>.\<close>

definition arg_word :: "nat \<Rightarrow> uint \<Rightarrow> 'a usys_state_scheme \<Rightarrow> uint option" where
  "arg_word p n s =
     (let a = tf_esp (p_tf (procs s p)) + 4 + 4 * n; sz = p_sz (procs s p)
      in if sz \<le> a \<or> sz < a + 4 then None else Some (load32 (umem s) a))"

lemma argint_eq:
  assumes "at_rest c s" "c_proc (cpus s c) = Some p"
  shows "argint c n s = Ok (arg_word p n s, touched c s)"
  using assms by (simp add: argint_def with_cur_eq fetchint_def arg_word_def Let_def)

lemma argptr_eq:
  assumes "at_rest c s" "c_proc (cpus s c) = Some p"
  shows "argptr c n len s = Ok (case arg_word p n s of None \<Rightarrow> None | Some i \<Rightarrow>
    if len < 0 \<or> p_sz (procs s p) \<le> i \<or> p_sz (procs s p) < i + of_int len then None else Some i, touched c s)"
proof -
  have "arg_word p n (touched c s) = arg_word p n s" by (simp add: arg_word_def Let_def)
  then show ?thesis using assms by (simp add: argptr_def with_cur_eq argint_eq Let_def split: option.split)
qed

lemma no_wrap:
  fixes a b :: uint
  assumes "unat a + unat b < 2 ^ 32"
  shows "unat (a + b) = unat a + unat b"
  using assms unat_add_lem [of a b] by simp

lemma fetchstr_loop_spec:
  assumes "fetchstr_loop k m pp ep s = n" "0 \<le> n" "unat pp \<le> unat s" "unat s + k \<le> unat ep" "unat ep \<le> 2 ^ 31" "\<forall>i<unat s - unat pp. m (pp + of_nat i) \<noteq> 0"
  shows "unat pp + nat n < unat ep \<and> m (pp + of_int n) = 0 \<and> (\<forall>i<nat n. m (pp + of_nat i) \<noteq> 0)"
  using assms
proof (induction k arbitrary: s)
  case (Suc k)
  have lt: "unat s < unat ep" using Suc.prems(4) by linarith
  then have l: "s < ep" by (simp add: word_less_nat_alt)
  have d: "unat (s - pp) = unat s - unat pp" using Suc.prems(3) by (simp add: unat_sub word_le_nat_alt)
  have e: "s = pp + of_nat (unat s - unat pp)" 
  proof -
    have "word_of_nat (unat (s - pp)) = s - pp" by simp
    then show ?thesis unfolding d by simp
  qed
  show ?case
  proof (cases "m s = 0")
    case True
    then have n: "n = sint (s - pp)" using Suc.prems(1) l by simp
    have "unat (s - pp) < 2 ^ 31" using d lt Suc.prems(5) by linarith
    then have "sint (s - pp) = int (unat (s - pp))" by (intro sint_small_word)
    then have n': "n = int (unat s - unat pp)" using n d by simp
    have nn: "nat n = unat s - unat pp" and w: "of_int n = (of_nat (unat s - unat pp) :: uint)"
      by (simp_all only: n' nat_int of_int_of_nat_eq)
    show ?thesis unfolding nn w using True lt Suc.prems(3,6) e by simp
  next
    case False
    have s1: "unat (s + 1) = unat s + 1" using lt Suc.prems(5) no_wrap [of s 1] by simp
    have "\<forall>i<unat (s + 1) - unat pp. m (pp + of_nat i) \<noteq> 0"
    proof (intro allI impI)
      fix i assume "i < unat (s + 1) - unat pp"
      then have "i < unat s - unat pp \<or> i = unat s - unat pp" using s1 Suc.prems(3) by linarith
      then show "m (pp + of_nat i) \<noteq> 0" using Suc.prems(6) False e by auto
    qed
    then show ?thesis using Suc.prems False l s1 by (intro Suc.IH [of "s + 1"]) auto
  qed
qed simp

section \<open>Properties\<close>

text \<open>
  Property C40. A pointer that \<open>argptr\<close> accepts is safe to use: for a process of at most \<open>KERNBASE\<close> bytes, every one of the
  \<open>len\<close> bytes from the pointer on lies inside the process, no address computation wraps around, and the argument itself was
  read from inside the process; a negative length is never accepted. A string that \<open>fetchstr\<close> accepts ends inside the
  process, and the length it returns is that of the string.
\<close>

theorem arguments_inside_process:
  fixes s :: "'a usys_state_scheme"
  assumes r: "at_rest c s" "c_proc (cpus s c) = Some p" and sz: "unat (p_sz (procs s p)) \<le> 2 ^ 31" and len: "len < 2 ^ 31"
  shows "(argptr c n len s = Ok (Some a, t) \<longrightarrow> 0 \<le> len \<and> arg_word p n s = Some a \<and> procs t = procs s \<and> umem t = umem s \<and>
      (\<forall>i<nat len. unat (a + of_nat i) = unat a + i \<and> unat a + i < unat (p_sz (procs s p)))) \<and>
    (fetchstr c a s = Ok ((l, b), t) \<longrightarrow> 0 \<le> l \<longrightarrow>
      b = a \<and> unat a + nat l < unat (p_sz (procs s p)) \<and> umem s (a + of_int l) = 0 \<and> (\<forall>i<nat l. umem s (a + of_nat i) \<noteq> 0))"
proof (intro conjI impI)
  let ?sz = "p_sz (procs s p)"
  assume e: "argptr c n len s = Ok (Some a, t)"
  then have a: "0 \<le> len" "arg_word p n s = Some a" "a < ?sz" "a + of_int len \<le> ?sz" "t = touched c s"
    unfolding argptr_eq [OF r] by (auto split: option.splits if_splits)
  then show "0 \<le> len" "arg_word p n s = Some a" "procs t = procs s" "umem t = umem s" by simp_all
  have "(of_int len :: uint) = of_nat (nat len)" using a(1) by simp
  moreover have "unat (of_nat (nat len) :: uint) = nat len" using len by (simp add: unat_of_nat take_bit_nat_eq_self)
  ultimately have l: "unat (of_int len :: uint) = nat len" by (simp only:)
  have lt: "unat a < unat ?sz" using a(3) by (simp add: word_less_nat_alt)
  then have "unat (a + of_int len) = unat a + nat len" using no_wrap [of a "of_int len"] l sz len by simp
  then have le: "unat a + nat len \<le> unat ?sz" using a(4) by (simp add: word_le_nat_alt)
  show "\<forall>i<nat len. unat (a + of_nat i) = unat a + i \<and> unat a + i < unat ?sz"
  proof (intro allI impI)
    fix i assume i: "i < nat len"
    have "unat (of_nat i :: uint) = i" using i len by (simp add: unat_of_nat take_bit_nat_eq_self)
    then show "unat (a + of_nat i) = unat a + i \<and> unat a + i < unat ?sz" using no_wrap [of a "of_nat i"] i le sz by simp
  qed
next
  let ?sz = "p_sz (procs s p)"
  assume e: "fetchstr c a s = Ok ((l, b), t)" and l: "0 \<le> l"
  then have f: "b = a" "a < ?sz" "fetchstr_loop (unat ?sz - unat a) (umem s) a ?sz a = l"
    using r by (auto simp: fetchstr_def with_cur_eq Let_def split: if_splits)
  have "unat a < unat ?sz" using f(2) by (simp add: word_less_nat_alt)
  then have "unat a + nat l < unat ?sz \<and> umem s (a + of_int l) = 0 \<and> (\<forall>i<nat l. umem s (a + of_nat i) \<noteq> 0)"
    by (intro fetchstr_loop_spec [OF f(3) l]) (use sz in simp_all)
  then show "b = a" "unat a + nat l < unat ?sz" "umem s (a + of_int l) = 0" "\<forall>i<nat l. umem s (a + of_nat i) \<noteq> 0" using f(1) by simp_all
qed

definition sample_usys :: usys_state where
  "sample_usys = kmem_state.extend sample_kmem (usys_state.fields (store32 (\<lambda>_. 0) 4 4000))"

lemma sample_usys_rest: "at_rest 0 sample_usys" "c_proc (cpus sample_usys 0) = Some 0" "procs sample_usys = sample_proc"
  "umem sample_usys = store32 (\<lambda>_. 0) 4 4000"
proof -
  have f: "cpus sample_usys = cpus sample" "ncpu sample_usys = ncpu sample" "lapic_id sample_usys = lapic_id sample"
    "eflags_if sample_usys = eflags_if sample" "locks sample_usys = locks sample"
    by (simp_all add: sample_usys_def usys_state.defs kmem_state.defs sample_kmem_def cons_state.defs sample_cons_def kstate.defs sample_def)
  then show "at_rest 0 sample_usys" using sample_at_rest by (simp add: at_rest_def machine_ok_def lock_free_def)
  show "c_proc (cpus sample_usys 0) = Some 0" using f by simp
  show "procs sample_usys = sample_proc" "umem sample_usys = store32 (\<lambda>_. 0) 4 4000"
    by (simp_all add: sample_usys_def usys_state.defs kmem_state.defs sample_kmem_def cons_state.defs sample_cons_def kstate.defs sample_def)
qed

theorem arguments_inside_process_witness:
  "argptr 0 0 96 sample_usys = Ok (Some 4000, touched 0 sample_usys) \<and>
   unat ((4000 :: uint) + of_nat 95) = 4000 + 95 \<and> 4000 + 95 < unat (p_sz (procs sample_usys 0))"
proof -
  have w: "arg_word 0 0 sample_usys = Some 4000"
    by (simp add: arg_word_def sample_usys_rest user_proc_def blank_proc_def blank_tf_def Let_def)
  then have e: "argptr 0 0 96 sample_usys = Ok (Some 4000, touched 0 sample_usys)"
    by (simp add: argptr_eq [OF sample_usys_rest(1,2)] sample_usys_rest(3) user_proc_def)
  have sz: "unat (p_sz (procs sample_usys 0)) \<le> 2 ^ 31" by (simp add: sample_usys_rest(3) user_proc_def)
  have len: "(96 :: int) < 2 ^ 31" by simp
  from arguments_inside_process [OF sample_usys_rest(1,2) sz len, of 0 4000 "touched 0 sample_usys"] e
  have all: "\<forall>i<nat 96. unat ((4000 :: uint) + of_nat i) = unat (4000 :: uint) + i \<and> unat (4000 :: uint) + i < unat (p_sz (procs sample_usys 0))"
    by blast
  show ?thesis using e spec [OF all, of 95] by simp
qed

section \<open>Other facts about the calls\<close>

text \<open>Asking for a negative number of ticks is asking for more than two thousand million.\<close>

lemma sys_sleep_negative:
  fixes s :: "'a usys_state_scheme"
  assumes "at_rest c s" "c_proc (cpus s c) = Some p" "\<not> p_killed (procs s p)" "- (2 ^ 31) \<le> n" "n < 0" "unat (ticks s - ticks0) < 2 ^ 31"
  shows "sys_sleep_from c ticks0 n s = rbind (sleep_P4 c (Some Ch_ticks) None (touched c s)) (\<lambda>s. Ok (Asleep s))"
proof -
  have "uint (of_int n :: uint) = n + 2 ^ 32" 
  proof -
    have "n mod 2 ^ 32 = (n + 2 ^ 32) mod 2 ^ 32" by simp
    also have "\<dots> = n + 2 ^ 32" using assms(4,5) by (intro mod_pos_pos_trivial) simp_all
    finally show ?thesis by (simp add: uint_word_of_int_eq take_bit_int_def)
  qed
  then have "2 ^ 31 \<le> uint (of_int n :: uint)" using assms(4) by simp
  moreover have "uint (ticks s - ticks0) < 2 ^ 31" 
  proof -
    have "int (unat (ticks s - ticks0)) < int (2 ^ 31)" using assms(6) by (simp only: of_nat_less_iff)
    then show ?thesis by simp
  qed
  ultimately have "ticks s - ticks0 < of_int n" by (simp add: word_less_def)
  then show ?thesis using assms(1-3) by (simp add: sys_sleep_from_def with_cur_eq)
qed

text \<open>A call with a number that is not in the table prints a message and returns -1.\<close>

lemma syscall_unknown:
  fixes s :: "'a usys_state_scheme"
  assumes "at_rest c s" "c_proc (cpus s c) = Some p" "sint (tf_eax (p_tf (procs s p))) \<le> 0 \<or> 31 < sint (tf_eax (p_tf (procs s p)))"
  shows "syscall sv other cmos c s =
    rbind (cprintf c ''%d %s: unknown sys call %d\<newline>'' [Num (p_pid (procs s p)), Str (Some (p_name (procs s p))), Num (tf_eax (p_tf (procs s p)))]
      (touched c s)) (\<lambda>s. Ok (Back (-1) (set_eax p (-1) s)))"
proof -
  have "(if 0 < sint (tf_eax (p_tf (procs s p))) then sys_table sv other cmos c (nat (sint (tf_eax (p_tf (procs s p))))) else None) = None"
    using assms(3) by (auto simp: sys_table_def)
  then show ?thesis using assms(1,2) by (cases "0 < sint (tf_eax (p_tf (procs s p)))") (simp_all add: syscall_def with_cur_eq Let_def)
qed

text \<open>A tick of the clock outside the kernel kills a process that has been marked, before it can run on.\<close>

lemma trap_end_killed:
  fixes s :: "'a usys_state_scheme"
  assumes "at_rest c s" "c_proc (cpus s c) = Some p" "p_killed (procs s p)" "tf_cs tf AND 3 = DPL_USER"
  shows "trap_end sv c tf s = sys_exit sv c (touched c s)"
  using assms at_rest_myproc [OF assms(1)] by (simp add: trap_end_def killed_user_def)

end
