(* ===== verification/Fs.thy ===== *)
theory Fs
  imports Log
begin

text \<open>
  The file system (\<open>fs.c\<close>) over the log: the block allocator, inodes, their contents, directories and path names. As in the
  layers below, one caller runs at a time: the sections under \<open>icache.lock\<close> are one step, an inode's sleep lock is a flag,
  and waiting for a locked inode is \<open>Hang\<close>. A buffer of the caller is the list of its bytes; a pointer into the inode cache is
  an index, the null pointer is \<open>None\<close>. The device table \<open>devsw\<close>, which \<open>console.c\<close> fills in, is a parameter.
\<close>

section \<open>Data\<close>

definition ROOTDEV :: uint where "ROOTDEV = 1"
definition ROOTINO :: uint where "ROOTINO = 1"
definition NINODE :: nat where "NINODE = 50"
definition NDEV :: int where "NDEV = 10"
definition NDIRECT :: nat where "NDIRECT = 12"
definition NINDIRECT :: nat where "NINDIRECT = BSIZE div 4"
definition MAXFILE :: nat where "MAXFILE = NDIRECT + NINDIRECT"
definition IPB :: uint where "IPB = 8"
definition BPB :: nat where "BPB = BSIZE * 8"
definition DIRSIZ :: nat where "DIRSIZ = 14"
definition T_DIR :: ushort where "T_DIR = 1"
definition T_FILE :: ushort where "T_FILE = 2"
definition T_DEV :: ushort where "T_DEV = 3"

record superblock =
  sb_size :: uint
  sb_nblocks :: uint
  sb_ninodes :: uint
  sb_nlog :: uint
  sb_logstart :: uint
  sb_inodestart :: uint
  sb_bmapstart :: uint

definition super_of :: "block \<Rightarrow> superblock" where
  "super_of d = \<lparr>sb_size = get32 d 0, sb_nblocks = get32 d 4, sb_ninodes = get32 d 8, sb_nlog = get32 d 12,
     sb_logstart = get32 d 16, sb_inodestart = get32 d 20, sb_bmapstart = get32 d 24\<rparr>"

definition IBLOCK :: "uint \<Rightarrow> superblock \<Rightarrow> uint" where "IBLOCK i sp = i div IPB + sb_inodestart sp"
definition BBLOCK :: "uint \<Rightarrow> superblock \<Rightarrow> uint" where "BBLOCK b sp = b div of_nat BPB + sb_bmapstart sp"

record inode =
  i_dev :: uint
  i_inum :: uint
  i_ref :: int
  i_locked :: bool
  i_valid :: bool
  i_type :: ushort
  i_major :: ushort
  i_minor :: ushort
  i_nlink :: ushort
  i_size :: uint
  i_addrs :: "uint list"

record fs_state = log_state +
  sb :: superblock
  inodes :: "nat \<Rightarrow> inode"

definition upd_inode :: "nat \<Rightarrow> (inode \<Rightarrow> inode) \<Rightarrow> 'a fs_state_scheme \<Rightarrow> 'a fs_state_scheme" where
  "upd_inode ip f s = s\<lparr>inodes := (inodes s)(ip := f (inodes s ip))\<rparr>"

text \<open>What \<open>devsw\<close> offers for a device: its functions return a count, and reading the bytes.\<close>

record 's devsw =
  dv_read :: "int \<Rightarrow> (nat \<Rightarrow> uint \<Rightarrow> 's \<Rightarrow> (int \<times> uchar list \<times> 's) res) option"
  dv_write :: "int \<Rightarrow> (nat \<Rightarrow> uchar list \<Rightarrow> 's \<Rightarrow> (int \<times> 's) res) option"

text \<open>The on-disk inode \<open>struct dinode\<close> at offset \<open>a\<close> of a block: 64 bytes.\<close>

definition get16 :: "block \<Rightarrow> nat \<Rightarrow> ushort" where
  "get16 d a = ucast (d ! a) OR push_bit 8 (ucast (d ! (a + 1)))"

definition put16 :: "block \<Rightarrow> nat \<Rightarrow> ushort \<Rightarrow> block" where
  "put16 d a w = d[a := ucast w, a + 1 := ucast (drop_bit 8 w)]"

definition dinode_at :: "uint \<Rightarrow> nat" where "dinode_at inum = 64 * unat (inum mod IPB)"

definition load_dinode :: "block \<Rightarrow> nat \<Rightarrow> inode \<Rightarrow> inode" where
  "load_dinode d a ip = ip\<lparr>i_type := get16 d a, i_major := get16 d (a + 2), i_minor := get16 d (a + 4), i_nlink := get16 d (a + 6),
     i_size := get32 d (a + 8), i_addrs := map (\<lambda>k. get32 d (a + 12 + 4 * k)) [0..<NDIRECT + 1]\<rparr>"

fun put_words :: "block \<Rightarrow> nat \<Rightarrow> uint list \<Rightarrow> block" where
  "put_words d a [] = d"
| "put_words d a (w # ws) = put_words (put32 d a w) (a + 4) ws"

definition store_dinode :: "inode \<Rightarrow> nat \<Rightarrow> block \<Rightarrow> block" where
  "store_dinode ip a d =
     (let d = put16 d a (i_type ip);
          d = put16 d (a + 2) (i_major ip);
          d = put16 d (a + 4) (i_minor ip);
          d = put16 d (a + 6) (i_nlink ip);
          d = put32 d (a + 8) (i_size ip)
      in put_words d (a + 12) (i_addrs ip))"

section \<open>Blocks\<close>

text \<open>A held buffer gets new contents, is put into the log and released.\<close>

definition log_release :: "nat \<Rightarrow> (block \<Rightarrow> block) \<Rightarrow> 'a log_state_scheme \<Rightarrow> 'a log_state_scheme res" where
  "log_release bp f s = rbind (log_write bp (upd_buf bp (b_data_update f) s)) (brelse bp)"

definition bzero :: "uint \<Rightarrow> uint \<Rightarrow> 'a fs_state_scheme \<Rightarrow> 'a fs_state_scheme res" where
  "bzero dev bno s = rbind (bread dev bno s) (\<lambda>(bp, s). log_release bp (\<lambda>_. replicate BSIZE 0) s)"

definition bit_mask :: "nat \<Rightarrow> uchar" where "bit_mask bi = push_bit (bi mod 8) 1"

definition bit_used :: "block \<Rightarrow> nat \<Rightarrow> bool" where "bit_used d bi \<longleftrightarrow> d ! (bi div 8) AND bit_mask bi \<noteq> 0"

text \<open>The first clear bit of the map block for the blocks from \<open>b\<close> on.\<close>

definition free_bit :: "nat \<Rightarrow> nat \<Rightarrow> block \<Rightarrow> nat option" where
  "free_bit b sz d = find (\<lambda>bi. \<not> bit_used d bi) [0..<min BPB (sz - b)]"

text \<open>The counter \<open>b\<close> is an \<open>int\<close>: counting past \<open>2^31 - 1\<close> is undefined.\<close>

function balloc_loop :: "uint \<Rightarrow> nat \<Rightarrow> 'a fs_state_scheme \<Rightarrow> (uint \<times> 'a fs_state_scheme) res" where
  "balloc_loop dev b s =
     (if b < unat (sb_size (sb s)) then
        rbind (bread dev (BBLOCK (of_nat b) (sb s)) s) (\<lambda>(bp, s).
        case free_bit b (unat (sb_size (sb s))) (b_data (bufs s bp)) of
          Some bi \<Rightarrow>
            rbind (log_release bp (\<lambda>d. d[bi div 8 := d ! (bi div 8) OR bit_mask bi]) s) (\<lambda>s.
            rbind (bzero dev (of_nat (b + bi)) s) (\<lambda>s.
            Ok (of_nat (b + bi), s)))
        | None \<Rightarrow> rbind (brelse bp s) (\<lambda>s. if b + BPB < 2 ^ 31 then balloc_loop dev (b + BPB) s else Undef))
      else Panic ''balloc: out of blocks'')"
  by auto
termination by (relation "measure (\<lambda>(dev, b, s). 2 ^ 31 - b)") (auto simp: BPB_def BSIZE_def)

definition balloc :: "uint \<Rightarrow> 'a fs_state_scheme \<Rightarrow> (uint \<times> 'a fs_state_scheme) res" where
  "balloc dev s = balloc_loop dev 0 s"

definition bfree :: "uint \<Rightarrow> uint \<Rightarrow> 'a fs_state_scheme \<Rightarrow> 'a fs_state_scheme res" where
  "bfree dev b s =
     rbind (readsb dev s) (\<lambda>(d, s).
     let s = s\<lparr>sb := super_of d\<rparr>
     in rbind (bread dev (BBLOCK b (sb s)) s) (\<lambda>(bp, s).
        let bi = unat b mod BPB
        in if \<not> bit_used (b_data (bufs s bp)) bi then Panic ''freeing free block''
           else log_release bp (\<lambda>d. d[bi div 8 := d ! (bi div 8) AND NOT (bit_mask bi)]) s))"

section \<open>Inodes\<close>

text \<open>\<open>iinit\<close> also prints the fields of the super block: they are its result.\<close>

definition iinit :: "uint \<Rightarrow> 'a fs_state_scheme \<Rightarrow> (uint list \<times> 'a fs_state_scheme) res" where
  "iinit dev s =
     (let s = s\<lparr>inodes := (\<lambda>i. if i < NINODE then inodes s i\<lparr>i_locked := False\<rparr> else inodes s i)\<rparr>
      in rbind (readsb dev s) (\<lambda>(d, s).
         let s = s\<lparr>sb := super_of d\<rparr>
         in Ok ([sb_size (sb s), sb_nblocks (sb s), sb_ninodes (sb s), sb_nlog (sb s), sb_logstart (sb s),
                 sb_inodestart (sb s), sb_bmapstart (sb s)], s)))"

definition iget :: "uint \<Rightarrow> uint \<Rightarrow> 'a fs_state_scheme \<Rightarrow> (nat \<times> 'a fs_state_scheme) res" where
  "iget dev inum s =
     (case find (\<lambda>ip. 0 < i_ref (inodes s ip) \<and> i_dev (inodes s ip) = dev \<and> i_inum (inodes s ip) = inum) [0..<NINODE] of
        Some ip \<Rightarrow> Ok (ip, upd_inode ip (\<lambda>k. k\<lparr>i_ref := i_ref k + 1\<rparr>) s)
      | None \<Rightarrow>
          (case find (\<lambda>ip. i_ref (inodes s ip) = 0) [0..<NINODE] of
             None \<Rightarrow> Panic ''iget: no inodes''
           | Some ip \<Rightarrow> Ok (ip, upd_inode ip (\<lambda>k. k\<lparr>i_dev := dev, i_inum := inum, i_ref := 1, i_valid := False\<rparr>) s)))"

function ialloc_loop :: "uint \<Rightarrow> ushort \<Rightarrow> nat \<Rightarrow> 'a fs_state_scheme \<Rightarrow> (nat \<times> 'a fs_state_scheme) res" where
  "ialloc_loop dev type inum s =
     (if inum < unat (sb_ninodes (sb s)) then
        rbind (bread dev (IBLOCK (of_nat inum) (sb s)) s) (\<lambda>(bp, s).
        let a = dinode_at (of_nat inum)
        in if get16 (b_data (bufs s bp)) a = 0 then
             rbind (log_release bp (\<lambda>d. put16 (take a d @ replicate 64 0 @ drop (a + 64) d) a type) s) (\<lambda>s.
             iget dev (of_nat inum) s)
           else rbind (brelse bp s) (\<lambda>s. if inum + 1 < 2 ^ 31 then ialloc_loop dev type (inum + 1) s else Undef))
      else Panic ''ialloc: no inodes'')"
  by auto
termination by (relation "measure (\<lambda>(dev, type, inum, s). 2 ^ 31 - inum)") auto

definition ialloc :: "uint \<Rightarrow> ushort \<Rightarrow> 'a fs_state_scheme \<Rightarrow> (nat \<times> 'a fs_state_scheme) res" where
  "ialloc dev type s = ialloc_loop dev type 1 s"

definition iupdate :: "nat \<Rightarrow> 'a fs_state_scheme \<Rightarrow> 'a fs_state_scheme res" where
  "iupdate ip s =
     rbind (bread (i_dev (inodes s ip)) (IBLOCK (i_inum (inodes s ip)) (sb s)) s) (\<lambda>(bp, s).
     log_release bp (store_dinode (inodes s ip) (dinode_at (i_inum (inodes s ip)))) s)"

text \<open>A null pointer is followed: undefined.\<close>

definition idup :: "nat option \<Rightarrow> 'a fs_state_scheme \<Rightarrow> (nat \<times> 'a fs_state_scheme) res" where
  "idup p s = (case p of None \<Rightarrow> Undef | Some ip \<Rightarrow> Ok (ip, upd_inode ip (\<lambda>k. k\<lparr>i_ref := i_ref k + 1\<rparr>) s))"

definition acquire_inode :: "nat \<Rightarrow> 'a fs_state_scheme \<Rightarrow> 'a fs_state_scheme res" where
  "acquire_inode ip s = (if i_locked (inodes s ip) then Hang else Ok (upd_inode ip (i_locked_update (\<lambda>_. True)) s))"

definition ilock :: "nat option \<Rightarrow> 'a fs_state_scheme \<Rightarrow> 'a fs_state_scheme res" where
  "ilock p s =
     (case p of
        None \<Rightarrow> Panic ''ilock''
      | Some ip \<Rightarrow>
          if i_ref (inodes s ip) < 1 then Panic ''ilock''
          else
            rbind (acquire_inode ip s) (\<lambda>s.
            if i_valid (inodes s ip) then Ok s
            else
              rbind (bread (i_dev (inodes s ip)) (IBLOCK (i_inum (inodes s ip)) (sb s)) s) (\<lambda>(bp, s).
              let d = b_data (bufs s bp);
                  s = upd_inode ip (load_dinode d (dinode_at (i_inum (inodes s ip)))) s
              in rbind (brelse bp s) (\<lambda>s.
                 let s = upd_inode ip (i_valid_update (\<lambda>_. True)) s
                 in if i_type (inodes s ip) = 0 then Panic ''ilock: no type'' else Ok s))))"

definition iunlock :: "nat option \<Rightarrow> 'a fs_state_scheme \<Rightarrow> 'a fs_state_scheme res" where
  "iunlock p s =
     (case p of
        None \<Rightarrow> Panic ''iunlock''
      | Some ip \<Rightarrow>
          if \<not> i_locked (inodes s ip) \<or> i_ref (inodes s ip) < 1 then Panic ''iunlock''
          else Ok (upd_inode ip (i_locked_update (\<lambda>_. False)) s))"

fun itrunc_direct :: "nat list \<Rightarrow> nat \<Rightarrow> 'a fs_state_scheme \<Rightarrow> 'a fs_state_scheme res" where
  "itrunc_direct [] ip s = Ok s"
| "itrunc_direct (i # is) ip s =
     (if i_addrs (inodes s ip) ! i \<noteq> 0 then
        rbind (bfree (i_dev (inodes s ip)) (i_addrs (inodes s ip) ! i) s) (\<lambda>s.
        itrunc_direct is ip (upd_inode ip (i_addrs_update (\<lambda>a. a[i := 0])) s))
      else itrunc_direct is ip s)"

fun itrunc_indirect :: "nat list \<Rightarrow> uint \<Rightarrow> nat \<Rightarrow> 'a fs_state_scheme \<Rightarrow> 'a fs_state_scheme res" where
  "itrunc_indirect [] dev bp s = Ok s"
| "itrunc_indirect (j # js) dev bp s =
     (let a = get32 (b_data (bufs s bp)) (4 * j)
      in if a \<noteq> 0 then rbind (bfree dev a s) (itrunc_indirect js dev bp) else itrunc_indirect js dev bp s)"

definition itrunc :: "nat \<Rightarrow> 'a fs_state_scheme \<Rightarrow> 'a fs_state_scheme res" where
  "itrunc ip s =
     rbind (itrunc_direct [0..<NDIRECT] ip s) (\<lambda>s.
     rbind (if i_addrs (inodes s ip) ! NDIRECT \<noteq> 0 then
              rbind (bread (i_dev (inodes s ip)) (i_addrs (inodes s ip) ! NDIRECT) s) (\<lambda>(bp, s).
              rbind (itrunc_indirect [0..<NINDIRECT] (i_dev (inodes s ip)) bp s) (\<lambda>s.
              rbind (brelse bp s) (\<lambda>s.
              rbind (bfree (i_dev (inodes s ip)) (i_addrs (inodes s ip) ! NDIRECT) s) (\<lambda>s.
              Ok (upd_inode ip (i_addrs_update (\<lambda>a. a[NDIRECT := 0])) s)))))
            else Ok s) (\<lambda>s.
     iupdate ip (upd_inode ip (i_size_update (\<lambda>_. 0)) s)))"

definition iput :: "nat option \<Rightarrow> 'a fs_state_scheme \<Rightarrow> 'a fs_state_scheme res" where
  "iput p s =
     (case p of
        None \<Rightarrow> Undef
      | Some ip \<Rightarrow>
          rbind (acquire_inode ip s) (\<lambda>s.
          rbind (if i_valid (inodes s ip) \<and> i_nlink (inodes s ip) = 0 \<and> i_ref (inodes s ip) = 1 then
                   rbind (itrunc ip s) (\<lambda>s.
                   rbind (iupdate ip (upd_inode ip (i_type_update (\<lambda>_. 0)) s)) (\<lambda>s.
                   Ok (upd_inode ip (i_valid_update (\<lambda>_. False)) s)))
                 else Ok s) (\<lambda>s.
          Ok (upd_inode ip (\<lambda>k. k\<lparr>i_locked := False, i_ref := i_ref k - 1\<rparr>) s))))"

definition iunlockput :: "nat option \<Rightarrow> 'a fs_state_scheme \<Rightarrow> 'a fs_state_scheme res" where
  "iunlockput p s = rbind (iunlock p s) (iput p)"

section \<open>Contents\<close>

text \<open>The address in \<open>ip->addrs[i]\<close>, allocated if there is none; then the same for entry \<open>j\<close> of the indirect block.\<close>

definition bmap_addr :: "nat \<Rightarrow> nat \<Rightarrow> 'a fs_state_scheme \<Rightarrow> (uint \<times> 'a fs_state_scheme) res" where
  "bmap_addr ip i s =
     (if i_addrs (inodes s ip) ! i = 0 then
        rbind (balloc (i_dev (inodes s ip)) s) (\<lambda>(addr, s).
        Ok (addr, upd_inode ip (i_addrs_update (\<lambda>a. a[i := addr])) s))
      else Ok (i_addrs (inodes s ip) ! i, s))"

definition bmap_entry :: "nat \<Rightarrow> uint \<Rightarrow> nat \<Rightarrow> 'a fs_state_scheme \<Rightarrow> (uint \<times> 'a fs_state_scheme) res" where
  "bmap_entry ip addr j s =
     rbind (bread (i_dev (inodes s ip)) addr s) (\<lambda>(bp, s).
     let addr = get32 (b_data (bufs s bp)) (4 * j)
     in if addr = 0 then
          rbind (balloc (i_dev (inodes s ip)) s) (\<lambda>(addr, s).
          rbind (log_release bp (\<lambda>d. put32 d (4 * j) addr) s) (\<lambda>s.
          Ok (addr, s)))
        else rbind (brelse bp s) (\<lambda>s. Ok (addr, s)))"

definition bmap :: "nat \<Rightarrow> uint \<Rightarrow> 'a fs_state_scheme \<Rightarrow> (uint \<times> 'a fs_state_scheme) res" where
  "bmap ip bn s =
     (if unat bn < NDIRECT then bmap_addr ip (unat bn) s
      else
        let bn = bn - of_nat NDIRECT
        in if unat bn < NINDIRECT then rbind (bmap_addr ip NDIRECT s) (\<lambda>(addr, s). bmap_entry ip addr (unat bn) s)
           else Panic ''bmap: out of range'')"

record stat =
  st_type :: ushort
  st_dev :: uint
  st_ino :: uint
  st_nlink :: ushort
  st_size :: uint

definition stati :: "nat \<Rightarrow> 'a fs_state_scheme \<Rightarrow> stat" where
  "stati ip s = \<lparr>st_type = i_type (inodes s ip), st_dev = i_dev (inodes s ip), st_ino = i_inum (inodes s ip),
     st_nlink = i_nlink (inodes s ip), st_size = i_size (inodes s ip)\<rparr>"

text \<open>The loop of \<open>readi\<close> with \<open>left = n - tot\<close> bytes to go; it returns the bytes put at \<open>dst\<close>.\<close>

definition chunk :: "uint \<Rightarrow> nat \<Rightarrow> nat" where
  "chunk off left = min left (BSIZE - unat off mod BSIZE)"

lemma chunk_bounds: "chunk off left \<le> left" "0 < left \<Longrightarrow> 0 < chunk off left"
  by (auto simp: chunk_def BSIZE_def)

function readi_loop :: "nat \<Rightarrow> uint \<Rightarrow> nat \<Rightarrow> 'a fs_state_scheme \<Rightarrow> (uchar list \<times> 'a fs_state_scheme) res" where
  "readi_loop ip off left s =
     (if 0 < left then
        rbind (bmap ip (off div of_nat BSIZE) s) (\<lambda>(addr, s).
        rbind (bread (i_dev (inodes s ip)) addr s) (\<lambda>(bp, s).
        let m = chunk off left;
            xs = take m (drop (unat off mod BSIZE) (b_data (bufs s bp)))
        in rbind (brelse bp s) (\<lambda>s.
           rbind (readi_loop ip (off + of_nat m) (left - m) s) (\<lambda>(ys, s).
           Ok (xs @ ys, s)))))
      else Ok ([], s))"
  by auto
termination using chunk_bounds by (relation "measure (\<lambda>(ip, off, left, s). left)") auto

definition readi :: "'a fs_state_scheme devsw \<Rightarrow> nat \<Rightarrow> uint \<Rightarrow> uint \<Rightarrow> 'a fs_state_scheme \<Rightarrow> (int \<times> uchar list \<times> 'a fs_state_scheme) res" where
  "readi dv ip off n s =
     (let k = inodes s ip
      in if i_type k = T_DEV then
           if sint (i_major k) < 0 \<or> NDEV \<le> sint (i_major k) then Ok (-1, [], s)
           else (case dv_read dv (sint (i_major k)) of None \<Rightarrow> Ok (-1, [], s) | Some f \<Rightarrow> f ip n s)
         else if i_size k < off \<or> off + n < off then Ok (-1, [], s)
         else
           let n = (if i_size k < off + n then i_size k - off else n)
           in rbind (readi_loop ip off (unat n) s) (\<lambda>(ys, s). Ok (sint n, ys, s)))"

function writei_loop :: "nat \<Rightarrow> uchar list \<Rightarrow> uint \<Rightarrow> 'a fs_state_scheme \<Rightarrow> (uint \<times> 'a fs_state_scheme) res" where
  "writei_loop ip src off s =
     (if src \<noteq> [] then
        rbind (bmap ip (off div of_nat BSIZE) s) (\<lambda>(addr, s).
        rbind (bread (i_dev (inodes s ip)) addr s) (\<lambda>(bp, s).
        let m = chunk off (length src); o1 = unat off mod BSIZE
        in rbind (log_release bp (\<lambda>d. take o1 d @ take m src @ drop (o1 + m) d) s) (\<lambda>s.
           writei_loop ip (drop m src) (off + of_nat m) s)))
      else Ok (off, s))"
  by auto
termination using chunk_bounds(2) by (relation "measure (\<lambda>(ip, src, off, s). length src)") auto

text \<open>The caller's \<open>n\<close> bytes at \<open>src\<close> are a list.\<close>

definition writei :: "'a fs_state_scheme devsw \<Rightarrow> nat \<Rightarrow> uchar list \<Rightarrow> uint \<Rightarrow> 'a fs_state_scheme \<Rightarrow> (int \<times> 'a fs_state_scheme) res" where
  "writei dv ip src off s =
     (let k = inodes s ip; n = of_nat (length src) :: uint
      in if i_type k = T_DEV then
           if sint (i_major k) < 0 \<or> NDEV \<le> sint (i_major k) then Ok (-1, s)
           else (case dv_write dv (sint (i_major k)) of None \<Rightarrow> Ok (-1, s) | Some f \<Rightarrow> f ip src s)
         else if i_size k < off \<or> off + n < off then Ok (-1, s)
         else if of_nat (MAXFILE * BSIZE) < off + n then Ok (-1, s)
         else
           rbind (writei_loop ip src off s) (\<lambda>(off, s).
           rbind (if 0 < n \<and> i_size (inodes s ip) < off then iupdate ip (upd_inode ip (i_size_update (\<lambda>_. off)) s) else Ok s) (\<lambda>s.
           Ok (sint n, s))))"

section \<open>Directories\<close>

text \<open>\<open>strncmp\<close> on strings as lists of bytes: at the end of the list it reads the terminating 0.\<close>

fun namecmp_loop :: "nat \<Rightarrow> uchar list \<Rightarrow> uchar list \<Rightarrow> int" where
  "namecmp_loop 0 p q = 0"
| "namecmp_loop (Suc n) p q =
     (let a = (case p of [] \<Rightarrow> 0 | x # _ \<Rightarrow> x); b = (case q of [] \<Rightarrow> 0 | x # _ \<Rightarrow> x)
      in if a \<noteq> 0 \<and> a = b then namecmp_loop n (tl p) (tl q) else uint a - uint b)"

definition namecmp :: "uchar list \<Rightarrow> uchar list \<Rightarrow> int" where
  "namecmp s t = namecmp_loop DIRSIZ s t"

text \<open>A \<open>struct dirent\<close> is 16 bytes: the inode number and the name.\<close>

definition de_inum :: "uchar list \<Rightarrow> ushort" where "de_inum de = get16 de 0"
definition de_name :: "uchar list \<Rightarrow> uchar list" where "de_name de = drop 2 de"

definition make_dirent :: "uchar list \<Rightarrow> uint \<Rightarrow> uchar list" where
  "make_dirent name inum =
     put16 [0, 0] 0 (ucast inum) @ (let x = take DIRSIZ (takeWhile (\<lambda>c. c \<noteq> 0) name) in x @ replicate (DIRSIZ - length x) 0)"

text \<open>Past the last offset a 32-bit counter can hold the scan starts again, for ever.\<close>

function dirlookup_loop :: "'a fs_state_scheme devsw \<Rightarrow> nat \<Rightarrow> uchar list \<Rightarrow> uint \<Rightarrow> 'a fs_state_scheme \<Rightarrow>
    ((nat \<times> uint) option \<times> 'a fs_state_scheme) res" where
  "dirlookup_loop dv dp name off s =
     (if off < i_size (inodes s dp) then
        rbind (readi dv dp off 16 s) (\<lambda>(r, de, s).
        if r \<noteq> 16 then Panic ''dirlookup read''
        else if de_inum de \<noteq> 0 \<and> namecmp name (de_name de) = 0 then
          rbind (iget (i_dev (inodes s dp)) (ucast (de_inum de)) s) (\<lambda>(ip, s). Ok (Some (ip, off), s))
        else if unat off + 16 < 2 ^ 32 then dirlookup_loop dv dp name (off + 16) s
        else Hang)
      else Ok (None, s))"
  by auto
termination
proof (relation "measure (\<lambda>(dv, dp, name, off, s). 2 ^ 32 - unat off)", goal_cases)
  case (2 dv dp name off s)
  then have "unat (off + 16) = unat off + 16" by (simp add: unat_add_lem [THEN iffD1])
  then show ?case using 2 by simp
qed simp

definition dirlookup :: "'a fs_state_scheme devsw \<Rightarrow> nat \<Rightarrow> uchar list \<Rightarrow> 'a fs_state_scheme \<Rightarrow>
    ((nat \<times> uint) option \<times> 'a fs_state_scheme) res" where
  "dirlookup dv dp name s =
     (if i_type (inodes s dp) \<noteq> T_DIR then Panic ''dirlookup not DIR'' else dirlookup_loop dv dp name 0 s)"

text \<open>The offset of the first entry with number 0, or the end; here the counter is an \<open>int\<close>.\<close>

function dirlink_loop :: "'a fs_state_scheme devsw \<Rightarrow> nat \<Rightarrow> nat \<Rightarrow> 'a fs_state_scheme \<Rightarrow> (nat \<times> 'a fs_state_scheme) res" where
  "dirlink_loop dv dp off s =
     (if off < unat (i_size (inodes s dp)) then
        rbind (readi dv dp (of_nat off) 16 s) (\<lambda>(r, de, s).
        if r \<noteq> 16 then Panic ''dirlink read''
        else if de_inum de = 0 then Ok (off, s)
        else if off + 16 < 2 ^ 31 then dirlink_loop dv dp (off + 16) s
        else Undef)
      else Ok (off, s))"
  by auto
termination by (relation "measure (\<lambda>(dv, dp, off, s). 2 ^ 31 - off)") auto

definition dirlink :: "'a fs_state_scheme devsw \<Rightarrow> nat \<Rightarrow> uchar list \<Rightarrow> uint \<Rightarrow> 'a fs_state_scheme \<Rightarrow> (int \<times> 'a fs_state_scheme) res" where
  "dirlink dv dp name inum s =
     rbind (dirlookup dv dp name s) (\<lambda>(r, s).
     case r of
       Some (ip, _) \<Rightarrow> rbind (iput (Some ip) s) (\<lambda>s. Ok (-1, s))
     | None \<Rightarrow>
         rbind (dirlink_loop dv dp 0 s) (\<lambda>(off, s).
         rbind (writei dv dp (make_dirent name inum) (of_nat off) s) (\<lambda>(r, s).
         if r \<noteq> 16 then Panic ''dirlink'' else Ok (0, s))))"

section \<open>Paths\<close>

text \<open>\<open>skipelem\<close> overwrites the caller's \<open>DIRSIZ\<close> bytes \<open>name\<close>; 47 is the slash.\<close>

definition skipelem :: "uchar list \<Rightarrow> uchar list \<Rightarrow> (uchar list \<times> uchar list) option" where
  "skipelem path name =
     (let path = dropWhile (\<lambda>c. c = 47) path
      in if path = [] then None
         else
           let e = takeWhile (\<lambda>c. c \<noteq> 47) path
           in Some (dropWhile (\<lambda>c. c = 47) (drop (length e) path),
                if DIRSIZ \<le> length e then take DIRSIZ e else e @ 0 # drop (length e + 1) name))"

lemma skipelem_shorter: "skipelem path name = Some (path', name') \<Longrightarrow> length path' < length path"
proof -
  assume a: "skipelem path name = Some (path', name')"
  let ?p = "dropWhile (\<lambda>c. c = 47) path"
  from a have p: "?p \<noteq> []" and e: "path' = dropWhile (\<lambda>c. c = 47) (drop (length (takeWhile (\<lambda>c. c \<noteq> 47) ?p)) ?p)"
    by (auto simp: skipelem_def Let_def split: if_splits)
  from p have "0 < length (takeWhile (\<lambda>c. c \<noteq> 47) ?p)" using hd_dropWhile [OF p] by (cases ?p) auto
  then have "length (drop (length (takeWhile (\<lambda>c. c \<noteq> 47) ?p)) ?p) < length ?p" using p by simp
  moreover have "length path' \<le> length (drop (length (takeWhile (\<lambda>c. c \<noteq> 47) ?p)) ?p)" unfolding e by (rule length_dropWhile_le)
  ultimately show ?thesis using length_dropWhile_le [of "\<lambda>c. c = 47" path] by linarith
qed

function namex_loop :: "'a fs_state_scheme devsw \<Rightarrow> bool \<Rightarrow> nat \<Rightarrow> uchar list \<Rightarrow> uchar list \<Rightarrow> 'a fs_state_scheme \<Rightarrow>
    (nat option \<times> uchar list \<times> 'a fs_state_scheme) res" where
  "namex_loop dv par ip path name s =
     (case skipelem path name of
        None \<Rightarrow> if par then rbind (iput (Some ip) s) (\<lambda>s. Ok (None, name, s)) else Ok (Some ip, name, s)
      | Some (path, name) \<Rightarrow>
          rbind (ilock (Some ip) s) (\<lambda>s.
          if i_type (inodes s ip) \<noteq> T_DIR then rbind (iunlockput (Some ip) s) (\<lambda>s. Ok (None, name, s))
          else if par \<and> path = [] then rbind (iunlock (Some ip) s) (\<lambda>s. Ok (Some ip, name, s))
          else
            rbind (dirlookup dv ip name s) (\<lambda>(r, s).
            rbind (iunlockput (Some ip) s) (\<lambda>s.
            case r of
              None \<Rightarrow> Ok (None, name, s)
            | Some (next, _) \<Rightarrow> namex_loop dv par next path name s))))"
  by auto
termination by (relation "measure (\<lambda>(dv, par, ip, path, name, s). length path)") (auto dest: skipelem_shorter)

text \<open>\<open>cwd\<close> is the current directory of the calling process.\<close>

definition namex :: "'a fs_state_scheme devsw \<Rightarrow> nat option \<Rightarrow> uchar list \<Rightarrow> bool \<Rightarrow> uchar list \<Rightarrow> 'a fs_state_scheme \<Rightarrow>
    (nat option \<times> uchar list \<times> 'a fs_state_scheme) res" where
  "namex dv cwd path par name s =
     rbind (if path \<noteq> [] \<and> hd path = 47 then iget ROOTDEV ROOTINO s else idup cwd s) (\<lambda>(ip, s).
     namex_loop dv par ip path name s)"

text \<open>The local \<open>name\<close> of \<open>namei\<close> starts out with any bytes: nothing reads one that \<open>skipelem\<close> has not written.\<close>

definition namei :: "'a fs_state_scheme devsw \<Rightarrow> nat option \<Rightarrow> uchar list \<Rightarrow> 'a fs_state_scheme \<Rightarrow> (nat option \<times> 'a fs_state_scheme) res" where
  "namei dv cwd path s = rbind (namex dv cwd path False (replicate DIRSIZ 0) s) (\<lambda>(ip, _, s). Ok (ip, s))"

definition nameiparent :: "'a fs_state_scheme devsw \<Rightarrow> nat option \<Rightarrow> uchar list \<Rightarrow> uchar list \<Rightarrow> 'a fs_state_scheme \<Rightarrow>
    (nat option \<times> uchar list \<times> 'a fs_state_scheme) res" where
  "nameiparent dv cwd path name s = namex dv cwd path True name s"

declare balloc_loop.simps [simp del] ialloc_loop.simps [simp del] readi_loop.simps [simp del] writei_loop.simps [simp del]
  dirlookup_loop.simps [simp del] dirlink_loop.simps [simp del] namex_loop.simps [simp del]

end
