(* ===== verification/Fs_Blocks.thy ===== *)
theory Fs_Blocks
  imports Fs
begin

text \<open>
  File system code inside a transaction. \<open>intx r W V H I s\<close> describes a state \<open>s\<close> of a transaction that began in \<open>r\<close>: the
  blocks as the code sees them are \<open>V\<close>, the buffers it holds \<open>H\<close>, the inode cache \<open>I\<close>, and \<open>W\<close> accounts for the blocks in the
  log, with room for them. Then the block allocator on that view: what \<open>balloc\<close> and \<open>bfree\<close> do to the free map.
\<close>

section \<open>Transactions\<close>

definition logged :: "'a log_state_scheme \<Rightarrow> uint set" where
  "logged s = lh_block s ` {..<nat (lh_n s)}"

definition tx_same :: "'a fs_state_scheme \<Rightarrow> 'a fs_state_scheme \<Rightarrow> bool" where
  "tx_same r s \<longleftrightarrow> l_size s = l_size r \<and> l_outstanding s = l_outstanding r \<and> l_committing s = l_committing r \<and>
     diskwrites s = diskwrites r \<and> sb s = sb r \<and> fs_state.more s = fs_state.more r"

text \<open>The blocks \<open>W\<close> fit into the log of \<open>r\<close>, with the one block to spare that a reader needs.\<close>

definition room :: "'a fs_state_scheme \<Rightarrow> uint set \<Rightarrow> bool" where
  "room r W \<longleftrightarrow> finite W \<and> int (card W) < l_size r - 1 \<and> l_size r \<le> LOGSIZE \<and> 1 \<le> l_outstanding r \<and>
     (\<forall>b\<in>W. b < FSSIZE \<and> \<not> in_log (l_start r) b)"

definition intx :: "'a fs_state_scheme \<Rightarrow> uint set \<Rightarrow> (uint \<Rightarrow> block) \<Rightarrow> (uint \<rightharpoonup> nat) \<Rightarrow> (nat \<Rightarrow> inode) \<Rightarrow> 'a fs_state_scheme \<Rightarrow> bool" where
  "intx r W V H I s \<longleftrightarrow> log_ok (l_start r) V (disk r 1) H s \<and> tx_same r s \<and> inodes s = I \<and> room r W \<and> logged s \<subseteq> W \<and>
     card (dom H \<union> W) < NBUF \<and> (\<forall>b. b \<in> logged s \<or> V b = disk r 1 b) \<and> (\<forall>b. length (V b) = BSIZE)"

lemma intxD:
  assumes "intx r W V H I s"
  shows "log_ok (l_start r) V (disk r 1) H s" "tx_same r s" "inodes s = I" "room r W" "logged s \<subseteq> W" "card (dom H \<union> W) < NBUF"
    "b \<in> logged s \<or> V b = disk r 1 b" "length (V b) = BSIZE" "bc s V (disk r 1) H (logged s)" "no_err s" "sb s = sb r" "finite (dom H)"
    "l_start s = l_start r"
proof -
  show i: "log_ok (l_start r) V (disk r 1) H s" "tx_same r s" "inodes s = I" "room r W" "logged s \<subseteq> W" "card (dom H \<union> W) < NBUF"
    "b \<in> logged s \<or> V b = disk r 1 b" "length (V b) = BSIZE" using assms by (simp_all add: intx_def)
  show bc: "bc s V (disk r 1) H (logged s)" "no_err s" "l_start s = l_start r" using i(1) by (simp_all add: log_ok_def log_at_def logged_def)
  show "sb s = sb r" using i(2) by (simp add: tx_same_def)
  have "dom H \<subseteq> (\<lambda>i. b_blockno (bufs s i)) ` {..<NBUF}"
  proof
    fix b assume "b \<in> dom H"
    then obtain i where "H b = Some i" by blast
    then show "b \<in> (\<lambda>i. b_blockno (bufs s i)) ` {..<NBUF}" using bc_held(1,2) [OF bc(1), of b i] by (auto simp: caches_def)
  qed
  then show "finite (dom H)" by (rule finite_subset) simp
qed

lemma more_same:
  fixes s t :: "'a fs_state_scheme"
  assumes "rest_same s t"
  shows "sb t = sb s" "inodes t = inodes s" "fs_state.more t = fs_state.more s" "logged t = logged s"
  using assms by (cases s; cases t; simp add: rest_same_def logged_def)+

lemma roomD:
  assumes "room r W"
  shows "finite W" "card W \<le> 28" "b \<in> W \<Longrightarrow> b < FSSIZE" "b \<in> W \<Longrightarrow> \<not> in_log (l_start r) b"
  using assms by (auto simp: room_def LOGSIZE_def MAXOPBLOCKS_def)

text \<open>The cache moves on, the log stays.\<close>

lemma intx_rest:
  assumes x: "intx r W V H I s" and bc: "bc t V (disk r 1) H' (logged s)" and rs: "rest_same s t" "diskwrites t = diskwrites s"
    and c: "card (dom H' \<union> W) < NBUF"
  shows "intx r W V H' I t"
proof -
  note X = intxD [OF x]
  have "log_ok (l_start r) V (disk r 1) H' t" using log_ok_change [OF X(1) _ rs(1)] bc by (simp add: logged_def)
  moreover have "tx_same r t" using X(2) log_sel [OF rs(1)] more_same [OF rs(1)] rs(2) by (simp add: tx_same_def)
  ultimately show ?thesis using X(3-8) more_same [OF rs(1)] c by (simp add: intx_def)
qed

lemma intx_bread:
  assumes x: "intx r W V H I s" and b: "H b = None" "b < FSSIZE" "dom H \<subseteq> W \<or> b \<in> W"
    and k: "\<And>i t. intx r W V (H(b \<mapsto> i)) I t \<Longrightarrow> b_data (bufs t i) = V b \<Longrightarrow> wp (F (i, t)) Q"
  shows "wp (rbind (bread 1 b s) F) Q"
proof -
  note X = intxD [OF x] and R = roomD [OF intxD(4) [OF x]]
  have c: "card (insert b (dom H) \<union> W) < NBUF"
  proof (cases "b \<in> W")
    case True
    then have "insert b (dom H) \<union> W = dom H \<union> W" by auto
    then show ?thesis using X(6) by simp
  next
    case False
    then have "insert b (dom H) \<union> W = insert b W" using b(3) by auto
    then show ?thesis using R(1,2) by (simp add: card_insert_if NBUF_def)
  qed
  have "card (insert b (dom H \<union> logged s)) \<le> card (insert b (dom H) \<union> W)" using X(5,12) R(1) by (intro card_mono) auto
  moreover have "finite (logged s)" by (simp add: logged_def)
  ultimately have "wp (bread 1 b s) (\<lambda>(i, t). bc t V (disk r 1) (H(b \<mapsto> i)) (logged s) \<and> disk_same s t)"
    using c X(10,12) b by (intro bc_bread [OF X(9)]) (auto simp: no_err_def)
  then show ?thesis
  proof (rule wp_bindI, clarsimp simp del: wp_rbind fun_upd_apply)
    fix i t assume t: "bc t V (disk r 1) (H(b \<mapsto> i)) (logged s)" "disk_same s t"
    have "intx r W V (H(b \<mapsto> i)) I t"
      by (rule intx_rest [OF x t(1)]) (use t(2) c in \<open>simp_all add: disk_same_def rest_same_def\<close>)
    moreover have "b_data (bufs t i) = V b" using bc_held(5) [OF t(1)] by simp
    ultimately show "wp (F (i, t)) Q" by (rule k)
  qed
qed

lemma card_dom_less: "card (dom H \<union> W) < n \<Longrightarrow> finite (dom H \<union> W) \<Longrightarrow> card (dom (H(b := None)) \<union> W) < n"
  by (rule le_less_trans [OF card_mono]) auto

lemma intx_brelse:
  assumes x: "intx r W V H I s" and b: "H b = Some i" and k: "\<And>t. intx r W V (H(b := None)) I t \<Longrightarrow> wp (F t) Q"
  shows "wp (rbind (brelse i s) F) Q"
proof (rule wp_bindI [OF bc_brelse [OF intxD(9) [OF x] b]])
  show "b \<in> logged s \<or> V b = disk r 1 b" by (rule intxD(7) [OF x])
next
  fix t assume t: "bc t V (disk r 1) (H(b := None)) (logged s) \<and> disk_same s t"
  have "finite (dom H \<union> W)" using intxD(12) [OF x] roomD(1) [OF intxD(4) [OF x]] by simp
  then show "wp (F t) Q"
    using t by (intro k intx_rest [OF x _ _ _ card_dom_less [OF intxD(6) [OF x]]]) (simp_all add: disk_same_def rest_same_def)
qed

lemma log_write_more:
  assumes "log_write i s = Ok t"
  shows "log_state.more t = log_state.more s"
  using assms by (cases s) (auto simp: log_write_def Let_def upd_buf_def split: if_splits)

lemma fs_more:
  fixes s t :: "'a fs_state_scheme"
  assumes "log_state.more t = log_state.more s"
  shows "sb t = sb s" "inodes t = inodes s" "fs_state.more t = fs_state.more s"
  using assms by (cases s; cases t; simp)+

lemma intx_release:
  assumes x: "intx r W V H I s" and b: "H b = Some i" "b \<in> W" "length (f (V b)) = BSIZE"
    and k: "\<And>t. intx r W (V(b := f (V b))) (H(b := None)) I t \<Longrightarrow> wp (F t) Q"
  shows "wp (rbind (log_release i f s) F) Q"
proof -
  note X = intxD [OF x] and R = roomD [OF intxD(4) [OF x]]
  let ?V = "V(b := f (V b))" and ?u = "upd_buf i (b_data_update f) s"
  have "?u = upd_buf i (b_data_update (\<lambda>_. f (V b))) s" using bc_held(5) [OF X(9) b(1)] by (cases "bufs s i") (simp add: upd_buf_def)
  then have bc: "bc ?u ?V (disk r 1) H (logged s)" using bc_fill [OF X(9) b(1)] by simp
  have rs: "rest_same s ?u" by (simp add: rest_same_def)
  have ok: "log_ok (l_start r) ?V (disk r 1) H ?u" using log_ok_change [OF X(1) _ rs] bc by (simp add: logged_def)
  have s: "l_size ?u = l_size r" "l_outstanding ?u = l_outstanding r" "lh_n ?u = lh_n s" using log_sel [OF rs] X(2) by (simp_all add: tx_same_def)
  have "inj_on (lh_block s) {..<nat (lh_n s)}" "0 \<le> lh_n s" using X(1) by (simp_all add: log_ok_def log_at_def fits_def)
  then have "lh_n s = int (card (logged s))" by (simp add: logged_def card_image)
  moreover have "card (logged s) \<le> card W" by (rule card_mono [OF R(1) X(5)])
  ultimately have rm: "lh_n ?u < l_size ?u - 1" "l_size ?u \<le> LOGSIZE" "1 \<le> l_outstanding ?u" using X(4) s by (auto simp: room_def)
  obtain t where t: "log_write i ?u = Ok t" "log_ok (l_start r) ?V (disk r 1) H t" "logged t = insert b (logged s)" "l_size t = l_size ?u"
    "l_outstanding t = l_outstanding ?u" "l_committing t = l_committing ?u" "diskwrites t = diskwrites ?u"
    using log_write_spec [OF ok b(1) R(3) [OF b(2)] R(4) [OF b(2)] rm] log_sel [OF rs] by (auto simp: wp_iff logged_def)
  have "tx_same r t" "inodes t = I"
    using t(4-7) fs_more [OF log_write_more [OF t(1)]] more_same [OF rs] log_sel [OF rs] X(2,3) by (simp_all add: tx_same_def)
  moreover have "c \<in> logged t \<or> ?V c = disk r 1 c" for c using t(3) X(7) [of c] by auto
  ultimately have "intx r W ?V H I t" using t(2,3) X(4,5,6,8) b(2,3) by (simp add: intx_def)
  from intx_brelse [OF this b(1) k, of "\<lambda>t. t"] show ?thesis using t(1) by (simp add: log_release_def rbind_assoc del: fun_upd_apply)
qed

lemma intx_inode:
  assumes "intx r W V H I s"
  shows "intx r W V H (I(ip := f (I ip))) (upd_inode ip f s)"
proof -
  note X = intxD [OF assms]
  have "bc (upd_inode ip f s) V D H Y = bc s V D H Y" for V D H Y by (rule bc_fields) (simp_all add: upd_inode_def)
  then show ?thesis using X(1-8) by (simp add: intx_def log_ok_def log_at_def no_err_def logged_def tx_same_def upd_inode_def)
qed

lemma intx_grow:
  assumes "intx r W V H I s" "room r (W \<union> B)" "dom H \<subseteq> W \<union> B"
  shows "intx r (W \<union> B) V H I s"
proof -
  have "dom H \<union> (W \<union> B) = W \<union> B" using assms(3) by auto
  then have "card (dom H \<union> (W \<union> B)) < NBUF" using roomD(2) [OF assms(2)] by (simp add: NBUF_def)
  then show ?thesis using intxD(1-3,5,7,8) [OF assms(1)] assms(2) unfolding intx_def by blast
qed

section \<open>The free map\<close>

abbreviation bm_of :: "superblock \<Rightarrow> uint" where "bm_of sp \<equiv> sb_bmapstart sp"

text \<open>Block \<open>b\<close> is marked in the free map of the view \<open>V\<close>.\<close>

definition used :: "superblock \<Rightarrow> (uint \<Rightarrow> block) \<Rightarrow> uint \<Rightarrow> bool" where
  "used sp V b \<longleftrightarrow> bit_used (V (BBLOCK b sp)) (unat b mod BPB)"

text \<open>
  The layout of the disk: boot block, super block, log, inodes, the free map in one block, data; the blocks before the data
  are marked as used.
\<close>

definition layout :: "uint \<Rightarrow> superblock \<Rightarrow> (uint \<Rightarrow> block) \<Rightarrow> bool" where
  "layout st sp V \<longleftrightarrow> super_of (V 1) = sp \<and> 1 < unat st \<and> unat st + nat LOGSIZE \<le> unat (sb_inodestart sp) \<and>
     unat (sb_inodestart sp) + unat (sb_ninodes sp) div 8 < unat (bm_of sp) \<and> unat (bm_of sp) < unat (sb_size sp) \<and>
     sb_size sp \<le> FSSIZE \<and> (\<forall>b. b \<le> bm_of sp \<longrightarrow> used sp V b)"

definition data_blk :: "superblock \<Rightarrow> uint \<Rightarrow> bool" where
  "data_blk sp b \<longleftrightarrow> bm_of sp < b \<and> b < sb_size sp"

definition mark :: "nat \<Rightarrow> block \<Rightarrow> block" where "mark bi d = d[bi div 8 := d ! (bi div 8) OR bit_mask bi]"
definition unmark :: "nat \<Rightarrow> block \<Rightarrow> block" where "unmark bi d = d[bi div 8 := d ! (bi div 8) AND NOT (bit_mask bi)]"

definition next_free :: "superblock \<Rightarrow> (uint \<Rightarrow> block) \<Rightarrow> nat option" where
  "next_free sp V = free_bit 0 (unat (sb_size sp)) (V (bm_of sp))"

definition allocd :: "superblock \<Rightarrow> uint \<Rightarrow> (uint \<Rightarrow> block) \<Rightarrow> uint \<Rightarrow> block" where
  "allocd sp b V = V(bm_of sp := mark (unat b) (V (bm_of sp)), b := replicate BSIZE 0)"

lemma bit_bit_mask: "bit (bit_mask bi) n \<longleftrightarrow> n = bi mod 8"
proof -
  have "bi mod 8 < 8" by simp
  then show ?thesis by (auto simp: bit_mask_def bit_exp_iff)
qed

lemma bit_used_iff: "bit_used d bi \<longleftrightarrow> bit (d ! (bi div 8)) (bi mod 8)"
proof -
  let ?w = "d ! (bi div 8) AND bit_mask bi"
  have b: "bit ?w n \<longleftrightarrow> n = bi mod 8 \<and> bit (d ! (bi div 8)) n" for n by (auto simp: bit_and_iff bit_bit_mask)
  show ?thesis
  proof (cases "bit (d ! (bi div 8)) (bi mod 8)")
    case True
    then have "bit ?w (bi mod 8)" by (simp only: b)
    then have "?w \<noteq> 0" by (metis bit_0_eq bot_apply bot_bool_def)
    then show ?thesis using True by (simp add: bit_used_def)
  next
    case False
    then have "?w = 0" by (intro bit_eqI) (auto simp only: b bit_0_eq bot_apply bot_bool_def)
    then show ?thesis using False by (simp add: bit_used_def)
  qed
qed

lemma bit_used_mark:
  assumes "bi div 8 < length d"
  shows "bit_used (mark bi d) bj \<longleftrightarrow> bj = bi \<or> bit_used d bj" "bit_used (unmark bi d) bj \<longleftrightarrow> bj \<noteq> bi \<and> bit_used d bj"
proof -
  have eq: "bj = bi \<longleftrightarrow> bj div 8 = bi div 8 \<and> bj mod 8 = bi mod 8"
    by (metis div_mod_decomp)
  have "bj mod 8 < 8" by simp
  then show "bit_used (mark bi d) bj \<longleftrightarrow> bj = bi \<or> bit_used d bj" "bit_used (unmark bi d) bj \<longleftrightarrow> bj \<noteq> bi \<and> bit_used d bj"
    unfolding eq using assms
    by (auto simp: bit_used_iff mark_def unmark_def nth_list_update bit_or_iff bit_and_iff bit_not_iff bit_bit_mask)
qed

lemma length_mark [simp]: "length (mark bi d) = length d" "length (unmark bi d) = length d"
  by (simp_all add: mark_def unmark_def)

lemma layoutD:
  assumes "layout st sp V"
  shows "unat (sb_size sp) \<le> 2000" "bm_of sp < sb_size sp" "1 < bm_of sp" "bm_of sp < FSSIZE" "\<not> in_log st (bm_of sp)"
    "\<not> in_log st b \<or> b \<le> bm_of sp" "b \<le> bm_of sp \<Longrightarrow> used sp V b" "\<not> in_log st 1"
proof -
  have n: "1 < unat st" "unat st + 30 \<le> unat (sb_inodestart sp)" "unat (sb_inodestart sp) < unat (bm_of sp)" "unat (bm_of sp) < unat (sb_size sp)"
    "unat (sb_size sp) \<le> 2000" using assms by (simp_all add: layout_def LOGSIZE_def MAXOPBLOCKS_def FSSIZE_def word_le_nat_alt)
  show "unat (sb_size sp) \<le> 2000" "bm_of sp < sb_size sp" "1 < bm_of sp" "bm_of sp < FSSIZE" using n by (simp_all add: word_less_nat_alt FSSIZE_def)
  show "\<not> in_log st (bm_of sp)" "\<not> in_log st b \<or> b \<le> bm_of sp" "\<not> in_log st 1"
    using n by (auto simp: in_log_def LOGSIZE_def MAXOPBLOCKS_def word_le_nat_alt)
  show "b \<le> bm_of sp \<Longrightarrow> used sp V b" using assms by (simp add: layout_def)
qed

text \<open>With at most \<open>FSSIZE\<close> blocks the map is one block.\<close>

lemma map_block:
  assumes "layout st sp V" "b < sb_size sp"
  shows "BBLOCK b sp = bm_of sp" "unat b mod BPB = unat b" "used sp V' b = bit_used (V' (bm_of sp)) (unat b)"
proof -
  have "unat b < 4096" using assms layoutD(1) [OF assms(1)] by (simp add: word_less_nat_alt)
  then have "b div 4096 = 0" "unat b mod 4096 = unat b" by (simp_all add: word_arith_nat_div)
  then show "BBLOCK b sp = bm_of sp" "unat b mod BPB = unat b" by (simp_all add: BBLOCK_def BPB_def BSIZE_def)
  then show "used sp V' b = bit_used (V' (bm_of sp)) (unat b)" by (simp add: used_def)
qed

lemma next_freeD:
  assumes "layout st sp V" "next_free sp V = Some bi"
  shows "unat (of_nat bi :: uint) = bi" "data_blk sp (of_nat bi)" "\<not> used sp V (of_nat bi)" "(of_nat bi :: uint) \<noteq> 0" "(of_nat bi :: uint) < FSSIZE"
    "\<not> in_log st (of_nat bi)"
proof -
  have s: "unat (sb_size sp) \<le> 2000" by (rule layoutD(1) [OF assms(1)])
  have bi: "bi < unat (sb_size sp)" "\<not> bit_used (V (bm_of sp)) bi"
    using assms(2) by (auto simp: next_free_def free_bit_def find_Some_iff)
  show u: "unat (of_nat bi :: uint) = bi" using bi(1) s by (simp add: unat_of_nat take_bit_nat_eq_self)
  have lt: "(of_nat bi :: uint) < sb_size sp" using bi(1) u by (simp add: word_less_nat_alt)
  show nu: "\<not> used sp V (of_nat bi)" using map_block(3) [OF assms(1) lt] bi(2) u by simp
  have gt: "bm_of sp < of_nat bi" using nu layoutD(7) [OF assms(1), of "of_nat bi"] by (simp add: not_le [symmetric]) blast
  show "data_blk sp (of_nat bi)" using lt gt by (simp add: data_blk_def)
  show "(of_nat bi :: uint) \<noteq> 0" using gt by auto
  show "(of_nat bi :: uint) < FSSIZE" using bi(1) s u by (simp add: word_less_nat_alt FSSIZE_def)
  show "\<not> in_log st (of_nat bi)" using layoutD(6) [OF assms(1), of "of_nat bi"] gt by auto
qed

lemma next_free_exists:
  assumes "layout st sp V" "b < sb_size sp" "\<not> used sp V b"
  obtains bi where "next_free sp V = Some bi"
proof -
  have "unat b < min BPB (unat (sb_size sp) - 0)"
    using assms(2) layoutD(1) [OF assms(1)] by (simp add: word_less_nat_alt BPB_def BSIZE_def)
  moreover have "\<not> bit_used (V (bm_of sp)) (unat b)" using assms map_block(3) [OF assms(1,2)] by simp
  ultimately have "next_free sp V \<noteq> None" by (auto simp: next_free_def free_bit_def find_None_iff)
  then show thesis using that by blast
qed

lemma data_blkD:
  assumes "layout st sp V" "data_blk sp b"
  shows "b \<noteq> bm_of sp" "b \<noteq> 1" "b \<noteq> 0" "b < FSSIZE" "\<not> in_log st b" "b < sb_size sp"
proof -
  show "b \<noteq> bm_of sp" "b < sb_size sp" using assms(2) by (auto simp: data_blk_def)
  show "b \<noteq> 1" "b \<noteq> 0" using assms(2) layoutD(3) [OF assms(1)] by (auto simp: data_blk_def)
  show "b < FSSIZE" using assms by (auto simp: data_blk_def layout_def word_less_nat_alt word_le_nat_alt)
  show "\<not> in_log st b" using layoutD(6) [OF assms(1), of b] assms(2) by (auto simp: data_blk_def)
qed

lemma used_changed:
  assumes "layout st sp V" "length (V (bm_of sp)) = BSIZE" "data_blk sp b" "W (bm_of sp) = mark (unat b) (V (bm_of sp))" "W 1 = V 1"
  shows "c < sb_size sp \<Longrightarrow> used sp W c \<longleftrightarrow> c = b \<or> used sp V c" "layout st sp W"
proof -
  have "unat b < 2000" using assms(3) layoutD(1) [OF assms(1)] by (simp add: data_blk_def word_less_nat_alt)
  then have "unat b div 8 < length (V (bm_of sp))" using assms(2) by (simp add: BSIZE_def)
  then show *: "used sp W c \<longleftrightarrow> c = b \<or> used sp V c" if "c < sb_size sp" for c
    unfolding map_block(3) [OF assms(1) that] assms(4) by (simp add: bit_used_mark word_unat_eq_iff)
  have "used sp W c" if "c \<le> bm_of sp" for c using * [of c] layoutD(2) [OF assms(1)] layoutD(7) [OF assms(1) that] that by auto
  then show "layout st sp W" using assms(1,5) by (auto simp: layout_def)
qed

lemma allocd_layout:
  assumes "layout st sp V" "length (V (bm_of sp)) = BSIZE" "data_blk sp b"
  shows "c < sb_size sp \<Longrightarrow> used sp (allocd sp b V) c \<longleftrightarrow> c = b \<or> used sp V c" "layout st sp (allocd sp b V)"
    "c \<noteq> bm_of sp \<Longrightarrow> c \<noteq> b \<Longrightarrow> allocd sp b V c = V c" "allocd sp b V b = replicate BSIZE 0"
proof -
  have n: "b \<noteq> bm_of sp" "b \<noteq> 1" "1 \<noteq> bm_of sp" using data_blkD [OF assms(1,3)] layoutD(3) [OF assms(1)] by auto
  then show "c < sb_size sp \<Longrightarrow> used sp (allocd sp b V) c \<longleftrightarrow> c = b \<or> used sp V c" "layout st sp (allocd sp b V)"
    using used_changed [OF assms, of "allocd sp b V"] by (simp_all add: allocd_def)
qed (simp_all add: allocd_def)

lemma balloc_spec:
  assumes x: "intx r W V H I s" and l: "layout (l_start r) (sb r) V" and H: "H (bm_of (sb r)) = None" "H (of_nat bi) = None" "dom H \<subseteq> W"
    and W: "bm_of (sb r) \<in> W" "room r (insert (of_nat bi) W)" and f: "next_free (sb r) V = Some bi"
    and k: "\<And>t. intx r (insert (of_nat bi) W) (allocd (sb r) (of_nat bi) V) H I t \<Longrightarrow> wp (F (of_nat bi, t)) Q"
  shows "wp (rbind (balloc 1 s) F) Q"
proof -
  let ?bm = "bm_of (sb r)" and ?b = "of_nat bi :: uint" and ?W = "insert (of_nat bi) W"
  note N = next_freeD [OF l f]
  have z: "0 < unat (sb_size (sb s))" using layoutD(2) [OF l] intxD(11) [OF x] by (simp add: word_less_nat_alt)
  have bb: "BBLOCK (of_nat 0) (sb s) = ?bm" using map_block(1) [OF l, of 0] z intxD(11) [OF x] by (simp add: word_less_nat_alt)
  have bm: "?b \<noteq> ?bm" using data_blkD(1) [OF l N(2)] .
  have x': "intx r ?W V H I s" using intx_grow [OF x, of "{?b}"] W(2) H(3) by auto
  show ?thesis unfolding balloc_def balloc_loop.simps [of _ 0] if_P [OF z] bb rbind_assoc
  proof (rule intx_bread [OF x' H(1) layoutD(4) [OF l]])
    show "dom H \<subseteq> ?W \<or> ?bm \<in> ?W" using W by simp
    fix i t assume t: "intx r ?W V (H(?bm \<mapsto> i)) I t" "b_data (bufs t i) = V ?bm"
    let ?V = "V(?bm := mark bi (V ?bm))"
    have fb: "free_bit 0 (unat (sb_size (sb t))) (b_data (bufs t i)) = Some bi" using f t(2) intxD(11) [OF t(1)] by (simp add: next_free_def)
    have Hn: "H(?bm := None) = H" "H(?b := None) = H" using H by (auto simp: fun_eq_iff)
    have len: "length (mark bi (V ?bm)) = BSIZE" using intxD(8) [OF x] by simp
    show "wp (rbind (case (i, t) of (bp, s) \<Rightarrow> case free_bit 0 (unat (sb_size (sb s))) (b_data (bufs s bp)) of
        None \<Rightarrow> rbind (brelse bp s) (\<lambda>s. if 0 + BPB < 2 ^ 31 then balloc_loop 1 (0 + BPB) s else Undef)
      | Some bi \<Rightarrow> rbind (log_release bp (\<lambda>d. d[bi div 8 := d ! (bi div 8) OR bit_mask bi]) s)
          (\<lambda>s. rbind (bzero 1 (word_of_nat (0 + bi)) s) (\<lambda>s. Ok (word_of_nat (0 + bi), s)))) F) Q"
      unfolding prod.case fb option.case mark_def [symmetric] rbind_assoc add_0
    proof (rule intx_release [OF t(1), where b = ?bm], goal_cases)
      case (4 u)
      then have u: "intx r ?W ?V H I u" by (simp only: Hn fun_upd_upd)
      show ?case unfolding bzero_def rbind_assoc
      proof (rule intx_bread [OF u H(2) N(5)], goal_cases)
        case (2 j v)
        show ?case unfolding prod.case rbind_assoc rbind_simps
          by (rule intx_release [OF 2(1), where b = ?b]) (use k N(1) bm Hn in \<open>simp_all add: allocd_def del: fun_upd_apply add: fun_upd_upd fun_upd_same\<close>)
      qed (use H in auto)
    qed (use W len in simp_all)
  qed
qed

lemma super_of_take: "super_of (take 28 d) = super_of d"
  by (simp add: super_of_def get32_take)

lemma intx_sb: "intx r W V H I s \<Longrightarrow> s\<lparr>sb := sb r\<rparr> = s"
  using intxD(11) [of r W V H I s] by simp

lemma readsb_intx:
  assumes x: "intx r W V H I s" and l: "layout (l_start r) (sb r) V" and H: "H 1 = None" "dom H \<subseteq> W \<or> 1 \<in> W"
    and k: "\<And>d t. intx r W V H I t \<Longrightarrow> super_of d = sb r \<Longrightarrow> wp (F (d, t)) Q"
  shows "wp (rbind (readsb 1 s) F) Q"
  unfolding readsb_def rbind_assoc
proof (rule intx_bread [OF x H(1) _ H(2)])
  show "(1 :: uint) < FSSIZE" by (simp add: FSSIZE_def)
  fix i t assume t: "intx r W V (H(1 \<mapsto> i)) I t" "b_data (bufs t i) = V 1"
  have Hn: "H(1 := None) = H" using H(1) by auto
  show "wp (rbind (case (i, t) of (bp, s) \<Rightarrow> let sb = take 28 (b_data (bufs s bp)) in rbind (brelse bp s) (\<lambda>s. Ok (sb, s))) F) Q"
    unfolding prod.case Let_def rbind_assoc rbind_simps
    by (rule intx_brelse [OF t(1), where b = 1]) (use t(2) l k Hn super_of_take in \<open>auto simp: layout_def\<close>)
qed

definition freed :: "superblock \<Rightarrow> uint \<Rightarrow> (uint \<Rightarrow> block) \<Rightarrow> uint \<Rightarrow> block" where
  "freed sp b V = V(bm_of sp := unmark (unat b) (V (bm_of sp)))"

lemma bfree_spec:
  assumes x: "intx r W V H I s" and l: "layout (l_start r) (sb r) V" and H: "H 1 = None" "H (bm_of (sb r)) = None" "dom H \<subseteq> W \<or> 1 \<in> W"
    and W: "bm_of (sb r) \<in> W" and b: "data_blk (sb r) b" "used (sb r) V b"
    and k: "\<And>t. intx r W (freed (sb r) b V) H I t \<Longrightarrow> wp (F t) Q"
  shows "wp (rbind (bfree 1 b s) F) Q"
  unfolding bfree_def rbind_assoc
proof (rule readsb_intx [OF x l H(1,3)])
  fix d t assume t: "intx r W V H I t" "super_of d = sb r"
  let ?bm = "bm_of (sb r)"
  have lt: "b < sb_size (sb r)" using b(1) by (simp add: data_blk_def)
  note M = map_block [OF l lt]
  have sb: "t\<lparr>sb := super_of d\<rparr> = t" using intx_sb [OF t(1)] t(2) by simp
  have bb: "BBLOCK b (sb t) = ?bm" using M(1) intxD(11) [OF t(1)] by simp
  have Hn: "H(?bm := None) = H" using H(2) by auto
  show "wp (rbind (case (d, t) of (d, s) \<Rightarrow> let s = s\<lparr>sb := super_of d\<rparr>
      in rbind (bread 1 (BBLOCK b (sb s)) s) (\<lambda>(bp, s). let bi = unat b mod BPB
         in if \<not> bit_used (b_data (bufs s bp)) bi then Panic ''freeing free block''
            else log_release bp (\<lambda>d. d[bi div 8 := d ! (bi div 8) AND NOT (bit_mask bi)]) s)) F) Q"
    unfolding prod.case sb Let_def bb rbind_assoc
  proof (rule intx_bread [OF t(1) H(2) layoutD(4) [OF l]], goal_cases)
    case (2 i u)
    have "bit_used (b_data (bufs u i)) (unat b mod BPB)" using 2(2) b(2) M by simp
    then show ?case unfolding prod.case unmark_def [symmetric] M(2)
      by (simp del: wp_rbind) (rule intx_release [OF 2(1), where b = ?bm], use W intxD(8) [OF x] k Hn in \<open>simp_all add: freed_def\<close>)
  qed (use W in simp)
qed

end
