(* ===== verification/Fs_File.thy ===== *)
theory Fs_File
  imports Fs_Blocks
begin

text \<open>
  The contents of an inode: the map from the blocks of the file to blocks of the disk that \<open>bmap\<close> maintains, the bytes that
  \<open>readi\<close> and \<open>writei\<close> move, and that a file's blocks are its own.
\<close>

section \<open>The blocks of a file\<close>

abbreviation ind_blk :: "inode \<Rightarrow> uint" where "ind_blk k \<equiv> i_addrs k ! NDIRECT"

text \<open>The disk block of block \<open>n\<close> of the file, 0 when there is none.\<close>

definition file_blk :: "(uint \<Rightarrow> block) \<Rightarrow> inode \<Rightarrow> nat \<Rightarrow> uint" where
  "file_blk V k n =
     (if n < NDIRECT then i_addrs k ! n else if ind_blk k = 0 then 0 else get32 (V (ind_blk k)) (4 * (n - NDIRECT)))"

definition owned :: "(uint \<Rightarrow> block) \<Rightarrow> inode \<Rightarrow> uint set" where
  "owned V k = (insert (ind_blk k) (file_blk V k ` {..<MAXFILE})) - {0}"

text \<open>
  A well-formed file: its blocks are data blocks marked as used, no two of them the same, none of them its indirect block,
  and there is one for every byte below its size.
\<close>

definition file_ok :: "superblock \<Rightarrow> (uint \<Rightarrow> block) \<Rightarrow> inode \<Rightarrow> bool" where
  "file_ok sp V k \<longleftrightarrow> length (i_addrs k) = NDIRECT + 1 \<and> (\<forall>b\<in>owned V k. data_blk sp b \<and> used sp V b) \<and>
     (\<forall>n<MAXFILE. file_blk V k n \<noteq> 0 \<longrightarrow> file_blk V k n \<noteq> ind_blk k \<and> (\<forall>m<MAXFILE. file_blk V k m = file_blk V k n \<longrightarrow> m = n))"

definition no_holes :: "(uint \<Rightarrow> block) \<Rightarrow> inode \<Rightarrow> bool" where
  "no_holes V k \<longleftrightarrow> unat (i_size k) \<le> MAXFILE * BSIZE \<and> (\<forall>n. n * BSIZE < unat (i_size k) \<longrightarrow> file_blk V k n \<noteq> 0)"

lemma file_blk_cong: "V' (ind_blk k) = V (ind_blk k) \<Longrightarrow> i_addrs k' = i_addrs k \<Longrightarrow> file_blk V' k' = file_blk V k"
  by (simp add: file_blk_def fun_eq_iff)

lemma owned_cong: "file_blk V' k' = file_blk V k \<Longrightarrow> i_addrs k' = i_addrs k \<Longrightarrow> owned V' k' = owned V k"
  by (simp add: owned_def)

lemma file_okD:
  assumes "file_ok sp V k"
  shows "length (i_addrs k) = 13" "b \<in> owned V k \<Longrightarrow> data_blk sp b" "b \<in> owned V k \<Longrightarrow> used sp V b"
    "n < MAXFILE \<Longrightarrow> file_blk V k n \<noteq> 0 \<Longrightarrow> file_blk V k n \<noteq> ind_blk k"
    "n < MAXFILE \<Longrightarrow> m < MAXFILE \<Longrightarrow> file_blk V k n \<noteq> 0 \<Longrightarrow> file_blk V k m = file_blk V k n \<Longrightarrow> m = n"
  using assms by (simp_all add: file_ok_def NDIRECT_def)

lemma ownedI: "n < MAXFILE \<Longrightarrow> file_blk V k n \<noteq> 0 \<Longrightarrow> file_blk V k n \<in> owned V k" "ind_blk k \<noteq> 0 \<Longrightarrow> ind_blk k \<in> owned V k"
  by (auto simp: owned_def)

text \<open>The file does not see changes elsewhere.\<close>

lemma file_ok_frame:
  assumes ok: "file_ok sp V k" and V: "ind_blk k \<noteq> 0 \<Longrightarrow> V' (ind_blk k) = V (ind_blk k)" and a: "i_addrs k' = i_addrs k"
    and u: "\<And>b. b \<in> owned V k \<Longrightarrow> used sp V b \<Longrightarrow> used sp V' b"
  shows "file_ok sp V' k'" "file_blk V' k' = file_blk V k" "owned V' k' = owned V k"
proof -
  show e: "file_blk V' k' = file_blk V k" using V a by (auto simp: file_blk_def fun_eq_iff)
  show e': "owned V' k' = owned V k" using e a by (rule owned_cong)
  show "file_ok sp V' k'" using ok u a unfolding file_ok_def e e' by simp
qed

section \<open>A new block in the map\<close>

text \<open>
  \<open>extends sp V k V' k'\<close>: blocks that were free have been added to the file at places where it had none, zeroed; nothing else
  that was in use has changed, but for the free map and the indirect block.
\<close>

definition extends :: "superblock \<Rightarrow> (uint \<Rightarrow> block) \<Rightarrow> inode \<Rightarrow> (uint \<Rightarrow> block) \<Rightarrow> inode \<Rightarrow> bool" where
  "extends sp V k V' k' \<longleftrightarrow> file_ok sp V' k' \<and> (\<exists>a. k' = k\<lparr>i_addrs := a\<rparr>) \<and> (ind_blk k' = ind_blk k \<or> ind_blk k = 0 \<and> ind_blk k' \<notin> owned V k) \<and>
     (\<forall>b. b < sb_size sp \<longrightarrow> (used sp V' b \<longleftrightarrow> used sp V b \<or> b \<in> owned V' k' - owned V k)) \<and>
     owned V k \<subseteq> owned V' k' \<and> (\<forall>b\<in>owned V' k' - owned V k. \<not> used sp V b) \<and>
     (\<forall>n<MAXFILE. file_blk V k n \<noteq> 0 \<longrightarrow> file_blk V' k' n = file_blk V k n) \<and>
     (\<forall>n<MAXFILE. file_blk V k n = 0 \<longrightarrow> file_blk V' k' n \<noteq> 0 \<longrightarrow> V' (file_blk V' k' n) = replicate BSIZE 0) \<and>
     (\<forall>b. b \<noteq> bm_of sp \<longrightarrow> (b = ind_blk k \<longrightarrow> b = 0) \<longrightarrow> b \<notin> owned V' k' - owned V k \<longrightarrow> V' b = V b)"

lemma extends_refl: "file_ok sp V k \<Longrightarrow> extends sp V k V k"
proof -
  assume "file_ok sp V k"
  moreover have "k = k\<lparr>i_addrs := i_addrs k\<rparr>" by simp
  ultimately show ?thesis unfolding extends_def by blast
qed

text \<open>Allocating a block, then entering it in the inode or in the indirect block.\<close>

lemma fresh_block:
  assumes l: "layout st sp V" "\<And>b. length (V b) = BSIZE" and b: "data_blk sp b" "\<not> used sp V b" and ok: "file_ok sp V k"
  shows "b \<notin> owned V k" "ind_blk k \<noteq> 0 \<Longrightarrow> allocd sp b V (ind_blk k) = V (ind_blk k)" "file_ok sp (allocd sp b V) k"
    "file_blk (allocd sp b V) k = file_blk V k" "owned (allocd sp b V) k = owned V k"
proof -
  show n: "b \<notin> owned V k" using b(2) file_okD(3) [OF ok] by blast
  note A = allocd_layout [OF l b(1)]
  show i: "allocd sp b V (ind_blk k) = V (ind_blk k)" if "ind_blk k \<noteq> 0"
    using A(3) [of "ind_blk k"] n ownedI(2) [OF that] data_blkD(1) [OF l(1) file_okD(2) [OF ok]] by blast
  have u: "used sp (allocd sp b V) c" if "c \<in> owned V k" "used sp V c" for c
    using A(1) [of c] that data_blkD(6) [OF l(1) file_okD(2) [OF ok that(1)]] by blast
  show "file_ok sp (allocd sp b V) k" "file_blk (allocd sp b V) k = file_blk V k" "owned (allocd sp b V) k = owned V k"
    using file_ok_frame [OF ok i refl u] by blast+
qed

lemma attach:
  assumes l: "layout st sp V" "\<And>b. length (V b) = BSIZE" and b: "data_blk sp b" "\<not> used sp V b" and ok: "file_ok sp V k"
    and V': "V' (bm_of sp) = allocd sp b V (bm_of sp)" "V' b = replicate BSIZE 0" "\<And>c. c = ind_blk k \<longrightarrow> c = 0 \<Longrightarrow> V' c = allocd sp b V c"
    and k': "k' = k\<lparr>i_addrs := a\<rparr>" "length a = 13"
    and f: "(n < MAXFILE \<and> file_blk V k n = 0 \<and> file_blk V' k' = (file_blk V k)(n := b) \<and> ind_blk k' = ind_blk k) \<or>
      (ind_blk k = 0 \<and> ind_blk k' = b \<and> (\<forall>m<MAXFILE. file_blk V' k' m = file_blk V k m))"
  shows "extends sp V k V' k'"
proof -
  note F = fresh_block [OF l b ok] and A = allocd_layout [OF l b(1)] and D = data_blkD [OF l(1) b(1)]
  have own: "owned V' k' = insert b (owned V k)" using f D(3) by (auto simp: owned_def)
  have used: "used sp V' c \<longleftrightarrow> c = b \<or> used sp V c" if "c < sb_size sp" for c
    using A(1) [OF that] map_block(3) [OF l(1) that] V'(1) by simp
  have "file_ok sp V' k'"
    unfolding file_ok_def
  proof (intro conjI ballI allI impI)
    show "length (i_addrs k') = NDIRECT + 1" using k' by (simp add: NDIRECT_def)
    show "data_blk sp c" if "c \<in> owned V' k'" for c using that b(1) file_okD(2) [OF ok] unfolding own by blast
    then show "used sp V' c" if "c \<in> owned V' k'" for c
      using used [of c] that file_okD(3) [OF ok, of c] data_blkD(6) [OF l(1), of c] unfolding own by blast
    fix m assume m: "m < MAXFILE" "file_blk V' k' m \<noteq> 0"
    have i: "ind_blk k \<noteq> b" using F(1) ownedI(2) [of k V] D(3) by metis
    have nb: "file_blk V k j \<noteq> b" if "j < MAXFILE" for j using F(1) ownedI(1) [OF that, of V k] D(3) by metis
    show "file_blk V' k' m \<noteq> ind_blk k'" using f m i nb file_okD(4) [OF ok m(1)] by (auto split: if_splits)
    fix j assume "j < MAXFILE" "file_blk V' k' j = file_blk V' k' m"
    then show "j = m" using f m nb [of m] nb [of j] file_okD(5) [OF ok m(1), of j] by (auto split: if_splits)
  qed
  then show ?thesis unfolding extends_def
  proof (intro conjI)
    show "\<exists>a. k' = k\<lparr>i_addrs := a\<rparr>" using k' by blast
    show "ind_blk k' = ind_blk k \<or> ind_blk k = 0 \<and> ind_blk k' \<notin> owned V k" using f F(1) by metis
    show "\<forall>c. c < sb_size sp \<longrightarrow> (used sp V' c \<longleftrightarrow> used sp V c \<or> c \<in> owned V' k' - owned V k)" using used F(1) unfolding own by blast
    show "owned V k \<subseteq> owned V' k'" unfolding own by blast
    show "\<forall>c\<in>owned V' k' - owned V k. \<not> used sp V c" using b(2) unfolding own by blast
    show "\<forall>n<MAXFILE. file_blk V k n \<noteq> 0 \<longrightarrow> file_blk V' k' n = file_blk V k n" using f by auto
    show "\<forall>n<MAXFILE. file_blk V k n = 0 \<longrightarrow> file_blk V' k' n \<noteq> 0 \<longrightarrow> V' (file_blk V' k' n) = replicate BSIZE 0" using f V'(2) by auto
    show "\<forall>c. c \<noteq> bm_of sp \<longrightarrow> (c = ind_blk k \<longrightarrow> c = 0) \<longrightarrow> c \<notin> owned V' k' - owned V k \<longrightarrow> V' c = V c" using V'(3) A(3) own F(1) by auto
  qed
qed


lemma extendsD:
  assumes "extends sp V k V' k'"
  shows "file_ok sp V' k'" "\<exists>a. k' = k\<lparr>i_addrs := a\<rparr>" "ind_blk k' = ind_blk k \<or> ind_blk k = 0 \<and> ind_blk k' \<notin> owned V k"
    "b < sb_size sp \<Longrightarrow> used sp V' b \<longleftrightarrow> used sp V b \<or> b \<in> owned V' k' - owned V k" "owned V k \<subseteq> owned V' k'"
    "b \<in> owned V' k' \<Longrightarrow> b \<notin> owned V k \<Longrightarrow> \<not> used sp V b"
    "n < MAXFILE \<Longrightarrow> file_blk V k n \<noteq> 0 \<Longrightarrow> file_blk V' k' n = file_blk V k n"
    "n < MAXFILE \<Longrightarrow> file_blk V k n = 0 \<Longrightarrow> file_blk V' k' n \<noteq> 0 \<Longrightarrow> V' (file_blk V' k' n) = replicate BSIZE 0"
    "b \<noteq> bm_of sp \<Longrightarrow> b = ind_blk k \<longrightarrow> b = 0 \<Longrightarrow> b \<notin> owned V' k' - owned V k \<Longrightarrow> V' b = V b"
  using assms unfolding extends_def by blast+

text \<open>What the blocks of the file hold stays.\<close>

lemma extends_data:
  assumes l: "layout st sp V" and ok: "file_ok sp V k" and e: "extends sp V k V' k'" and n: "n < MAXFILE" "file_blk V k n \<noteq> 0"
  shows "V' (file_blk V' k' n) = V (file_blk V k n)"
proof -
  have "file_blk V k n \<in> owned V k" using n by (rule ownedI)
  then show ?thesis
    using extendsD(9) [OF e, of "file_blk V k n"] extendsD(7) [OF e n] file_okD(4) [OF ok n] data_blkD(1) [OF l file_okD(2) [OF ok]] by fastforce
qed

lemma extends_layout:
  assumes l: "layout st sp V" and ok: "file_ok sp V k" and e: "extends sp V k V' k'"
  shows "layout st sp V'"
proof -
  have k': "b \<noteq> 1" "b \<notin> {c. c \<le> bm_of sp}" if "b \<in> owned V' k'" for b
    using data_blkD(2) [OF l file_okD(2) [OF extendsD(1) [OF e] that]] file_okD(2) [OF extendsD(1) [OF e] that] by (auto simp: data_blk_def)
  have "ind_blk k \<noteq> 1" using ownedI(2) [of k V] data_blkD(2) [OF l file_okD(2) [OF ok]] by fastforce
  moreover have "bm_of sp \<noteq> 1" using layoutD(3) [OF l] by auto
  moreover have "1 \<notin> owned V' k' - owned V k" using k'(1) [of 1] by blast
  ultimately have 1: "V' 1 = V 1" using extendsD(9) [OF e, of 1] by simp
  have "used sp V' b" if "b \<le> bm_of sp" for b
    using extendsD(4) [OF e, of b] layoutD(2) [OF l] layoutD(7) [OF l that] that by auto
  then show ?thesis using l 1 by (simp add: layout_def)
qed

lemma extends_trans:
  assumes l: "layout st sp V" and ok: "file_ok sp V k" and e: "extends sp V k V1 k1" "extends sp V1 k1 V2 k2"
  shows "extends sp V k V2 k2"
proof -
  note E = extendsD [OF e(1)] and F = extendsD [OF e(2)] and l1 = extends_layout [OF l ok e(1)]
  show ?thesis unfolding extends_def
  proof (intro conjI allI impI ballI)
    show "file_ok sp V2 k2" by (rule F(1))
    show "\<exists>a. k2 = k\<lparr>i_addrs := a\<rparr>" using E(2) F(2) by fastforce
    show "ind_blk k2 = ind_blk k \<or> ind_blk k = 0 \<and> ind_blk k2 \<notin> owned V k" using E(3,5) F(3) by (metis subsetD)
    show "owned V k \<subseteq> owned V2 k2" using E(5) F(5) by blast
    show "used sp V2 b \<longleftrightarrow> used sp V b \<or> b \<in> owned V2 k2 - owned V k" if "b < sb_size sp" for b
      using E(4) [OF that] F(4) [OF that] E(5) F(5) by blast
    show "\<not> used sp V b" if b: "b \<in> owned V2 k2 - owned V k" for b
    proof (cases "b \<in> owned V1 k1")
      case False
      then have "\<not> used sp V1 b" using F(6) b by blast
      moreover have "b < sb_size sp" using file_okD(2) [OF F(1)] b by (auto simp: data_blk_def)
      ultimately show ?thesis using E(4) by blast
    qed (use E(6) b in blast)
    show "file_blk V2 k2 n = file_blk V k n" if "n < MAXFILE" "file_blk V k n \<noteq> 0" for n
      using E(7) [OF that] F(7) [OF that(1)] that(2) by simp
    show "V2 (file_blk V2 k2 n) = replicate BSIZE 0" if n: "n < MAXFILE" "file_blk V k n = 0" "file_blk V2 k2 n \<noteq> 0" for n
      using E(8) [OF n(1,2)] F(8) [OF n(1) _ n(3)] extends_data [OF l1 E(1) e(2) n(1)] by (cases "file_blk V1 k1 n = 0") simp_all
    show "V2 b = V b" if b: "b \<noteq> bm_of sp" "b = ind_blk k \<longrightarrow> b = 0" "b \<notin> owned V2 k2 - owned V k" for b
    proof -
      have "b = ind_blk k1 \<longrightarrow> b = 0" using b(2,3) E(3) F(5) ownedI(2) [of k1 V1] by blast
      then show ?thesis using E(9) [OF b(1,2)] F(9) [OF b(1)] b(3) E(5) F(5) by fastforce
    qed
  qed
qed

section \<open>\<open>bmap\<close>\<close>

text \<open>Blocks that are free, and the block a file will need for its indirect block.\<close>

definition free_blks :: "superblock \<Rightarrow> (uint \<Rightarrow> block) \<Rightarrow> uint set" where
  "free_blks sp V = {b. b < sb_size sp \<and> \<not> used sp V b}"

definition ind_cost :: "inode \<Rightarrow> nat" where "ind_cost k = (if ind_blk k = 0 then 1 else 0)"

definition writable :: "'a fs_state_scheme \<Rightarrow> uint set \<Rightarrow> (uint \<Rightarrow> block) \<Rightarrow> inode \<Rightarrow> nat \<Rightarrow> bool" where
  "writable r W V k n \<longleftrightarrow> bm_of (sb r) \<in> W \<and> (ind_blk k \<noteq> 0 \<longrightarrow> ind_blk k \<in> W) \<and>
     int (card W + ind_cost k + n) < l_size r - 1 \<and> ind_cost k + n \<le> card (free_blks (sb r) V)"

lemma room_insert:
  assumes "room r W" "int (card W + 1) < l_size r - 1" "b < FSSIZE" "\<not> in_log (l_start r) b"
  shows "room r (insert b W)"
  using assms by (auto simp: room_def card_insert_if)

lemma free_exists:
  assumes "layout st sp V" "0 < card (free_blks sp V)"
  obtains bi where "next_free sp V = Some bi"
proof -
  obtain b where "b \<in> free_blks sp V" using assms(2) by (metis card_gt_0_iff ex_in_conv)
  then show thesis using next_free_exists [OF assms(1), of b] that by (auto simp: free_blks_def)
qed

lemma free_allocd:
  assumes "layout st sp V" "length (V (bm_of sp)) = BSIZE" "data_blk sp b" "\<not> used sp V b" "V' (bm_of sp) = allocd sp b V (bm_of sp)"
  shows "card (free_blks sp V) = card (free_blks sp V') + 1"
proof -
  have u: "used sp V' c \<longleftrightarrow> c = b \<or> used sp V c" if "c < sb_size sp" for c
    using allocd_layout(1) [OF assms(1-3) that] map_block(3) [OF assms(1) that] assms(5) by simp
  have e: "free_blks sp V = insert b (free_blks sp V')"
  proof (rule set_eqI)
    fix c
    show "c \<in> free_blks sp V \<longleftrightarrow> c \<in> insert b (free_blks sp V')"
    proof (cases "c < sb_size sp")
      case True
      then show ?thesis using u [OF True] assms(4) by (auto simp: free_blks_def)
    qed (use assms(3) in \<open>auto simp: free_blks_def data_blk_def\<close>)
  qed
  have "b \<notin> free_blks sp V'" using u [of b] by (auto simp: free_blks_def)
  moreover have "finite (free_blks sp V')" by (simp add: free_blks_def)
  ultimately show ?thesis unfolding e by simp
qed

lemma bmap_unfold:
  assumes "unat bn < MAXFILE"
  shows "bmap ip bn s = (if unat bn < NDIRECT then bmap_addr ip (unat bn) s
    else rbind (bmap_addr ip NDIRECT s) (\<lambda>(addr, s). bmap_entry ip addr (unat bn - NDIRECT) s))"
proof (cases "unat bn < NDIRECT")
  case False
  have u: "unat (bn - of_nat NDIRECT) = unat bn - NDIRECT" using False by (simp add: NDIRECT_def unat_sub word_le_nat_alt)
  then have "unat (bn - of_nat NDIRECT) < NINDIRECT" using assms False by (simp add: MAXFILE_def)
  then show ?thesis using False by (simp add: bmap_def Let_def u)
qed (simp add: bmap_def)

lemma bmap_existing:
  assumes x: "intx r W V Map.empty I s" and l: "layout (l_start r) (sb r) V" and ok: "file_ok (sb r) V (I ip)" and d: "i_dev (I ip) = 1"
    and n: "unat bn < MAXFILE" "file_blk V (I ip) (unat bn) \<noteq> 0"
    and k: "\<And>t. intx r W V Map.empty I t \<Longrightarrow> wp (F (file_blk V (I ip) (unat bn), t)) Q"
  shows "wp (rbind (bmap ip bn s) F) Q"
proof (cases "unat bn < NDIRECT")
  case True
  then show ?thesis using n k [OF x] intxD(3) [OF x] by (simp add: bmap_unfold [OF n(1)] bmap_addr_def file_blk_def)
next
  case False
  have i: "ind_blk (I ip) \<noteq> 0" using n False by (auto simp: file_blk_def)
  have f: "get32 (V (ind_blk (I ip))) (4 * (unat bn - NDIRECT)) = file_blk V (I ip) (unat bn)" using False i by (simp add: file_blk_def)
  have e: "bmap ip bn s = bmap_entry ip (ind_blk (I ip)) (unat bn - NDIRECT) s"
    using False i intxD(3) [OF x] by (simp add: bmap_unfold [OF n(1)] bmap_addr_def)
  show ?thesis unfolding e bmap_entry_def intxD(3) [OF x] d rbind_assoc
  proof (rule intx_bread [OF x _ data_blkD(4) [OF l file_okD(2) [OF ok ownedI(2) [OF i]]]], goal_cases)
    case (3 j t)
    have "wp (rbind (brelse j t) (\<lambda>t. F (file_blk V (I ip) (unat bn), t))) Q"
      by (rule intx_brelse [OF 3(1), where b = "ind_blk (I ip)"]) (auto intro: k)
    then show ?case unfolding prod.case Let_def 3(2) f if_not_P [OF n(2)] rbind_assoc rbind_simps .
  qed simp_all
qed

text \<open>The three ways a block gets into a file.\<close>

lemma attach_direct:
  assumes l: "layout st sp V" "\<And>b. length (V b) = BSIZE" and b: "data_blk sp b" "\<not> used sp V b" and ok: "file_ok sp V k"
    and i: "i < NDIRECT" "i_addrs k ! i = 0"
  shows "extends sp V k (allocd sp b V) (k\<lparr>i_addrs := (i_addrs k)[i := b]\<rparr>)" (is "extends sp V k ?V ?k")
    "file_blk (allocd sp b V) (k\<lparr>i_addrs := (i_addrs k)[i := b]\<rparr>) i = b"
proof -
  note A = allocd_layout [OF l b(1)] and L = file_okD(1) [OF ok]
  have ind: "ind_blk ?k = ind_blk k" using i by simp
  have e: "file_blk ?V ?k = (file_blk V k)(i := b)"
  proof
    fix m show "file_blk ?V ?k m = ((file_blk V k)(i := b)) m"
      using fresh_block(2) [OF l b ok] ind i L by (auto simp: file_blk_def NDIRECT_def nth_list_update)
  qed
  then show "file_blk (allocd sp b V) (k\<lparr>i_addrs := (i_addrs k)[i := b]\<rparr>) i = b" by simp
  show "extends sp V k ?V ?k"
  proof (rule attach [where V' = ?V and k' = ?k, OF l b ok _ A(4)])
    show "length ((i_addrs k)[i := b]) = 13" using L by simp
    have "i < MAXFILE" "file_blk V k i = 0" using i by (simp_all add: MAXFILE_def file_blk_def)
    then show "(i < MAXFILE \<and> file_blk V k i = 0 \<and> file_blk ?V ?k = (file_blk V k)(i := b) \<and> ind_blk ?k = ind_blk k) \<or>
      (ind_blk k = 0 \<and> ind_blk ?k = b \<and> (\<forall>m<MAXFILE. file_blk ?V ?k m = file_blk V k m))" using e ind by blast
  qed simp_all
qed

lemma attach_indirect:
  assumes l: "layout st sp V" "\<And>b. length (V b) = BSIZE" and b: "data_blk sp b" "\<not> used sp V b" and ok: "file_ok sp V k"
    and i: "ind_blk k = 0"
  shows "extends sp V k (allocd sp b V) (k\<lparr>i_addrs := (i_addrs k)[NDIRECT := b]\<rparr>)" (is "extends sp V k ?V ?k")
    "ind_blk (k\<lparr>i_addrs := (i_addrs k)[NDIRECT := b]\<rparr>) = b"
proof -
  note A = allocd_layout [OF l b(1)] and L = file_okD(1) [OF ok]
  show ind: "ind_blk ?k = b" using L by (simp add: NDIRECT_def)
  have z: "get32 (replicate BSIZE 0) (4 * j) = 0" if "j < NINDIRECT" for j
    using that by (simp add: get32_def NINDIRECT_def BSIZE_def)
  have e: "file_blk ?V ?k m = file_blk V k m" if "m < MAXFILE" for m
    using that i ind L A(4) z [of "m - NDIRECT"] by (auto simp: file_blk_def MAXFILE_def)
  show "extends sp V k ?V ?k"
    by (rule attach [where V' = ?V and k' = ?k and a = "(i_addrs k)[NDIRECT := b]", OF l b ok _ A(4)]) (use e i ind L in simp_all)
qed

lemma attach_entry:
  assumes l: "layout st sp V" "\<And>b. length (V b) = BSIZE" and b: "data_blk sp b" "\<not> used sp V b" and ok: "file_ok sp V k"
    and i: "ind_blk k \<noteq> 0" "j < NINDIRECT" "get32 (V (ind_blk k)) (4 * j) = 0"
  shows "extends sp V k ((allocd sp b V)(ind_blk k := put32 (V (ind_blk k)) (4 * j) b)) k" (is "extends sp V k ?V k")
    "file_blk ((allocd sp b V)(ind_blk k := put32 (V (ind_blk k)) (4 * j) b)) k (NDIRECT + j) = b"
proof -
  note A = allocd_layout [OF l b(1)] and L = file_okD(1) [OF ok]
  have e: "file_blk ?V k = (file_blk V k)(NDIRECT + j := b)"
  proof
    fix m
    have "get32 (put32 (V (ind_blk k)) (4 * j) b) (4 * h) = (if h = j then b else get32 (V (ind_blk k)) (4 * h))" for h
      using l(2) i(2) get32_put32_other [of "4 * j" "4 * h"] by (auto simp: BSIZE_def NINDIRECT_def nat_neq_iff)
    then show "file_blk ?V k m = ((file_blk V k)(NDIRECT + j := b)) m" using i(1) by (auto simp: file_blk_def)
  qed
  then show "file_blk ?V k (NDIRECT + j) = b" by simp
  have ib: "ind_blk k \<noteq> b" "ind_blk k \<noteq> bm_of sp"
    using fresh_block(1) [OF l b ok] ownedI(2) [OF i(1)] data_blkD(1) [OF l(1) file_okD(2) [OF ok ownedI(2) [OF i(1)]]] by blast+
  show "extends sp V k ?V k"
  proof (rule attach [OF l b ok])
    show "k = k\<lparr>i_addrs := i_addrs k\<rparr>" "length (i_addrs k) = 13" using L by simp_all
    show "?V b = replicate BSIZE 0" "?V (bm_of sp) = allocd sp b V (bm_of sp)" using ib A(4) by simp_all
    show "?V c = allocd sp b V c" if "c = ind_blk k \<longrightarrow> c = 0" for c using that i(1) by auto
    have "NDIRECT + j < MAXFILE" "file_blk V k (NDIRECT + j) = 0" using i by (simp_all add: MAXFILE_def file_blk_def)
    then show "(NDIRECT + j < MAXFILE \<and> file_blk V k (NDIRECT + j) = 0 \<and> file_blk ?V k = (file_blk V k)(NDIRECT + j := b) \<and> ind_blk k = ind_blk k) \<or>
      (ind_blk k = 0 \<and> ind_blk k = b \<and> (\<forall>m<MAXFILE. file_blk ?V k m = file_blk V k m))" using e by blast
  qed
qed


section \<open>Allocating in \<open>bmap\<close>\<close>

lemma addrs_update: "i_addrs_update f (k :: inode) = k\<lparr>i_addrs := f (i_addrs k)\<rparr>"
  by (cases k) simp

lemma bmap_addr_new:
  assumes x: "intx r W V Map.empty I s" and l: "layout (l_start r) (sb r) V" and d: "i_dev (I ip) = 1" and z: "i_addrs (I ip) ! i = 0"
    and W: "bm_of (sb r) \<in> W" "int (card W + 1) < l_size r - 1" "0 < card (free_blks (sb r) V)"
    and k: "\<And>b t. data_blk (sb r) b \<Longrightarrow> \<not> used (sb r) V b \<Longrightarrow>
      intx r (insert b W) (allocd (sb r) b V) Map.empty (I(ip := (I ip)\<lparr>i_addrs := (i_addrs (I ip))[i := b]\<rparr>)) t \<Longrightarrow> wp (F (b, t)) Q"
  shows "wp (rbind (bmap_addr ip i s) F) Q"
proof -
  obtain bi where f: "next_free (sb r) V = Some bi" using free_exists [OF l W(3)] .
  note N = next_freeD [OF l f]
  have rm: "room r (insert (of_nat bi) W)" by (rule room_insert [OF intxD(4) [OF x] W(2) N(5,6)])
  show ?thesis unfolding bmap_addr_def intxD(3) [OF x] if_P [OF z] d rbind_assoc
  proof (rule balloc_spec [OF x l _ _ _ W(1) rm f], goal_cases)
    case (4 t)
    have "wp (F (of_nat bi, upd_inode ip (i_addrs_update (\<lambda>a. a[i := of_nat bi])) t)) Q"
      by (rule k [OF N(2,3)]) (use intx_inode [OF 4, of ip "i_addrs_update (\<lambda>a. a[i := of_nat bi])"] addrs_update [of "\<lambda>a. a[i := of_nat bi]" "I ip"] in simp)
    then show ?case by simp
  qed simp_all
qed

lemma bmap_entry_new:
  assumes x: "intx r W V Map.empty I s" and l: "layout (l_start r) (sb r) V" and d: "i_dev (I ip) = 1" and z: "get32 (V a) (4 * j) = 0"
    and a: "a \<in> W" "data_blk (sb r) a" "used (sb r) V a"
    and W: "bm_of (sb r) \<in> W" "int (card W + 1) < l_size r - 1" "0 < card (free_blks (sb r) V)"
    and k: "\<And>b t. data_blk (sb r) b \<Longrightarrow> \<not> used (sb r) V b \<Longrightarrow>
      intx r (insert b W) ((allocd (sb r) b V)(a := put32 (V a) (4 * j) b)) Map.empty I t \<Longrightarrow> wp (F (b, t)) Q"
  shows "wp (rbind (bmap_entry ip a j s) F) Q"
proof -
  obtain bi where f: "next_free (sb r) V = Some bi" using free_exists [OF l W(3)] .
  note N = next_freeD [OF l f] and A = data_blkD [OF l a(2)]
  have ab: "a \<noteq> of_nat bi" using N(3) a(3) by auto
  have rm: "room r (insert (of_nat bi) W)" by (rule room_insert [OF intxD(4) [OF x] W(2) N(5,6)])
  have Va: "allocd (sb r) (of_nat bi) V a = V a" using A(1) ab by (simp add: allocd_def)
  show ?thesis unfolding bmap_entry_def intxD(3) [OF x] d rbind_assoc
  proof (rule intx_bread [OF x _ A(4)], goal_cases)
    case (3 i t)
    have "wp (rbind (balloc 1 t) (\<lambda>x. rbind (log_release i (\<lambda>d. put32 d (4 * j) (fst x)) (snd x)) (\<lambda>s. F (fst x, s)))) Q"
    proof (rule balloc_spec [OF 3(1) l _ _ _ W(1) rm f], goal_cases)
      case (4 u)
      show ?case unfolding fst_conv snd_conv
        by (rule intx_release [OF 4, where b = a]) (use a(1) intxD(8) [OF x] Va k [OF N(2,3)] in \<open>simp_all del: fun_upd_apply add: fun_upd_same\<close>)
    qed (use A(1) ab a(1) in auto)
    then show ?case using z 3(2) d intxD(3) [OF 3(1)] by (simp add: rbind_assoc split_beta del: wp_rbind)
  qed simp_all
qed

text \<open>The budget of log blocks and free blocks, as blocks are added.\<close>

lemma writable_step:
  assumes w: "writable r W V k (Suc m)" and fin: "finite W" and i: "ind_blk k' = ind_blk k"
    and f: "card (free_blks (sb r) V) \<le> card (free_blks (sb r) V') + 1"
  shows "writable r (insert b W) V' k' m"
  using assms by (auto simp: writable_def ind_cost_def card_insert_if)

lemma writable_ind:
  assumes w: "writable r W V k m" and fin: "finite W" and i: "ind_blk k = 0" "ind_blk k' = b" "b \<noteq> 0"
    and f: "card (free_blks (sb r) V) = card (free_blks (sb r) V') + 1"
  shows "writable r (insert b W) V' k' m"
  using assms by (auto simp: writable_def ind_cost_def card_insert_if)

definition bmapped :: "'a fs_state_scheme \<Rightarrow> uint set \<Rightarrow> (uint \<Rightarrow> block) \<Rightarrow> (nat \<Rightarrow> inode) \<Rightarrow> nat \<Rightarrow> nat \<Rightarrow> nat \<Rightarrow> uint \<times> 'a fs_state_scheme \<Rightarrow> bool" where
  "bmapped r W V I ip n m = (\<lambda>(a, t). \<exists>W' V' k'. extends (sb r) V (I ip) V' k' \<and> a = file_blk V' k' n \<and> a \<noteq> 0 \<and> a \<in> W' \<and>
     intx r W' V' Map.empty (I(ip := k')) t \<and> W \<subseteq> W' \<and> W' \<subseteq> W \<union> owned V' k' \<and> writable r W' V' k' m \<and>
     (file_blk V (I ip) n \<noteq> 0 \<longrightarrow> V' = V \<and> k' = I ip))"

lemma bmap_entry_spec:
  assumes x: "intx r W V Map.empty I s" and l: "layout (l_start r) (sb r) V" and ok: "file_ok (sb r) V (I ip)" and d: "i_dev (I ip) = 1"
    and n: "j < NINDIRECT" "file_blk V (I ip) (NDIRECT + j) = 0" and i: "ind_blk (I ip) \<noteq> 0" and w: "writable r W V (I ip) (Suc m)"
  shows "wp (bmap_entry ip (ind_blk (I ip)) j s) (bmapped r W V I ip (NDIRECT + j) m)"
proof -
  let ?k = "I ip" and ?a = "ind_blk (I ip)"
  have z: "get32 (V ?a) (4 * j) = 0" using n i by (simp add: file_blk_def)
  have W: "?a \<in> W" "bm_of (sb r) \<in> W" "int (card W + 1) < l_size r - 1" "0 < card (free_blks (sb r) V)" using w i by (auto simp: writable_def)
  note O = ownedI(2) [OF i, of V]
  have fin: "finite W" using roomD(1) [OF intxD(4) [OF x]] .
  note B = bmap_entry_new [where F = Ok, OF x l d z W(1) file_okD(2,3) [OF ok O] W(2,3,4)]
  have "wp (rbind (bmap_entry ip ?a j s) Ok) (bmapped r W V I ip (NDIRECT + j) m)"
  proof (rule B)
    fix b t
    let ?V = "(allocd (sb r) b V)(?a := put32 (V ?a) (4 * j) b)"
    assume b: "data_blk (sb r) b" "\<not> used (sb r) V b" and t: "intx r (insert b W) ?V Map.empty I t"
    note A = attach_entry [OF l intxD(8) [OF x] b ok i n(1) z]
    have "?a \<noteq> bm_of (sb r)" using data_blkD(1) [OF l file_okD(2) [OF ok O]] .
    then have "card (free_blks (sb r) V) = card (free_blks (sb r) ?V) + 1"
      by (intro free_allocd [OF l intxD(8) [OF x] b]) simp
    then have w': "writable r (insert b W) ?V ?k m" by (intro writable_step [OF w fin]) simp_all
    have o: "b \<in> owned ?V ?k" using ownedI(1) [of "NDIRECT + j" ?V ?k] A(2) data_blkD(3) [OF l b(1)] n(1) by (simp add: MAXFILE_def)
    show "wp (Ok (b, t)) (bmapped r W V I ip (NDIRECT + j) m)" unfolding wp_simps bmapped_def prod.case
      by (intro exI [of _ "insert b W"] exI [of _ ?V] exI [of _ ?k]) (use A t w' o n data_blkD(3) [OF l b(1)] in auto)
  qed
  then show ?thesis by simp
qed

lemma bmapped_trans:
  assumes l: "layout (l_start r) (sb r) V" and ok: "file_ok (sb r) V (I ip)" and e: "extends (sb r) V (I ip) V1 k1"
    and n: "file_blk V (I ip) n = 0" and W: "W \<subseteq> W1" "W1 \<subseteq> W \<union> owned V1 k1" and b: "bmapped r W1 V1 (I(ip := k1)) ip n m x"
  shows "bmapped r W V I ip n m x"
proof -
  obtain a t W' V' k' where x: "x = (a, t)" and f: "extends (sb r) V1 k1 V' k'" "a = file_blk V' k' n" "a \<noteq> 0" "a \<in> W'"
    "intx r W' V' Map.empty (I(ip := k')) t" "W1 \<subseteq> W'" "W' \<subseteq> W1 \<union> owned V' k'" "writable r W' V' k' m"
    using b unfolding bmapped_def by (cases x) auto
  have "owned V1 k1 \<subseteq> owned V' k'" using f(1) by (rule extendsD(5))
  then have "W' \<subseteq> W \<union> owned V' k'" using W f(7) by blast
  moreover have "W \<subseteq> W'" using W f(6) by blast
  ultimately show ?thesis unfolding x bmapped_def prod.case using extends_trans [OF l ok e f(1)] f(2-5,8) n by blast
qed

lemma bmap_addr_spec:
  assumes x: "intx r W V Map.empty I s" and l: "layout (l_start r) (sb r) V" and ok: "file_ok (sb r) V (I ip)" and d: "i_dev (I ip) = 1"
    and n: "n < NDIRECT" "file_blk V (I ip) n = 0" and w: "writable r W V (I ip) (Suc m)"
  shows "wp (bmap_addr ip n s) (bmapped r W V I ip n m)"
proof -
  have W: "bm_of (sb r) \<in> W" "int (card W + 1) < l_size r - 1" "0 < card (free_blks (sb r) V)" using w by (auto simp: writable_def)
  have z: "i_addrs (I ip) ! n = 0" using n by (simp add: file_blk_def)
  have fin: "finite W" using roomD(1) [OF intxD(4) [OF x]] .
  have "wp (rbind (bmap_addr ip n s) Ok) (bmapped r W V I ip n m)"
  proof (rule bmap_addr_new [where F = Ok, OF x l d z W])
    fix b t
    let ?V = "allocd (sb r) b V" and ?k = "(I ip)\<lparr>i_addrs := (i_addrs (I ip))[n := b]\<rparr>"
    assume b: "data_blk (sb r) b" "\<not> used (sb r) V b" and t: "intx r (insert b W) ?V Map.empty (I(ip := ?k)) t"
    note A = attach_direct [OF l intxD(8) [OF x] b ok n(1) z]
    have "card (free_blks (sb r) V) = card (free_blks (sb r) ?V) + 1" by (intro free_allocd [OF l intxD(8) [OF x] b]) simp
    then have w': "writable r (insert b W) ?V ?k m" by (intro writable_step [OF w fin]) (use n(1) in simp_all)
    have o: "b \<in> owned ?V ?k" using ownedI(1) [of n ?V ?k] A(2) data_blkD(3) [OF l b(1)] n(1) by (simp add: MAXFILE_def)
    show "wp (Ok (b, t)) (bmapped r W V I ip n m)" unfolding wp_simps bmapped_def prod.case
      by (intro exI [of _ "insert b W"] exI [of _ ?V] exI [of _ ?k]) (use A t w' o n data_blkD(3) [OF l b(1)] in auto)
  qed
  then show ?thesis by simp
qed

lemma bmap_indirect_spec:
  assumes x: "intx r W V Map.empty I s" and l: "layout (l_start r) (sb r) V" and ok: "file_ok (sb r) V (I ip)" and d: "i_dev (I ip) = 1"
    and j: "j < NINDIRECT" and i: "ind_blk (I ip) = 0" and w: "writable r W V (I ip) (Suc m)"
  shows "wp (rbind (bmap_addr ip NDIRECT s) (\<lambda>(addr, s). bmap_entry ip addr j s)) (bmapped r W V I ip (NDIRECT + j) m)"
proof -
  have W: "bm_of (sb r) \<in> W" "int (card W + 1) < l_size r - 1" "0 < card (free_blks (sb r) V)" using w by (auto simp: writable_def)
  have fin: "finite W" using roomD(1) [OF intxD(4) [OF x]] .
  show ?thesis
  proof (rule bmap_addr_new [OF x l d i W], unfold prod.case)
    fix b t
    let ?V = "allocd (sb r) b V" and ?k = "(I ip)\<lparr>i_addrs := (i_addrs (I ip))[NDIRECT := b]\<rparr>"
    assume b: "data_blk (sb r) b" "\<not> used (sb r) V b" and t: "intx r (insert b W) ?V Map.empty (I(ip := ?k)) t"
    note A = attach_indirect [OF l intxD(8) [OF x] b ok i] and b0 = data_blkD(3) [OF l b(1)]
    note l' = extends_layout [OF l ok A(1)]
    have "card (free_blks (sb r) V) = card (free_blks (sb r) ?V) + 1" by (intro free_allocd [OF l intxD(8) [OF x] b]) simp
    then have w': "writable r (insert b W) ?V ?k (Suc m)" by (intro writable_ind [OF w fin i A(2) b0])
    have z: "get32 (replicate BSIZE 0) (4 * j) = 0" using j by (simp add: get32_def NINDIRECT_def BSIZE_def)
    have f0: "file_blk ?V ?k (NDIRECT + j) = 0" using A(2) b0 allocd_layout(4) [OF l intxD(8) [OF x] b(1)] z by (simp add: file_blk_def)
    have "b \<in> owned ?V ?k" using ownedI(2) [of ?k ?V] A(2) b0 by simp
    then have W1: "insert b W \<subseteq> W \<union> owned ?V ?k" by blast
    have e: "(I(ip := ?k)) ip = ?k" by simp
    have "wp (bmap_entry ip (ind_blk ((I(ip := ?k)) ip)) j t) (bmapped r (insert b W) ?V (I(ip := ?k)) ip (NDIRECT + j) m)"
      by (rule bmap_entry_spec [OF t l']) (use extendsD(1) [OF A(1)] d j f0 A(2) b0 w' in \<open>simp_all only: e, simp_all\<close>)
    then have "wp (bmap_entry ip b j t) (bmapped r (insert b W) ?V (I(ip := ?k)) ip (NDIRECT + j) m)" unfolding e A(2) .
    then show "wp (bmap_entry ip b j t) (bmapped r W V I ip (NDIRECT + j) m)"
      by (rule wp_mono) (rule bmapped_trans [where I = I and ip = ip, OF l ok A(1) _ _ W1], use i in \<open>auto simp: file_blk_def\<close>)
  qed
qed

lemma bmap_spec:
  assumes x: "intx r W V Map.empty I s" and l: "layout (l_start r) (sb r) V" and ok: "file_ok (sb r) V (I ip)" and d: "i_dev (I ip) = 1"
    and n: "unat bn < MAXFILE" and w: "writable r W V (I ip) (Suc m)"
  shows "wp (bmap ip bn s) (bmapped r W V I ip (unat bn) m)"
proof (cases "file_blk V (I ip) (unat bn) = 0")
  case True
  show ?thesis
  proof (cases "unat bn < NDIRECT")
    case direct: True
    show ?thesis using bmap_addr_spec [OF x l ok d direct True w] direct by (simp add: bmap_unfold [OF n])
  next
    case indirect: False
    have j: "unat bn - NDIRECT < NINDIRECT" "NDIRECT + (unat bn - NDIRECT) = unat bn" using n indirect by (simp_all add: MAXFILE_def)
    have e: "bmap ip bn s = rbind (bmap_addr ip NDIRECT s) (\<lambda>(addr, s). bmap_entry ip addr (unat bn - NDIRECT) s)"
      using indirect by (simp add: bmap_unfold [OF n])
    show ?thesis
    proof (cases "ind_blk (I ip) = 0")
      case False
      have "bmap ip bn s = bmap_entry ip (ind_blk (I ip)) (unat bn - NDIRECT) s" unfolding e using False intxD(3) [OF x] by (simp add: bmap_addr_def)
      then show ?thesis using bmap_entry_spec [OF x l ok d j(1) _ False w] True j(2) by simp
    qed (use bmap_indirect_spec [OF x l ok d j(1) _ w] j(2) e in simp)
  qed
next
  case False
  let ?a = "file_blk V (I ip) (unat bn)"
  have o: "?a \<in> owned V (I ip)" using n False by (rule ownedI)
  note D = data_blkD [OF l file_okD(2) [OF ok o]]
  have fin: "finite W" using roomD(1) [OF intxD(4) [OF x]] .
  have "room r (insert ?a W)" using w by (intro room_insert [OF intxD(4) [OF x] _ D(4,5)]) (auto simp: writable_def)
  then have rm: "room r (W \<union> {?a})" by simp
  have "wp (rbind (bmap ip bn s) Ok) (bmapped r W V I ip (unat bn) m)"
  proof (rule bmap_existing [OF x l ok d n False])
    fix t assume t: "intx r W V Map.empty I t"
    have "intx r (insert ?a W) V Map.empty (I(ip := I ip)) t" using intx_grow [OF t rm] by simp
    moreover have "writable r (insert ?a W) V (I ip) m" using writable_step [OF w fin, of "I ip" V ?a] by simp
    ultimately show "wp (Ok (?a, t)) (bmapped r W V I ip (unat bn) m)"
      unfolding wp_simps bmapped_def prod.case using extends_refl [OF ok] False o
      by (intro exI [of _ "insert ?a W"] exI [of _ V] exI [of _ "I ip"]) auto
  qed
  then show ?thesis by simp
qed

end
