(* ===== verification/Fs_Data.thy ===== *)
theory Fs_Data
  imports Fs_File
begin

text \<open>
  Reading and writing the contents of a file: \<open>readi\<close> returns the bytes of the file and changes nothing, \<open>writei\<close> changes the
  bytes it is told to and grows the file, and no other file can tell.
\<close>

section \<open>Bytes\<close>

text \<open>Byte \<open>o\<close> of the file; where there is no block it is 0.\<close>

definition byte_at :: "(uint \<Rightarrow> block) \<Rightarrow> inode \<Rightarrow> nat \<Rightarrow> uchar" where
  "byte_at V k p = (let a = file_blk V k (p div BSIZE) in if a = 0 then 0 else V a ! (p mod BSIZE))"

definition file_bytes :: "(uint \<Rightarrow> block) \<Rightarrow> inode \<Rightarrow> uchar list" where
  "file_bytes V k = map (byte_at V k) [0..<unat (i_size k)]"

lemma chunk_block:
  assumes "off \<le> p" "p < off + m" "m \<le> BSIZE - off mod BSIZE"
  shows "p div BSIZE = off div BSIZE" "p mod BSIZE = off mod BSIZE + (p - off)"
proof -
  have B: "0 < BSIZE" by (simp add: BSIZE_def)
  have p: "p = BSIZE * (off div BSIZE) + (off mod BSIZE + (p - off))" using assms(1) by simp
  moreover have r: "off mod BSIZE + (p - off) < BSIZE" using assms B by (simp add: less_diff_conv)
  ultimately have "BSIZE * (off div BSIZE) \<le> p" "p < BSIZE * Suc (off div BSIZE)" unfolding mult_Suc_right by linarith+
  then show d: "p div BSIZE = off div BSIZE" by (rule div_nat_eqI)
  show "p mod BSIZE = off mod BSIZE + (p - off)" using p mult_div_mod_eq [of BSIZE p, unfolded d] by linarith
qed

lemma chunk_le: "chunk off left \<le> BSIZE - unat off mod BSIZE"
  by (simp add: chunk_def)

lemma take_chunk:
  assumes "length (V a) = BSIZE" "a = file_blk V k (off div BSIZE)" "a \<noteq> 0" "m \<le> BSIZE - off mod BSIZE"
  shows "take m (drop (off mod BSIZE) (V a)) = map (byte_at V k) [off..<off + m]"
proof (rule nth_equalityI)
  have "off mod BSIZE < BSIZE" by (simp add: BSIZE_def)
  then show l: "length (take m (drop (off mod BSIZE) (V a))) = length (map (byte_at V k) [off..<off + m])" using assms by simp
  fix i assume "i < length (take m (drop (off mod BSIZE) (V a)))"
  then have i: "i < m" by simp
  then show "take m (drop (off mod BSIZE) (V a)) ! i = map (byte_at V k) [off..<off + m] ! i"
    using chunk_block [of off "off + i" m] assms \<open>off mod BSIZE < BSIZE\<close> by (simp add: byte_at_def)
qed

lemma off_word:
  fixes off :: uint
  assumes "unat off + m \<le> MAXFILE * BSIZE"
  shows "unat (off + of_nat m) = unat off + m" "unat (off div of_nat BSIZE) = unat off div BSIZE"
proof -
  have m: "unat off + m \<le> 71680" using assms by (simp add: MAXFILE_def NDIRECT_def NINDIRECT_def BSIZE_def)
  then have "unat (of_nat m :: uint) = m" by (simp add: unat_of_nat take_bit_nat_eq_self)
  moreover from this have "unat off + unat (of_nat m :: uint) < 2 ^ LENGTH(32)" using m by simp
  note unat_add_lem [THEN iffD1, OF this]
  ultimately show "unat (off + of_nat m) = unat off + m" by simp
  show "unat (off div of_nat BSIZE) = unat off div BSIZE" by (simp add: BSIZE_def unat_div)
qed

section \<open>Reading\<close>

lemma readi_loop_spec:
  assumes x: "intx r W V Map.empty I s" and l: "layout (l_start r) (sb r) V" and ok: "file_ok (sb r) V (I ip)" and d: "i_dev (I ip) = 1"
    and n: "unat off + left \<le> MAXFILE * BSIZE" "\<And>p. unat off \<le> p \<Longrightarrow> p < unat off + left \<Longrightarrow> file_blk V (I ip) (p div BSIZE) \<noteq> 0"
  shows "wp (readi_loop ip off left s) (\<lambda>(ys, t). ys = map (byte_at V (I ip)) [unat off..<unat off + left] \<and> intx r W V Map.empty I t)"
  using x n
proof (induction left arbitrary: off s rule: less_induct)
  case (less left off s)
  show ?case
  proof (cases "0 < left")
    case False
    then show ?thesis using less.prems by (simp add: readi_loop.simps)
  next
    case True
    let ?m = "chunk off left" and ?a = "file_blk V (I ip) (unat off div BSIZE)" and ?o = "unat off mod BSIZE"
    have m: "0 < ?m" "?m \<le> left" "?m \<le> BSIZE - ?o" using True chunk_bounds chunk_le by blast+
    have w: "unat (off + of_nat ?m) = unat off + ?m" "unat (off div of_nat BSIZE) = unat off div BSIZE"
      using off_word [of off ?m] less.prems(2) m(2) by simp_all
    have a: "?a \<noteq> 0" using less.prems(3) [of "unat off"] True by simp
    have "unat off < MAXFILE * BSIZE" using less.prems(2) True by simp
    then have bn: "unat off div BSIZE < MAXFILE" by (simp add: less_mult_imp_div_less)
    have xs: "take ?m (drop ?o (V ?a)) = map (byte_at V (I ip)) [unat off..<unat off + ?m]"
      by (rule take_chunk [OF intxD(8) [OF less.prems(1)] refl a m(3)])
    have up: "[unat off..<unat off + ?m] @ [unat off + ?m..<unat off + left] = [unat off..<unat off + left]"
      using upt_add_eq_append [of "unat off" "unat off + ?m" "left - ?m"] m(2) by simp
    have IH: "wp (readi_loop ip (off + of_nat ?m) (left - ?m) u) (\<lambda>(ys, t). ys = map (byte_at V (I ip)) [unat off + ?m..<unat off + left] \<and> intx r W V Map.empty I t)"
      if u: "intx r W V Map.empty I u" for u
      using less.IH [of "left - ?m" u "off + of_nat ?m"] m u less.prems(2,3) by (simp add: w(1))
    show ?thesis unfolding readi_loop.simps [of ip off left] if_P [OF True]
    proof (rule bmap_existing [OF less.prems(1) l ok d], unfold w(2) prod.case)
      show "unat off div BSIZE < MAXFILE" "?a \<noteq> 0" using bn a .
      fix t assume t: "intx r W V Map.empty I t"
      note D = data_blkD [OF l file_okD(2) [OF ok ownedI(1) [OF bn a]]]
      show "wp (rbind (bread (i_dev (inodes t ip)) ?a t) (\<lambda>(bp, s). let m = ?m; xs = take m (drop ?o (b_data (bufs s bp)))
          in rbind (brelse bp s) (\<lambda>s. rbind (readi_loop ip (off + of_nat m) (left - m) s) (\<lambda>(ys, s). Ok (xs @ ys, s)))))
        (\<lambda>(ys, t). ys = map (byte_at V (I ip)) [unat off..<unat off + left] \<and> intx r W V Map.empty I t)"
        unfolding intxD(3) [OF t] d
      proof (rule intx_bread [OF t _ D(4)], goal_cases)
        case (3 i u)
        show ?case unfolding prod.case Let_def 3(2) xs
        proof (rule intx_brelse [OF 3(1), where b = ?a], goal_cases)
          case (2 v)
          then have "intx r W V Map.empty I v" by simp
          from IH [OF this] show ?case by (rule wp_bindI) (auto simp: up [symmetric])
        qed simp
      qed simp_all
    qed
  qed
qed

lemma no_holesD: "no_holes V k \<Longrightarrow> unat (i_size k) \<le> MAXFILE * BSIZE" "no_holes V k \<Longrightarrow> p < unat (i_size k) \<Longrightarrow> file_blk V k (p div BSIZE) \<noteq> 0"
proof -
  assume h: "no_holes V k" and p: "p < unat (i_size k)"
  have "p div BSIZE * BSIZE \<le> p" by simp
  then have "p div BSIZE * BSIZE < unat (i_size k)" using p by linarith
  then show "file_blk V k (p div BSIZE) \<noteq> 0" using h by (simp add: no_holes_def)
qed (simp add: no_holes_def)

lemma sint_count: "unat (n :: uint) \<le> MAXFILE * BSIZE \<Longrightarrow> sint n = int (unat n)"
proof -
  assume "unat n \<le> MAXFILE * BSIZE"
  then have "unat n < 2 ^ 31" by (simp add: MAXFILE_def NDIRECT_def NINDIRECT_def BSIZE_def)
  then show "sint n = int (unat n)" by (rule sint_small_word)
qed

lemma drop_bytes:
  assumes "unat off \<le> unat (i_size k)" "n = min m (unat (i_size k) - unat off)"
  shows "map (byte_at V k) [unat off..<unat off + n] = take m (drop (unat off) (file_bytes V k))"
proof -
  have "drop (unat off) [0..<unat (i_size k)] = [unat off..<unat (i_size k)]" by simp
  moreover have "take m [unat off..<unat (i_size k)] = [unat off..<unat off + n]"
    using assms by (cases "m \<le> unat (i_size k) - unat off") simp_all
  ultimately show ?thesis by (simp add: file_bytes_def drop_map take_map)
qed

lemma readi_spec:
  assumes x: "intx r W V Map.empty I s" and l: "layout (l_start r) (sb r) V" and ok: "file_ok (sb r) V (I ip)" "no_holes V (I ip)"
    and d: "i_dev (I ip) = 1" "i_type (I ip) \<noteq> T_DEV" and n: "off \<le> i_size (I ip)" "unat off + unat n < 2 ^ 32"
  shows "wp (readi dv ip off n s) (\<lambda>(c, ys, t). ys = take (unat n) (drop (unat off) (file_bytes V (I ip))) \<and> c = int (length ys) \<and>
    intx r W V Map.empty I t)"
proof -
  let ?k = "I ip"
  define n' where "n' = (if i_size ?k < off + n then i_size ?k - off else n)"
  have u: "unat (off + n) = unat off + unat n" using n(2) by (simp add: unat_add_lem [THEN iffD1])
  have n': "unat n' = min (unat n) (unat (i_size ?k) - unat off)"
    using n(1) u by (simp add: n'_def word_less_nat_alt unat_sub word_le_nat_alt)
  have le: "unat off + unat n' \<le> unat (i_size ?k)" using n(1) n' by (simp add: word_le_nat_alt)
  have "wp (readi_loop ip off (unat n') s) (\<lambda>(ys, t). ys = map (byte_at V ?k) [unat off..<unat off + unat n'] \<and> intx r W V Map.empty I t)"
    by (rule readi_loop_spec [OF x l ok(1) d(1)]) (use no_holesD [OF ok(2)] le in \<open>auto intro: order_trans\<close>)
  moreover have "readi dv ip off n s = rbind (readi_loop ip off (unat n') s) (\<lambda>(ys, s). Ok (sint n', ys, s))"
    using d(2) n u intxD(3) [OF x] by (simp add: readi_def Let_def n'_def word_less_nat_alt word_le_nat_alt)
  moreover have "sint n' = int (unat n')" by (rule sint_count) (use no_holesD(1) [OF ok(2)] le in linarith)
  moreover have "map (byte_at V ?k) [unat off..<unat off + unat n'] = take (unat n) (drop (unat off) (file_bytes V ?k))"
    using n(1) by (intro drop_bytes n') (simp add: word_le_nat_alt)
  moreover have "length (map (byte_at V ?k) [unat off..<unat off + unat n']) = unat n'" by simp
  ultimately show ?thesis by (auto elim!: wp_mono)
qed

section \<open>Writing\<close>

text \<open>
  \<open>file_put sp V k off src V' k'\<close>: the bytes \<open>src\<close> have been put into the file at \<open>off\<close>, in blocks it had or blocks that were
  free; the rest of the file, and every block that is not the file's, is as before.
\<close>

definition file_put :: "superblock \<Rightarrow> (uint \<Rightarrow> block) \<Rightarrow> inode \<Rightarrow> nat \<Rightarrow> uchar list \<Rightarrow> (uint \<Rightarrow> block) \<Rightarrow> inode \<Rightarrow> bool" where
  "file_put sp V k off src V' k' \<longleftrightarrow> file_ok sp V' k' \<and> (\<exists>a. k' = k\<lparr>i_addrs := a\<rparr>) \<and>
     (\<forall>b. b < sb_size sp \<longrightarrow> (used sp V' b \<longleftrightarrow> used sp V b \<or> b \<in> owned V' k' - owned V k)) \<and>
     owned V k \<subseteq> owned V' k' \<and> (\<forall>b\<in>owned V' k' - owned V k. \<not> used sp V b) \<and>
     (\<forall>n<MAXFILE. file_blk V k n \<noteq> 0 \<longrightarrow> file_blk V' k' n = file_blk V k n) \<and>
     (\<forall>p<MAXFILE * BSIZE. byte_at V' k' p = (if off \<le> p \<and> p < off + length src then src ! (p - off) else byte_at V k p)) \<and>
     (\<forall>p. off \<le> p \<longrightarrow> p < off + length src \<longrightarrow> file_blk V' k' (p div BSIZE) \<noteq> 0) \<and>
     ((\<forall>p. off \<le> p \<longrightarrow> p < off + length src \<longrightarrow> file_blk V k (p div BSIZE) \<noteq> 0) \<longrightarrow> k' = k) \<and>
     (\<forall>b. b \<noteq> bm_of sp \<longrightarrow> b \<notin> owned V' k' \<longrightarrow> V' b = V b)"

lemma file_putD:
  assumes "file_put sp V k off src V' k'"
  shows "file_ok sp V' k'" "\<exists>a. k' = k\<lparr>i_addrs := a\<rparr>"
    "b < sb_size sp \<Longrightarrow> used sp V' b \<longleftrightarrow> used sp V b \<or> b \<in> owned V' k' - owned V k" "owned V k \<subseteq> owned V' k'"
    "b \<in> owned V' k' \<Longrightarrow> b \<notin> owned V k \<Longrightarrow> \<not> used sp V b"
    "n < MAXFILE \<Longrightarrow> file_blk V k n \<noteq> 0 \<Longrightarrow> file_blk V' k' n = file_blk V k n"
    "p < MAXFILE * BSIZE \<Longrightarrow> byte_at V' k' p = (if off \<le> p \<and> p < off + length src then src ! (p - off) else byte_at V k p)"
    "off \<le> p \<Longrightarrow> p < off + length src \<Longrightarrow> file_blk V' k' (p div BSIZE) \<noteq> 0"
    "(\<And>p. off \<le> p \<Longrightarrow> p < off + length src \<Longrightarrow> file_blk V k (p div BSIZE) \<noteq> 0) \<Longrightarrow> k' = k"
    "b \<noteq> bm_of sp \<Longrightarrow> b \<notin> owned V' k' \<Longrightarrow> V' b = V b"
  using assms unfolding file_put_def by blast+

lemma extends_bytes:
  assumes l: "layout st sp V" and ok: "file_ok sp V k" and e: "extends sp V k V' k'" and p: "p < MAXFILE * BSIZE"
  shows "byte_at V' k' p = byte_at V k p"
proof -
  let ?n = "p div BSIZE"
  have n: "?n < MAXFILE" using p by (simp add: less_mult_imp_div_less)
  have B: "p mod BSIZE < BSIZE" by (simp add: BSIZE_def)
  show ?thesis
  proof (cases "file_blk V k ?n = 0")
    case True
    then show ?thesis using extendsD(8) [OF e n True] B by (auto simp: byte_at_def Let_def)
  next
    case False
    then show ?thesis using extends_data [OF l ok e n False] extendsD(7) [OF e n False] by (simp add: byte_at_def)
  qed
qed

lemma used_cong:
  assumes "layout st sp V" "V' (bm_of sp) = V (bm_of sp)" "b < sb_size sp"
  shows "used sp V' b = used sp V b"
  using map_block(3) [OF assms(1,3)] assms(2) by simp

lemma splice_nth:
  assumes "length d = BSIZE" "q < BSIZE" "j + length xs \<le> BSIZE"
  shows "(take j d @ xs @ drop (j + length xs) d) ! q = (if j \<le> q \<and> q < j + length xs then xs ! (q - j) else d ! q)"
  using assms by (auto simp: nth_append)

lemma put_bytes:
  assumes ok: "file_ok sp V1 k1" and n: "off div BSIZE < MAXFILE" "a = file_blk V1 k1 (off div BSIZE)" "a \<noteq> 0" "length (V1 a) = BSIZE"
    and xs: "length xs \<le> BSIZE - off mod BSIZE" and f: "file_blk V2 k1 = file_blk V1 k1"
    and V2: "V2 = V1(a := take (off mod BSIZE) (V1 a) @ xs @ drop (off mod BSIZE + length xs) (V1 a))" and p: "p < MAXFILE * BSIZE"
  shows "byte_at V2 k1 p = (if off \<le> p \<and> p < off + length xs then xs ! (p - off) else byte_at V1 k1 p)"
proof -
  have B: "p mod BSIZE < BSIZE" "off mod BSIZE < BSIZE" by (simp_all add: BSIZE_def)
  have m: "p div BSIZE < MAXFILE" using p by (simp add: less_mult_imp_div_less)
  show ?thesis
  proof (cases "p div BSIZE = off div BSIZE")
    case True
    have "p = off div BSIZE * BSIZE + p mod BSIZE" "off = off div BSIZE * BSIZE + off mod BSIZE" using True by (metis div_mult_mod_eq, simp)
    then have "off \<le> p \<longleftrightarrow> off mod BSIZE \<le> p mod BSIZE" "p < off + length xs \<longleftrightarrow> p mod BSIZE < off mod BSIZE + length xs"
      "p - off = p mod BSIZE - off mod BSIZE" by linarith+
    moreover have "byte_at V2 k1 p = V2 a ! (p mod BSIZE)" "byte_at V1 k1 p = V1 a ! (p mod BSIZE)" using True n f by (simp_all add: byte_at_def)
    ultimately show ?thesis using splice_nth [OF n(4) B(1), of "off mod BSIZE" xs] xs B V2 by simp
  next
    case False
    have "\<not> (off \<le> p \<and> p < off + length xs)" using False chunk_block(1) [of off p "length xs"] xs by blast
    moreover have "file_blk V1 k1 (p div BSIZE) \<noteq> a"
      using file_okD(5) [OF ok n(1) m] n(2,3) False by metis
    moreover have "V2 c = V1 c" if "c \<noteq> a" for c using that V2 by simp
    ultimately show ?thesis using f by (auto simp: byte_at_def Let_def)
  qed
qed

lemma put_step:
  assumes l: "layout st sp V" and ok: "file_ok sp V k" and e: "extends sp V k V1 k1" "file_blk V k (off div BSIZE) \<noteq> 0 \<longrightarrow> k1 = k"
    and n: "off div BSIZE < MAXFILE" "a = file_blk V1 k1 (off div BSIZE)" "a \<noteq> 0" "length (V1 a) = BSIZE"
    and xs: "xs \<noteq> []" "length xs \<le> BSIZE - off mod BSIZE"
    and V2: "V2 = V1(a := take (off mod BSIZE) (V1 a) @ xs @ drop (off mod BSIZE + length xs) (V1 a))"
  shows "file_put sp V k off xs V2 k1" "layout st sp V2" "b < sb_size sp \<Longrightarrow> used sp V2 b = used sp V1 b" "owned V2 k1 = owned V1 k1"
proof -
  note E = extendsD [OF e(1)]
  have l1: "layout st sp V1" by (rule extends_layout [OF l ok e(1)])
  have o: "a \<in> owned V1 k1" using ownedI(1) [OF n(1)] n(2,3) by simp
  note D = data_blkD [OF l1 file_okD(2) [OF E(1) o]]
  have ai: "a \<noteq> ind_blk k1" using file_okD(4) [OF E(1) n(1)] n(2,3) by simp
  have bm: "V2 (bm_of sp) = V1 (bm_of sp)" "V2 1 = V1 1" using D V2 by auto
  show u: "used sp V2 b = used sp V1 b" if "b < sb_size sp" for b using used_cong [where V' = V2, OF l1 bm(1) that] .
  have "used sp V2 b" if "b \<in> owned V1 k1" "used sp V1 b" for b
    using that u data_blkD(6) [OF l1 file_okD(2) [OF E(1) that(1)]] by simp
  then have f: "file_ok sp V2 k1" "file_blk V2 k1 = file_blk V1 k1" "owned V2 k1 = owned V1 k1"
    using file_ok_frame [OF E(1) _ refl, of V2] ai V2 by auto
  then show "owned V2 k1 = owned V1 k1" by blast
  have "used sp V2 b" if "b \<le> bm_of sp" for b using u [of b] layoutD(7) [OF l1 that] layoutD(2) [OF l1] that by auto
  then show "layout st sp V2" using l1 bm by (simp add: layout_def)
  have r: "p div BSIZE = off div BSIZE" if "off \<le> p" "p < off + length xs" for p by (rule chunk_block [OF that xs(2)])
  show "file_put sp V k off xs V2 k1" unfolding file_put_def f(2,3)
  proof (intro conjI allI impI ballI)
    show "file_ok sp V2 k1" "\<exists>a. k1 = k\<lparr>i_addrs := a\<rparr>" "owned V k \<subseteq> owned V1 k1" using f(1) E(2,5) by blast+
    show "used sp V2 b \<longleftrightarrow> used sp V b \<or> b \<in> owned V1 k1 - owned V k" if "b < sb_size sp" for b using u [OF that] E(4) [OF that] by blast
    show "\<not> used sp V b" if "b \<in> owned V1 k1 - owned V k" for b using E(6) that by blast
    show "file_blk V1 k1 m = file_blk V k m" if "m < MAXFILE" "file_blk V k m \<noteq> 0" for m by (rule E(7) [OF that])
    show "byte_at V2 k1 p = (if off \<le> p \<and> p < off + length xs then xs ! (p - off) else byte_at V k p)" if p: "p < MAXFILE * BSIZE" for p
      using put_bytes [OF E(1) n xs(2) f(2) V2 p] extends_bytes [OF l ok e(1) p] by simp
    show "file_blk V1 k1 (p div BSIZE) \<noteq> 0" if "off \<le> p" "p < off + length xs" for p using r [OF that] n(2,3) by simp
    show "k1 = k" if "\<forall>p. off \<le> p \<longrightarrow> p < off + length xs \<longrightarrow> file_blk V k (p div BSIZE) \<noteq> 0"
      using that [rule_format, of off] e(2) xs(1) by simp
    show "V2 b = V b" if b: "b \<noteq> bm_of sp" "b \<notin> owned V1 k1" for b
    proof -
      have "b = ind_blk k \<longrightarrow> b = 0" using ownedI(2) [of k V] E(5) b(2) by blast
      then have "V1 b = V b" using E(9) [OF b(1)] b(2) by blast
      then show ?thesis using V2 o b(2) by auto
    qed
  qed
qed

lemma file_put_Nil: "file_ok sp V k \<Longrightarrow> file_put sp V k off [] V k"
proof -
  assume "file_ok sp V k"
  moreover have "\<exists>a. k = k\<lparr>i_addrs := a\<rparr>" by (rule exI [of _ "i_addrs k"]) simp
  ultimately show ?thesis unfolding file_put_def by auto
qed

lemma file_put_append:
  assumes a: "file_put sp V k off xs V1 k1" and b: "file_put sp V1 k1 (off + length xs) ys V2 k2" and n: "off + length xs + length ys \<le> MAXFILE * BSIZE"
  shows "file_put sp V k off (xs @ ys) V2 k2"
proof -
  note A = file_putD [OF a] and B = file_putD [OF b]
  have dv: "p div BSIZE < MAXFILE" if "p < off + length xs + length ys" for p using that n by (intro less_mult_imp_div_less) linarith
  show ?thesis unfolding file_put_def
  proof (intro conjI allI impI ballI)
    show "file_ok sp V2 k2" by (rule B(1))
    show "\<exists>a. k2 = k\<lparr>i_addrs := a\<rparr>" using A(2) B(2) by fastforce
    show "owned V k \<subseteq> owned V2 k2" using A(4) B(4) by blast
    show "used sp V2 c \<longleftrightarrow> used sp V c \<or> c \<in> owned V2 k2 - owned V k" if "c < sb_size sp" for c
      using A(3) [OF that] B(3) [OF that] A(4) B(4) by blast
    show "\<not> used sp V c" if c: "c \<in> owned V2 k2 - owned V k" for c
    proof (cases "c \<in> owned V1 k1")
      case False
      have "c < sb_size sp" using file_okD(2) [OF B(1)] c by (auto simp: data_blk_def)
      then show ?thesis using B(5) [of c] A(3) [of c] c False by blast
    qed (use A(5) c in blast)
    show "file_blk V2 k2 m = file_blk V k m" if "m < MAXFILE" "file_blk V k m \<noteq> 0" for m using A(6) [OF that] B(6) [OF that(1)] that(2) by simp
    show "byte_at V2 k2 p = (if off \<le> p \<and> p < off + length (xs @ ys) then (xs @ ys) ! (p - off) else byte_at V k p)" if "p < MAXFILE * BSIZE" for p
      using A(7) [OF that] B(7) [OF that] by (auto simp: nth_append)
    show "file_blk V2 k2 (p div BSIZE) \<noteq> 0" if p: "off \<le> p" "p < off + length (xs @ ys)" for p
    proof (cases "p < off + length xs")
      case True
      have "file_blk V1 k1 (p div BSIZE) \<noteq> 0" by (rule A(8) [OF p(1) True])
      then show ?thesis using B(6) [OF dv [of p]] p(2) by simp
    qed (use B(8) [of p] p in simp)
    show "k2 = k" if h: "\<forall>p. off \<le> p \<longrightarrow> p < off + length (xs @ ys) \<longrightarrow> file_blk V k (p div BSIZE) \<noteq> 0"
    proof -
      have "k1 = k" using h by (intro A(9)) simp
      moreover have "file_blk V1 k1 (p div BSIZE) \<noteq> 0" if "off + length xs \<le> p" "p < off + length xs + length ys" for p
        using A(6) [OF dv [OF that(2)]] h that by simp
      then have "k2 = k1" by (rule B(9))
      ultimately show ?thesis by simp
    qed
    show "V2 c = V c" if "c \<noteq> bm_of sp" "c \<notin> owned V2 k2" for c using A(10) [OF that(1)] B(10) [OF that] B(4) that(2) by auto
  qed
qed

text \<open>The number of blocks that \<open>n\<close> bytes at \<open>off\<close> are in.\<close>

definition nblks :: "nat \<Rightarrow> nat \<Rightarrow> nat" where
  "nblks off n = (if n = 0 then 0 else (off + n - 1) div BSIZE - off div BSIZE + 1)"

lemma nblks_chunk:
  assumes "0 < n"
  shows "nblks off n = Suc (nblks (off + min n (BSIZE - off mod BSIZE)) (n - min n (BSIZE - off mod BSIZE)))"
proof (cases "n \<le> BSIZE - off mod BSIZE")
  case True
  then have "(off + n - 1) div BSIZE = off div BSIZE" using assms by (intro chunk_block(1) [of off _ n]) simp_all
  then show ?thesis using assms True by (simp add: nblks_def)
next
  case False
  let ?m = "BSIZE - off mod BSIZE"
  have B: "0 < BSIZE" "off mod BSIZE < BSIZE" by (simp_all add: BSIZE_def)
  have e: "off + ?m = Suc (off div BSIZE) * BSIZE" using div_mult_mod_eq [of off BSIZE] B(2) unfolding mult_Suc by linarith
  then have d: "(off + ?m) div BSIZE = Suc (off div BSIZE)" using B(1) by (metis nonzero_mult_div_cancel_right less_not_refl)
  have "(off + ?m) div BSIZE \<le> (off + n - 1) div BSIZE" using False by (intro div_le_mono) simp
  then show ?thesis using assms False d by (simp add: nblks_def)
qed


definition loop_wrote :: "'a fs_state_scheme \<Rightarrow> uint set \<Rightarrow> (uint \<Rightarrow> block) \<Rightarrow> (nat \<Rightarrow> inode) \<Rightarrow> nat \<Rightarrow> uint \<Rightarrow> uchar list \<Rightarrow> uint \<times> 'a fs_state_scheme \<Rightarrow> bool" where
  "loop_wrote r W V I ip off src = (\<lambda>(o', t). \<exists>W' V' k'. unat o' = unat off + length src \<and> file_put (sb r) V (I ip) (unat off) src V' k' \<and>
     layout (l_start r) (sb r) V' \<and> intx r W' V' Map.empty (I(ip := k')) t \<and> W \<subseteq> W' \<and> W' \<subseteq> W \<union> owned V' k')"

lemma writei_loop_spec:
  assumes "intx r W V Map.empty I s" "layout (l_start r) (sb r) V" "file_ok (sb r) V (I ip)" "i_dev (I ip) = 1"
    "unat off + length src \<le> MAXFILE * BSIZE" "writable r W V (I ip) (nblks (unat off) (length src))"
  shows "wp (writei_loop ip src off s) (loop_wrote r W V I ip off src)"
  using assms
proof (induction "length src" arbitrary: src off s W V I rule: less_induct)
  case (less src)
  show ?case
  proof (cases "src = []")
    case True
    then show ?thesis using less.prems file_put_Nil [OF less.prems(3)]
      by (auto simp: writei_loop.simps loop_wrote_def intro!: exI [of _ W] exI [of _ V] exI [of _ "I ip"])
  next
    case False
    let ?m = "chunk off (length src)" and ?o = "unat off mod BSIZE" and ?n = "unat off div BSIZE"
    have m: "0 < ?m" "?m \<le> length src" "?m \<le> BSIZE - ?o" using False chunk_bounds [where left = "length src"] chunk_le by auto
    have w: "unat (off + of_nat ?m) = unat off + ?m" "unat (off div of_nat BSIZE) = ?n"
      using off_word [of off ?m] less.prems(5) m(2) by simp_all
    have bn: "?n < MAXFILE" using less.prems(5) m by (intro less_mult_imp_div_less) linarith
    let ?xs = "take ?m src" and ?ys = "drop ?m src"
    have xs: "length ?xs = ?m" "?xs \<noteq> []" using m False by auto
    have bl: "nblks (unat off) (length src) = Suc (nblks (unat off + ?m) (length ?ys))"
      using nblks_chunk [of "length src" "unat off"] False by (simp add: chunk_def)
    have wr: "writable r W V (I ip) (Suc (nblks (unat off + ?m) (length ?ys)))" using less.prems(6) bl by simp
    have "unat (off div of_nat BSIZE) < MAXFILE" using bn w(2) by simp
    note bmap_spec [OF less.prems(1-4) this wr, unfolded w(2)]
    then show ?thesis unfolding writei_loop.simps [of ip src off] if_P [OF False]
    proof (rule wp_bindI, clarify)
      fix a t assume "bmapped r W V I ip ?n (nblks (unat off + ?m) (length ?ys)) (a, t)"
      then obtain W1 V1 k1 where e: "extends (sb r) V (I ip) V1 k1" "file_blk V (I ip) ?n \<noteq> 0 \<longrightarrow> k1 = I ip"
        and a: "a = file_blk V1 k1 ?n" "a \<noteq> 0" "a \<in> W1" and t: "intx r W1 V1 Map.empty (I(ip := k1)) t" and W1: "W \<subseteq> W1" "W1 \<subseteq> W \<union> owned V1 k1"
        and wr1: "writable r W1 V1 k1 (nblks (unat off + ?m) (length ?ys))" unfolding bmapped_def by auto
      let ?V = "V1(a := take ?o (V1 a) @ ?xs @ drop (?o + ?m) (V1 a))"
      note P = put_step [OF less.prems(2,3) e bn a(1,2) intxD(8) [OF t] xs(2) _ refl, unfolded xs(1), OF m(3)]
      have d: "i_dev k1 = 1" using extendsD(2) [OF e(1)] less.prems(4) by auto
      have "free_blks (sb r) ?V = free_blks (sb r) V1" using P(3) unfolding free_blks_def by blast
      then have wr2: "writable r W1 ?V k1 (nblks (unat off + ?m) (length ?ys))" using wr1 by (simp add: writable_def)
      have o1: "a \<in> owned V1 k1" using ownedI(1) [OF bn] a(1,2) by simp
      have l1: "layout (l_start r) (sb r) V1" by (rule extends_layout [OF less.prems(2,3) e(1)])
      note D = data_blkD [OF l1 file_okD(2) [OF extendsD(1) [OF e(1)] o1]]
      have len: "length (take ?o (V1 a) @ ?xs @ drop (?o + ?m) (V1 a)) = BSIZE"
        using intxD(8) [OF t, of a] m xs(1) by (simp add: BSIZE_def)
      show "wp (rbind (bread (i_dev (inodes t ip)) a t) (\<lambda>(bp, s). let m = ?m; o1 = ?o
          in rbind (log_release bp (\<lambda>d. take o1 d @ take m src @ drop (o1 + m) d) s) (\<lambda>s. writei_loop ip (drop m src) (off + of_nat m) s)))
        (loop_wrote r W V I ip off src)"
        unfolding intxD(3) [OF t] fun_upd_same d
      proof (rule intx_bread [OF t _ D(4)], goal_cases)
        case (3 i u)
        show ?case unfolding prod.case Let_def
        proof (rule intx_release [OF 3(1), where b = a], goal_cases)
          case (4 v)
          then have v: "intx r W1 ?V Map.empty (I(ip := k1)) v" by simp
          have "wp (writei_loop ip ?ys (off + of_nat ?m) v) (loop_wrote r W1 ?V (I(ip := k1)) ip (off + of_nat ?m) ?ys)"
            by (rule less.hyps [OF _ v P(2)]) (use file_putD(1) [OF P(1)] d less.prems(5) w(1) wr2 m in simp_all)
          then show ?case
          proof (rule wp_mono)
            fix x assume "loop_wrote r W1 ?V (I(ip := k1)) ip (off + of_nat ?m) ?ys x"
            then obtain o' z W2 V2 k2 where x: "x = (o', z)" "unat o' = unat off + length src" and q: "file_put (sb r) ?V k1 (unat off + ?m) ?ys V2 k2"
              "layout (l_start r) (sb r) V2" "intx r W2 V2 Map.empty (I(ip := k2)) z" "W1 \<subseteq> W2" "W2 \<subseteq> W1 \<union> owned V2 k2"
              unfolding loop_wrote_def using w(1) m(2) by (cases x) auto
            have "file_put (sb r) V (I ip) (unat off) (?xs @ ?ys) V2 k2"
              by (rule file_put_append [OF P(1)]) (use q(1) xs(1) m less.prems(5) in simp_all)
            moreover have "W2 \<subseteq> W \<union> owned V2 k2" using W1(2) q(5) file_putD(4) [OF q(1)] unfolding P(4) by blast
            ultimately show "loop_wrote r W V I ip off src x" unfolding loop_wrote_def x(1) prod.case append_take_drop_id
              using x(2) q(2-4) W1(1) by blast
          qed
        qed (use a(3) len in simp_all)
      qed simp_all
    qed
  qed
qed

section \<open>Inodes on disk\<close>

lemma length_put16 [simp]: "length (put16 d a w) = length d"
  by (simp add: put16_def)

lemma length_put_words [simp]: "length (put_words d a ws) = length d"
  by (induction ws arbitrary: d a) simp_all

lemma length_store_dinode [simp]: "length (store_dinode k a d) = length d"
  by (simp add: store_dinode_def Let_def)

lemma word16_bytes: "(ucast (ucast (w :: ushort) :: uchar) :: ushort) OR push_bit 8 (ucast (ucast (drop_bit 8 w) :: uchar)) = w"
  (is "?l = w")
proof (rule bit_eqI)
  fix n :: nat assume "possible_bit TYPE(ushort) n"
  then have n: "n < 16" by simp
  show "bit ?l n = bit w n" using n by (cases "n < 8") (auto simp: bit_or_iff bit_push_bit_iff bit_ucast_iff bit_drop_bit_eq)
qed

lemma get16_put16 [simp]: "a + 1 < length d \<Longrightarrow> get16 (put16 d a w) a = w"
  using word16_bytes [of w] by (simp add: get16_def put16_def)

text \<open>What a store leaves alone.\<close>

lemma nth_put16: "c < a \<or> a + 2 \<le> c \<Longrightarrow> put16 d a w ! c = d ! c"
  by (auto simp: put16_def nth_list_update)

lemma nth_put32: "c < a \<or> a + 4 \<le> c \<Longrightarrow> put32 d a w ! c = d ! c"
  by (auto simp: put32_def nth_list_update)

lemma nth_put_words: "c < a \<or> a + 4 * length ws \<le> c \<Longrightarrow> put_words d a ws ! c = d ! c"
  by (induction ws arbitrary: d a) (auto simp: nth_put32)

lemma nth_store_dinode:
  assumes "length (i_addrs k) = 13" "c < a \<or> a + 64 \<le> c"
  shows "store_dinode k a d ! c = d ! c"
  using assms by (auto simp: store_dinode_def Let_def nth_put_words nth_put32 nth_put16)

lemma get_cong:
  "(\<And>c. a \<le> c \<Longrightarrow> c < a + 2 \<Longrightarrow> d' ! c = d ! c) \<Longrightarrow> get16 d' a = get16 d a"
  "(\<And>c. a \<le> c \<Longrightarrow> c < a + 4 \<Longrightarrow> d' ! c = d ! c) \<Longrightarrow> get32 d' a = get32 d a"
  by (simp_all add: get16_def get32_def)

lemma get_below:
  "a + 2 \<le> b \<Longrightarrow> get16 (put_words d b ws) a = get16 d a" "a + 2 \<le> b \<Longrightarrow> get16 (put32 d b w) a = get16 d a"
  "a + 2 \<le> b \<Longrightarrow> get16 (put16 d b v) a = get16 d a" "a + 4 \<le> b \<Longrightarrow> get32 (put_words d b ws) a = get32 d a"
  by (rule get_cong; simp add: nth_put_words nth_put32 nth_put16)+

lemma get_put_words:
  assumes "i < length ws" "a + 4 * length ws \<le> length d"
  shows "get32 (put_words d a ws) (a + 4 * i) = ws ! i"
  using assms
proof (induction ws arbitrary: d a i)
  case (Cons w ws)
  show ?case
  proof (cases i)
    case 0
    have "get32 (put_words (put32 d a w) (a + 4) ws) a = get32 (put32 d a w) a" by (rule get_cong(2)) (simp add: nth_put_words)
    then show ?thesis using 0 Cons.prems by simp
  next
    case (Suc j)
    then show ?thesis using Cons.IH [of j "a + 4" "put32 d a w"] Cons.prems by (simp add: add.assoc)
  qed
qed simp

lemma load_store_dinode:
  assumes "length (i_addrs k) = 13" "a + 64 \<le> length d"
  shows "load_dinode (store_dinode k a d) a k' = k'\<lparr>i_type := i_type k, i_major := i_major k, i_minor := i_minor k, i_nlink := i_nlink k,
    i_size := i_size k, i_addrs := i_addrs k\<rparr>"
proof -
  let ?s = "store_dinode k a d"
  have g: "get16 ?s a = i_type k" "get16 ?s (a + 2) = i_major k" "get16 ?s (a + 4) = i_minor k" "get16 ?s (a + 6) = i_nlink k"
    "get32 ?s (a + 8) = i_size k" using assms(2) by (simp_all add: store_dinode_def Let_def get_below del: add_2_eq_Suc')
  have "map (\<lambda>j. get32 ?s (a + 12 + 4 * j)) [0..<NDIRECT + 1] = i_addrs k"
    using assms by (intro nth_equalityI) (simp_all add: store_dinode_def Let_def get_put_words NDIRECT_def del: upt_Suc)
  then show ?thesis unfolding load_dinode_def g by (simp only:)
qed

lemma load_dinode_cong:
  assumes "\<And>c. a \<le> c \<Longrightarrow> c < a + 64 \<Longrightarrow> d' ! c = d ! c"
  shows "load_dinode d' a k = load_dinode d a k"
proof -
  have "get16 d' (a + i) = get16 d (a + i)" if "i < 62" for i using that by (intro get_cong(1)) (simp add: assms)
  note g = this [of 0, simplified] this [of 2, simplified] this [of 4, simplified] this [of 6, simplified]
  have w: "get32 d' (a + i) = get32 d (a + i)" if "i \<le> 60" for i using that by (intro get_cong(2)) (simp add: assms)
  have "map (\<lambda>j. get32 d' (a + 12 + 4 * j)) [0..<NDIRECT + 1] = map (\<lambda>j. get32 d (a + 12 + 4 * j)) [0..<NDIRECT + 1]"
    using w by (auto simp: NDIRECT_def add.assoc simp del: upt_Suc)
  then show ?thesis using g w [of 8] by (simp add: load_dinode_def del: upt_Suc)
qed

abbreviation iblk :: "superblock \<Rightarrow> inode \<Rightarrow> uint" where "iblk sp k \<equiv> IBLOCK (i_inum k) sp"

definition inode_ok :: "superblock \<Rightarrow> (uint \<Rightarrow> block) \<Rightarrow> inode \<Rightarrow> bool" where
  "inode_ok sp V k \<longleftrightarrow> i_dev k = 1 \<and> i_inum k < sb_ninodes sp \<and> file_ok sp V k \<and> no_holes V k"

text \<open>The cached inode is what the disk has.\<close>

definition on_disk :: "superblock \<Rightarrow> (uint \<Rightarrow> block) \<Rightarrow> inode \<Rightarrow> bool" where
  "on_disk sp V k \<longleftrightarrow> load_dinode (V (iblk sp k)) (dinode_at (i_inum k)) k = k"

lemma iblk_facts:
  assumes l: "layout st sp V" and n: "inum < sb_ninodes sp"
  shows "IBLOCK inum sp < bm_of sp" "IBLOCK inum sp \<noteq> 1" "\<not> in_log st (IBLOCK inum sp)" "IBLOCK inum sp < FSSIZE"
    "unat (IBLOCK inum sp) = unat (sb_inodestart sp) + unat inum div 8"
proof -
  have s: "1 < unat st" "unat st + 30 \<le> unat (sb_inodestart sp)" "unat (sb_inodestart sp) + unat (sb_ninodes sp) div 8 < unat (bm_of sp)"
    using l by (simp_all add: layout_def LOGSIZE_def MAXOPBLOCKS_def)
  have d: "unat (inum div IPB) = unat inum div 8" by (simp add: IPB_def unat_div)
  have "unat inum div 8 \<le> unat (sb_ninodes sp) div 8" using n by (intro div_le_mono) (simp add: word_less_nat_alt)
  then have lt: "unat (inum div IPB) + unat (sb_inodestart sp) < unat (bm_of sp)" using s(3) d by simp
  moreover have "unat (bm_of sp) < 2000" using layoutD(1,2) [OF l] by (simp add: word_less_nat_alt)
  ultimately have "unat (inum div IPB) + unat (sb_inodestart sp) < 2 ^ LENGTH(32)" by simp
  note u = unat_add_lem [THEN iffD1, OF this]
  show e: "unat (IBLOCK inum sp) = unat (sb_inodestart sp) + unat inum div 8" using u d by (simp add: IBLOCK_def)
  show bm: "IBLOCK inum sp < bm_of sp" using lt d e by (simp add: word_less_nat_alt)
  show "IBLOCK inum sp \<noteq> 1" using e s by auto
  show "\<not> in_log st (IBLOCK inum sp)" using e s by (simp add: in_log_def LOGSIZE_def MAXOPBLOCKS_def)
  show "IBLOCK inum sp < FSSIZE" using bm layoutD(4) [OF l] by (rule less_trans)
qed

lemma dinode_at_fits: "dinode_at inum + 64 \<le> BSIZE"
proof -
  have "unat (inum mod IPB) < 8" by (simp add: IPB_def unat_mod)
  then show ?thesis by (simp add: dinode_at_def BSIZE_def)
qed

lemma iupdate_spec:
  assumes x: "intx r W V Map.empty I s" and l: "layout (l_start r) (sb r) V"
    and k: "i_dev (I ip) = 1" "i_inum (I ip) < sb_ninodes (sb r)" and W: "iblk (sb r) (I ip) \<in> W"
    and F: "\<And>t. intx r W (V(iblk (sb r) (I ip) := store_dinode (I ip) (dinode_at (i_inum (I ip))) (V (iblk (sb r) (I ip))))) Map.empty I t \<Longrightarrow> wp (F t) Q"
  shows "wp (rbind (iupdate ip s) F) Q"
  unfolding iupdate_def intxD(3,11) [OF x] k(1) rbind_assoc
proof (rule intx_bread [OF x _ iblk_facts(4) [OF l k(2)]], goal_cases)
  case (3 i t)
  show ?case unfolding prod.case intxD(3) [OF 3(1)]
    by (rule intx_release [OF 3(1), where b = "iblk (sb r) (I ip)"]) (use W F intxD(8) [OF x] in simp_all)
qed simp_all

text \<open>A change of a block of inodes is not seen by the free map or the contents of files.\<close>

lemma iblk_frame:
  assumes l: "layout st sp V" and n: "inum < sb_ninodes sp" and V': "\<And>c. c \<noteq> IBLOCK inum sp \<Longrightarrow> V' c = V c"
  shows "layout st sp V'" "b < sb_size sp \<Longrightarrow> used sp V' b = used sp V b"
    "file_ok sp V k \<Longrightarrow> i_addrs k' = i_addrs k \<Longrightarrow> file_ok sp V' k' \<and> file_blk V' k' = file_blk V k \<and> owned V' k' = owned V k \<and>
      (\<forall>p<MAXFILE * BSIZE. byte_at V' k' p = byte_at V k p)"
proof -
  note B = iblk_facts [OF l n]
  have bm: "V' (bm_of sp) = V (bm_of sp)" "V' 1 = V 1" using V' B(1,2) by auto
  show u: "used sp V' b = used sp V b" if "b < sb_size sp" for b using used_cong [where V' = V', OF l bm(1) that] .
  have "used sp V' b" if "b \<le> bm_of sp" for b using u [of b] layoutD(7) [OF l that] layoutD(2) [OF l] that by auto
  then show "layout st sp V'" using l bm by (simp add: layout_def)
  show "file_ok sp V' k' \<and> file_blk V' k' = file_blk V k \<and> owned V' k' = owned V k \<and> (\<forall>p<MAXFILE * BSIZE. byte_at V' k' p = byte_at V k p)"
    if ok: "file_ok sp V k" and a: "i_addrs k' = i_addrs k"
  proof -
    have o: "V' b = V b" "b < sb_size sp" if "b \<in> owned V k" for b
    proof -
      have "bm_of sp < b" "b < sb_size sp" using file_okD(2) [OF ok that] by (simp_all add: data_blk_def)
      then show "V' b = V b" "b < sb_size sp" using V' [of b] B(1) by auto
    qed
    have f: "file_ok sp V' k'" "file_blk V' k' = file_blk V k" "owned V' k' = owned V k"
      using file_ok_frame [OF ok _ a, of V'] o ownedI(2) [of k V] u by blast+
    have "byte_at V' k' p = byte_at V k p" if "p < MAXFILE * BSIZE" for p
    proof -
      have "p div BSIZE < MAXFILE" using that by (simp add: less_mult_imp_div_less)
      then show ?thesis using o(1) ownedI(1) [of "p div BSIZE" V k] f(2) by (auto simp: byte_at_def Let_def)
    qed
    then show ?thesis using f by blast
  qed
qed

section \<open>\<open>writei\<close>\<close>

text \<open>
  What \<open>writei\<close> does to the file \<open>k\<close>: the bytes are replaced and the file grown as needed, new blocks come from the free ones,
  the inode on disk follows the one in memory, and only the free map, the inode's own 64 bytes and the file's blocks change.
\<close>

definition overwrite :: "nat \<Rightarrow> uchar list \<Rightarrow> uchar list \<Rightarrow> uchar list" where
  "overwrite off src xs = take off xs @ src @ drop (off + length src) xs"

definition written :: "superblock \<Rightarrow> (uint \<Rightarrow> block) \<Rightarrow> inode \<Rightarrow> nat \<Rightarrow> uchar list \<Rightarrow> (uint \<Rightarrow> block) \<Rightarrow> inode \<Rightarrow> bool" where
  "written sp V k off src V' k' \<longleftrightarrow> inode_ok sp V' k' \<and> (\<exists>a z. k' = k\<lparr>i_addrs := a, i_size := z\<rparr>) \<and>
     file_bytes V' k' = overwrite off src (file_bytes V k) \<and> (on_disk sp V k \<longrightarrow> on_disk sp V' k') \<and>
     owned V k \<subseteq> owned V' k' \<and> (\<forall>b\<in>owned V' k' - owned V k. \<not> used sp V b) \<and>
     (\<forall>b. b < sb_size sp \<longrightarrow> (used sp V' b \<longleftrightarrow> used sp V b \<or> b \<in> owned V' k' - owned V k)) \<and>
     (\<forall>b. b \<noteq> bm_of sp \<longrightarrow> b \<noteq> iblk sp k \<longrightarrow> b \<notin> owned V' k' \<longrightarrow> V' b = V b) \<and>
     (\<forall>c. c < dinode_at (i_inum k) \<or> dinode_at (i_inum k) + 64 \<le> c \<longrightarrow> V' (iblk sp k) ! c = V (iblk sp k) ! c)"

lemma put_file_bytes:
  assumes p: "file_put sp V k off src V' k'" and n: "off \<le> unat (i_size k)" "unat (i_size k) \<le> MAXFILE * BSIZE" "off + length src \<le> MAXFILE * BSIZE"
    and z: "unat (i_size k'') = max (unat (i_size k)) (off + length src)" and b: "\<And>p. p < MAXFILE * BSIZE \<Longrightarrow> byte_at V'' k'' p = byte_at V' k' p"
  shows "file_bytes V'' k'' = overwrite off src (file_bytes V k)"
proof (rule nth_equalityI)
  show "length (file_bytes V'' k'') = length (overwrite off src (file_bytes V k))" using n(1) z by (auto simp: file_bytes_def overwrite_def)
  fix i assume "i < length (file_bytes V'' k'')"
  then have i: "i < unat (i_size k'')" by (simp add: file_bytes_def)
  have m: "i < MAXFILE * BSIZE" using i z n by linarith
  have "file_bytes V'' k'' ! i = byte_at V' k' i" using i b [OF m] by (simp add: file_bytes_def)
  also have "\<dots> = (if off \<le> i \<and> i < off + length src then src ! (i - off) else byte_at V k i)" by (rule file_putD(7) [OF p m])
  also have "\<dots> = overwrite off src (file_bytes V k) ! i" using i z n(1) by (auto simp: overwrite_def file_bytes_def nth_append)
  finally show "file_bytes V'' k'' ! i = overwrite off src (file_bytes V k) ! i" .
qed

lemma put_no_holes:
  assumes p: "file_put sp V k off src V' k'" and h: "no_holes V k" and n: "off \<le> unat (i_size k)" "off + length src \<le> MAXFILE * BSIZE"
    and z: "unat (i_size k'') = max (unat (i_size k)) (off + length src)" and b: "file_blk V'' k'' = file_blk V' k'"
  shows "no_holes V'' k''"
  unfolding no_holes_def b z
proof (intro conjI allI impI)
  show "max (unat (i_size k)) (off + length src) \<le> MAXFILE * BSIZE" using no_holesD(1) [OF h] n by simp
  fix m assume m: "m * BSIZE < max (unat (i_size k)) (off + length src)"
  then have "m * BSIZE < MAXFILE * BSIZE" using no_holesD(1) [OF h] n(2) by linarith
  then have mm: "m < MAXFILE" by simp
  have B: "m * BSIZE div BSIZE = m" by (simp add: BSIZE_def)
  show "file_blk V' k' m \<noteq> 0"
  proof (cases "m * BSIZE < unat (i_size k)")
    case True
    then have "file_blk V k m \<noteq> 0" using h by (simp add: no_holes_def)
    then show ?thesis using file_putD(6) [OF p mm] by simp
  next
    case False
    then show ?thesis using file_putD(8) [OF p, of "m * BSIZE"] m n(1) B by simp
  qed
qed

lemma put_iblk:
  assumes l: "layout st sp V" and n: "inum < sb_ninodes sp" and p: "file_put sp V k off src V' k'"
  shows "V' (IBLOCK inum sp) = V (IBLOCK inum sp)" "IBLOCK inum sp \<notin> owned V' k'"
proof -
  note B = iblk_facts [OF l n]
  show o: "IBLOCK inum sp \<notin> owned V' k'" using file_okD(2) [OF file_putD(1) [OF p], of "IBLOCK inum sp"] B(1) by (auto simp: data_blk_def)
  show "V' (IBLOCK inum sp) = V (IBLOCK inum sp)" by (rule file_putD(10) [OF p _ o]) (use B(1) in auto)
qed

lemma written_same:
  assumes l: "layout st sp V" and ok: "inode_ok sp V k" and p: "file_put sp V k off src V' k'" and n: "off + length src \<le> unat (i_size k)"
  shows "written sp V k off src V' k'"
proof -
  have i: "i_dev k = 1" "i_inum k < sb_ninodes sp" "no_holes V k" using ok by (simp_all add: inode_ok_def)
  have kk: "k' = k" using n by (intro file_putD(9) [OF p] no_holesD(2) [OF i(3)]) simp
  note P = file_putD [OF p] and B = put_iblk [OF l i(2) p] and M = no_holesD(1) [OF i(3)]
  have "file_bytes V' k' = overwrite off src (file_bytes V k)"
    by (rule put_file_bytes [OF p _ M]) (use n M kk in auto)
  moreover have "no_holes V' k'" by (rule put_no_holes [OF p i(3)]) (use n M kk in auto)
  moreover have "\<exists>a z. k = k\<lparr>i_addrs := a, i_size := z\<rparr>" by (intro exI [of _ "i_addrs k"] exI [of _ "i_size k"]) simp
  moreover have "on_disk sp V k \<longrightarrow> on_disk sp V' k" "\<forall>c. V' (iblk sp k) ! c = V (iblk sp k) ! c" using B(1) by (simp_all add: on_disk_def)
  ultimately show ?thesis using P(1,3,4,5,10) i unfolding written_def inode_ok_def kk by blast
qed

lemma written_grown:
  assumes l: "layout st sp V" "layout st sp V'" "\<And>b. length (V' b) = BSIZE" and ok: "inode_ok sp V k" and p: "file_put sp V k off src V' k'"
    and n: "off \<le> unat (i_size k)" "unat (i_size k) < off + length src" "off + length src \<le> MAXFILE * BSIZE" "unat z = off + length src"
    and k'': "k'' = k'\<lparr>i_size := z\<rparr>" and V'': "V'' = V'(iblk sp k := store_dinode k'' (dinode_at (i_inum k)) (V' (iblk sp k)))"
  shows "written sp V k off src V'' k''" "layout st sp V''" "owned V'' k'' = owned V' k'"
proof -
  have i: "i_dev k = 1" "i_inum k < sb_ninodes sp" "no_holes V k" using ok by (simp_all add: inode_ok_def)
  note P = file_putD [OF p] and B = put_iblk [OF l(1) i(2) p] and M = no_holesD(1) [OF i(3)]
  obtain a where a: "k' = k\<lparr>i_addrs := a\<rparr>" using P(2) by blast
  have V''c: "V'' c = V' c" if "c \<noteq> iblk sp k" for c using that V'' by simp
  note F = iblk_frame [where V' = V'', OF l(2) i(2) V''c, simplified]
  have f: "file_ok sp V'' k''" "file_blk V'' k'' = file_blk V' k'" "owned V'' k'' = owned V' k'" "p < MAXFILE * BSIZE \<Longrightarrow> byte_at V'' k'' p = byte_at V' k' p" for p
    using F(3) [OF P(1), of k''] k'' by auto
  show "layout st sp V''" "owned V'' k'' = owned V' k'" using F(1) f(3) .
  have sz: "unat (i_size k'') = max (unat (i_size k)) (off + length src)" using n k'' by simp
  have bytes: "file_bytes V'' k'' = overwrite off src (file_bytes V k)" by (rule put_file_bytes [OF p n(1) M n(3) sz f(4)])
  have holes: "no_holes V'' k''" by (rule put_no_holes [OF p i(3) n(1,3) sz f(2)])
  have inum: "i_inum k'' = i_inum k" "i_dev k'' = i_dev k" "\<exists>a z. k'' = k\<lparr>i_addrs := a, i_size := z\<rparr>" using a k'' by auto
  have la: "length (i_addrs k'') = 13" using file_okD(1) [OF P(1)] k'' by simp
  have "load_dinode (V'' (iblk sp k)) (dinode_at (i_inum k)) k'' = k''"
    using load_store_dinode [OF la, of "dinode_at (i_inum k)" "V' (iblk sp k)" k''] dinode_at_fits [of "i_inum k"] l(3) V'' by (cases k'') simp
  then have disk: "on_disk sp V'' k''" by (simp add: on_disk_def inum)
  have slot: "V'' (iblk sp k) ! c = V (iblk sp k) ! c" if "c < dinode_at (i_inum k) \<or> dinode_at (i_inum k) + 64 \<le> c" for c
    using nth_store_dinode [OF la that] V'' B(1) by simp
  have used: "used sp V'' b \<longleftrightarrow> used sp V b \<or> b \<in> owned V'' k'' - owned V k" if "b < sb_size sp" for b
    using F(2) [OF that] P(3) [OF that] f(3) by simp
  have frame: "V'' b = V b" if "b \<noteq> bm_of sp" "b \<noteq> iblk sp k" "b \<notin> owned V'' k''" for b
    using V''c [OF that(2)] P(10) [OF that(1)] that(3) f(3) by simp
  have new: "owned V k \<subseteq> owned V'' k''" "\<forall>b\<in>owned V'' k'' - owned V k. \<not> used sp V b" using P(4,5) unfolding f(3) by blast+
  have "inode_ok sp V'' k''" using i(1,2) inum(1,2) f(1) holes by (simp add: inode_ok_def)
  then show "written sp V k off src V'' k''" unfolding written_def using bytes disk inum(3) slot used frame new by blast
qed

lemma writei_spec:
  assumes x: "intx r W V Map.empty I s" and l: "layout (l_start r) (sb r) V" and ok: "inode_ok (sb r) V (I ip)" and ty: "i_type (I ip) \<noteq> T_DEV"
    and n: "off \<le> i_size (I ip)" "unat off + length src \<le> MAXFILE * BSIZE"
    and W: "writable r W V (I ip) (nblks (unat off) (length src))" "iblk (sb r) (I ip) \<in> W"
  shows "wp (writei dv ip src off s) (\<lambda>(c, t). c = int (length src) \<and> (\<exists>W' V' k'. intx r W' V' Map.empty (I(ip := k')) t \<and>
    layout (l_start r) (sb r) V' \<and> written (sb r) V (I ip) (unat off) src V' k' \<and> W' \<subseteq> W \<union> owned V' k'))" (is "wp _ ?Q")
proof -
  let ?k = "I ip" and ?n = "of_nat (length src) :: uint"
  have i: "i_dev ?k = 1" "i_inum ?k < sb_ninodes (sb r)" "file_ok (sb r) V ?k" "no_holes V ?k" using ok by (simp_all add: inode_ok_def)
  have M: "unat off + length src \<le> 71680" using n(2) by (simp add: MAXFILE_def NDIRECT_def NINDIRECT_def BSIZE_def)
  have un: "unat ?n = length src" using M by (simp add: unat_of_nat take_bit_nat_eq_self)
  have w: "unat (off + ?n) = unat off + length src" by (rule off_word(1) [OF n(2)])
  have c: "sint ?n = int (length src)" using sint_count [of ?n] un n(2) by simp
  have nz: "0 < ?n \<longleftrightarrow> src \<noteq> []" using un by (auto simp: word_less_nat_alt)
  have mx: "unat (of_nat (MAXFILE * BSIZE) :: uint) = MAXFILE * BSIZE" by (simp add: MAXFILE_def NDIRECT_def NINDIRECT_def BSIZE_def)
  have e: "writei dv ip src off s = rbind (writei_loop ip src off s) (\<lambda>(off, s).
      rbind (if 0 < ?n \<and> i_size (inodes s ip) < off then iupdate ip (upd_inode ip (i_size_update (\<lambda>_. off)) s) else Ok s) (\<lambda>s. Ok (sint ?n, s)))"
    using ty n w mx intxD(3) [OF x] by (simp add: writei_def Let_def word_less_nat_alt word_le_nat_alt)
  show ?thesis unfolding e c
  proof (rule wp_bindI [OF writei_loop_spec [OF x l i(3,1) n(2) W(1)]], clarify)
    fix off' t assume "loop_wrote r W V I ip off src (off', t)"
    then obtain W' V' k' where o': "unat off' = unat off + length src" and p: "file_put (sb r) V ?k (unat off) src V' k'"
      and l': "layout (l_start r) (sb r) V'" and t: "intx r W' V' Map.empty (I(ip := k')) t" and WW: "W \<subseteq> W'" "W' \<subseteq> W \<union> owned V' k'" unfolding loop_wrote_def by auto
    obtain a where a: "k' = ?k\<lparr>i_addrs := a\<rparr>" using file_putD(2) [OF p] by blast
    have it: "inodes t ip = k'" using intxD(3) [OF t] by simp
    have sz: "i_size k' = i_size ?k" "i_inum k' = i_inum ?k" "i_dev k' = 1" using a i(1) by simp_all
    show "wp (rbind (if 0 < ?n \<and> i_size (inodes t ip) < off' then iupdate ip (upd_inode ip (i_size_update (\<lambda>_. off')) t) else Ok t)
        (\<lambda>s. Ok (int (length src), s))) ?Q"
    proof (cases "0 < ?n \<and> i_size (inodes t ip) < off'")
      case False
      have "unat off + length src \<le> unat (i_size ?k)"
        using False it sz(1) o' nz n(1) by (cases "src = []") (simp_all add: word_less_nat_alt word_le_nat_alt)
      then have "written (sb r) V ?k (unat off) src V' k'" by (rule written_same [OF l ok p])
      then show ?thesis unfolding if_not_P [OF False] using l' t WW(2) by auto
    next
      case True
      let ?k' = "k'\<lparr>i_size := off'\<rparr>" and ?I = "I(ip := k'\<lparr>i_size := off'\<rparr>)"
      let ?V = "V'(iblk (sb r) ?k := store_dinode ?k' (dinode_at (i_inum ?k)) (V' (iblk (sb r) ?k)))"
      have t': "intx r W' V' Map.empty ?I (upd_inode ip (i_size_update (\<lambda>_. off')) t)"
        using intx_inode [OF t, of ip "i_size_update (\<lambda>_. off')"] by simp
      have lt: "unat (i_size ?k) < unat off + length src" using True it sz(1) o' by (simp add: word_less_nat_alt)
      have "unat off \<le> unat (i_size ?k)" using n(1) by (simp add: word_le_nat_alt)
      note G = written_grown [OF l l' intxD(8) [OF t] ok p this lt n(2) o' refl refl]
      have "W' \<subseteq> W \<union> owned ?V ?k'" using WW(2) G(3) by simp
      then have Q: "?Q (int (length src), u)" if "intx r W' ?V Map.empty ?I u" for u using G(1,2) that by blast
      show ?thesis unfolding if_P [OF True]
        by (rule iupdate_spec [OF t' l']) (use i(2) sz WW(1) W(2) Q in \<open>auto simp del: fun_upd_apply simp: fun_upd_same\<close>)
    qed
  qed
qed

section \<open>Other files\<close>

lemma writtenD:
  assumes "written sp V k off src V' k'"
  shows "inode_ok sp V' k'" "\<exists>a z. k' = k\<lparr>i_addrs := a, i_size := z\<rparr>" "file_bytes V' k' = overwrite off src (file_bytes V k)"
    "on_disk sp V k \<Longrightarrow> on_disk sp V' k'" "owned V k \<subseteq> owned V' k'" "b \<in> owned V' k' \<Longrightarrow> b \<notin> owned V k \<Longrightarrow> \<not> used sp V b"
    "b < sb_size sp \<Longrightarrow> used sp V' b \<longleftrightarrow> used sp V b \<or> b \<in> owned V' k' - owned V k"
    "b \<noteq> bm_of sp \<Longrightarrow> b \<noteq> iblk sp k \<Longrightarrow> b \<notin> owned V' k' \<Longrightarrow> V' b = V b"
    "c < dinode_at (i_inum k) \<or> dinode_at (i_inum k) + 64 \<le> c \<Longrightarrow> V' (iblk sp k) ! c = V (iblk sp k) ! c"
  using assms unfolding written_def by blast+

text \<open>Two inodes in the same block have their own 64 bytes.\<close>

lemma dinode_apart:
  assumes l: "layout st sp V" and n: "i < sb_ninodes sp" "j < sb_ninodes sp" "i \<noteq> j" "IBLOCK i sp = IBLOCK j sp"
  shows "dinode_at i + 64 \<le> dinode_at j \<or> dinode_at j + 64 \<le> dinode_at i"
proof -
  have "unat i div 8 = unat j div 8" using iblk_facts(5) [OF l n(1)] iblk_facts(5) [OF l n(2)] n(4) by simp
  moreover have "unat i \<noteq> unat j" using n(3) by (simp add: word_unat_eq_iff)
  ultimately have "unat i mod 8 \<noteq> unat j mod 8" by (metis div_mult_mod_eq)
  then show ?thesis by (simp add: dinode_at_def IPB_def unat_mod) linarith
qed

lemma written_other:
  assumes l: "layout st sp V" and k: "inode_ok sp V k" and w: "written sp V k off src V' k'"
    and q: "inode_ok sp V q" "i_inum q \<noteq> i_inum k" "owned V q \<inter> owned V k = {}"
  shows "inode_ok sp V' q" "file_bytes V' q = file_bytes V q" "on_disk sp V q \<Longrightarrow> on_disk sp V' q" "owned V' q \<inter> owned V' k' = {}"
proof -
  note D = writtenD [OF w]
  have i: "i_inum q < sb_ninodes sp" "i_inum k < sb_ninodes sp" "file_ok sp V q" "no_holes V q" "i_dev q = 1" using q(1) k by (simp_all add: inode_ok_def)
  have n: "b \<notin> owned V' k'" if "b \<in> owned V q" for b using D(6) [of b] q(3) file_okD(3) [OF i(3) that] that by blast
  have o: "V' b = V b" if "b \<in> owned V q" for b
  proof (rule D(8) [OF _ _ n [OF that]])
    have d: "data_blk sp b" by (rule file_okD(2) [OF i(3) that])
    show "b \<noteq> bm_of sp" by (rule data_blkD(1) [OF l d])
    show "b \<noteq> iblk sp k" using d iblk_facts(1) [OF l i(2)] by (auto simp: data_blk_def)
  qed
  have u: "used sp V' b" if "b \<in> owned V q" "used sp V b" for b using D(7) that data_blkD(6) [OF l file_okD(2) [OF i(3) that(1)]] by blast
  have "V' (ind_blk q) = V (ind_blk q)" if "ind_blk q \<noteq> 0" using o ownedI(2) [OF that] by blast
  then have f: "file_ok sp V' q" "file_blk V' q = file_blk V q" "owned V' q = owned V q"
    using file_ok_frame [where V' = V', OF i(3) _ refl u] by blast+
  have "byte_at V' q p = byte_at V q p" if "p < MAXFILE * BSIZE" for p
    using o ownedI(1) [of "p div BSIZE" V q] that by (auto simp: byte_at_def Let_def f(2) less_mult_imp_div_less)
  then show "file_bytes V' q = file_bytes V q" using no_holesD(1) [OF i(4)] by (simp add: file_bytes_def)
  show "inode_ok sp V' q" using i f(1,2) by (simp add: inode_ok_def no_holes_def)
  show "owned V' q \<inter> owned V' k' = {}" using n f(3) by blast
  show "on_disk sp V' q" if "on_disk sp V q"
  proof (cases "iblk sp q = iblk sp k")
    case True
    have "load_dinode (V' (iblk sp k)) (dinode_at (i_inum q)) q = load_dinode (V (iblk sp k)) (dinode_at (i_inum q)) q"
      using dinode_apart [OF l i(1,2) q(2) True] by (intro load_dinode_cong D(9)) linarith
    then show ?thesis using that True by (simp add: on_disk_def)
  next
    case False
    have "iblk sp q \<notin> owned V' k'" using D(1) iblk_facts(1) [OF l i(1)] file_okD(2) [of sp V' k' "iblk sp q"] by (auto simp: inode_ok_def data_blk_def)
    then have "V' (iblk sp q) = V (iblk sp q)" using iblk_facts(1) [OF l i(1)] False by (intro D(8)) auto
    then show ?thesis using that by (simp add: on_disk_def)
  qed
qed

section \<open>Properties\<close>

text \<open>
  Property C4. Writing to a file. In a transaction with room for it, \<open>writei\<close> at an offset within the file returns the number
  of bytes, and \<open>readi\<close> there then returns exactly those bytes. The rest of the file is unchanged, the inode on disk is still
  the one in memory, and every other file of the disk, in memory or not, has the contents it had.
\<close>

theorem writei_then_readi:
  assumes "intx r W V Map.empty I s" "layout (l_start r) (sb r) V" "inode_ok (sb r) V (I ip)" "i_type (I ip) \<noteq> T_DEV"
    "off \<le> i_size (I ip)" "unat off + length src \<le> MAXFILE * BSIZE"
    "writable r W V (I ip) (nblks (unat off) (length src))" "iblk (sb r) (I ip) \<in> W"
  shows "\<exists>t u W' V' k'. writei dv ip src off s = Ok (int (length src), t) \<and> intx r W' V' Map.empty (I(ip := k')) t \<and>
    readi dv ip off (of_nat (length src)) t = Ok (int (length src), src, u) \<and>
    file_bytes V' k' = overwrite (unat off) src (file_bytes V (I ip)) \<and> (on_disk (sb r) V (I ip) \<longrightarrow> on_disk (sb r) V' k') \<and>
    (\<forall>q. inode_ok (sb r) V q \<and> i_inum q \<noteq> i_inum (I ip) \<and> owned V q \<inter> owned V (I ip) = {} \<longrightarrow>
       file_bytes V' q = file_bytes V q \<and> (on_disk (sb r) V q \<longrightarrow> on_disk (sb r) V' q))"
proof -
  let ?k = "I ip" and ?n = "of_nat (length src) :: uint"
  obtain t W' V' k' where t: "writei dv ip src off s = Ok (int (length src), t)" "intx r W' V' Map.empty (I(ip := k')) t"
    "layout (l_start r) (sb r) V'" "written (sb r) V ?k (unat off) src V' k'"
    using writei_spec [OF assms, of dv] by (auto simp: wp_iff)
  note D = writtenD [OF t(4)]
  have k': "file_ok (sb r) V' k'" "no_holes V' k'" "i_dev k' = 1" "i_type k' = i_type ?k" using D(1,2) by (auto simp: inode_ok_def)
  have lo: "unat off \<le> length (file_bytes V ?k)" using assms(5) by (simp add: file_bytes_def word_le_nat_alt)
  have le: "unat off + length src \<le> unat (i_size k')"
    using arg_cong [OF D(3), of length] lo by (simp add: file_bytes_def overwrite_def)
  have M: "length src \<le> 71680" "unat off \<le> 71680" using assms(6) by (simp_all add: MAXFILE_def NDIRECT_def NINDIRECT_def BSIZE_def)
  have un: "unat ?n = length src" using M by (simp add: unat_of_nat take_bit_nat_eq_self)
  have "wp (readi dv ip off ?n t) (\<lambda>(c, ys, u). ys = take (unat ?n) (drop (unat off) (file_bytes V' ((I(ip := k')) ip))) \<and> c = int (length ys) \<and>
      intx r W' V' Map.empty (I(ip := k')) u)"
    by (rule readi_spec [OF t(2,3)]) (use k' assms(4) le M un in \<open>simp_all add: word_le_nat_alt\<close>)
  moreover have "take (length src) (drop (unat off) (file_bytes V' k')) = src" using D(3) lo by (simp add: overwrite_def)
  ultimately obtain u where u: "readi dv ip off ?n t = Ok (int (length src), src, u)" using un by (auto simp: wp_iff)
  have "file_bytes V' q = file_bytes V q \<and> (on_disk (sb r) V q \<longrightarrow> on_disk (sb r) V' q)"
    if "inode_ok (sb r) V q \<and> i_inum q \<noteq> i_inum ?k \<and> owned V q \<inter> owned V ?k = {}" for q
    using written_other [OF assms(2,3) t(4)] that by blast
  then show ?thesis using t(1,2) u D(3,4) by blast
qed


text \<open>A small disk: 200 blocks, 16 inodes from block 32 on, the free map in block 35, and an empty file, number 2.\<close>

definition fs_inode :: inode where
  "fs_inode = \<lparr>i_dev = 1, i_inum = 2, i_ref = 1, i_locked = True, i_valid = True, i_type = T_FILE, i_major = 0, i_minor = 0, i_nlink = 1,
     i_size = 0, i_addrs = replicate 13 0\<rparr>"

definition fs_super :: superblock where
  "fs_super = \<lparr>sb_size = 200, sb_nblocks = 164, sb_ninodes = 16, sb_nlog = 30, sb_logstart = 2, sb_inodestart = 32, sb_bmapstart = 35\<rparr>"

definition fs_image :: "uint \<Rightarrow> block" where
  "fs_image b = (if b = 1 then put_words (replicate 512 0) 0 [200, 164, 16, 30, 2, 32, 35]
     else if b = 32 then store_dinode fs_inode 128 (replicate 512 0)
     else if b = 35 then replicate 4 255 @ [15] @ replicate 507 0 else replicate 512 0)"

definition fs_sample :: fs_state where
  "fs_sample = log_state.extend (sample_log\<lparr>disk := \<lambda>_. fs_image\<rparr>) (fs_state.fields fs_super (\<lambda>_. fs_inode))"

lemma fs_sample_sel: "bufs fs_sample = (\<lambda>_. sample_buf)" "disk fs_sample = (\<lambda>_. fs_image)" "havedisk1 fs_sample" "diskerr fs_sample = (\<lambda>_ _. False)"
  "idequeue fs_sample = []" "l_outstanding fs_sample = 0" "\<not> l_committing fs_sample"
  by (simp_all add: fs_sample_def log_state.defs fs_state.defs sample_log_def)

lemma fs_image_super: "super_of (fs_image 1) = fs_super" "get32 (fs_image 1) 16 = 2" "get32 (fs_image 1) 12 = 30" "get32 (fs_image 2) 0 = 0"
  "length (fs_image b) = 512"
proof -
  have w: "get32 (fs_image 1) (4 * i) = [200, 164, 16, 30, 2, 32, 35] ! i" if "i < 7" for i
    using get_put_words [of i "[200, 164, 16, 30, 2, 32, 35]" 0 "replicate 512 0"] that by (simp add: fs_image_def del: put_words.simps)
  show "super_of (fs_image 1) = fs_super"
    using w [of 0] w [of 1] w [of 2] w [of 3] w [of 4] w [of 5] w [of 6] by (simp add: super_of_def fs_super_def)
  show "get32 (fs_image 1) 16 = 2" "get32 (fs_image 1) 12 = 30" using w [of 4] w [of 3] by simp_all
  show "get32 (fs_image 2) 0 = 0" by (simp add: fs_image_def get32_def)
  show "length (fs_image b) = 512" by (simp add: fs_image_def)
qed

lemma fs_started:
  obtains s V where "initlog 1 (binit fs_sample) = Ok s" "log_ok 2 V V Map.empty s" "lh_n s = 0" "l_size s = 30" "l_outstanding s = 0"
    "\<not> l_committing s" "\<And>b. b \<noteq> 2 \<Longrightarrow> V b = fs_image b" "\<And>b. length (V b) = 512"
proof -
  have h: "header (fs_image 2) 0 (\<lambda>_. 0)" by (simp add: header_def fs_image_super)
  note v = valid_header [where D = fs_image and st = 2, OF h sample_regions(1)]
  have "wp (initlog 1 (binit fs_sample)) (\<lambda>t. \<exists>V. log_ok 2 V V Map.empty t \<and> lh_n t = 0 \<and> l_size t = sint (get32 (fs_image 1) 12) \<and>
    l_outstanding t = l_outstanding fs_sample \<and> l_committing t = l_committing fs_sample \<and> (\<forall>b. b \<noteq> 2 \<longrightarrow> V b = upds fs_image (pending 2 fs_image) b))"
    by (rule initlog_spec) (use v(1) fs_image_super in \<open>simp_all add: fs_sample_sel zeroed_def sample_buf_def no_err_def\<close>)
  then obtain s V where s: "initlog 1 (binit fs_sample) = Ok s" "log_ok 2 V V Map.empty s" "lh_n s = 0" "l_size s = 30" "l_outstanding s = 0"
    "\<not> l_committing s" "\<forall>b. b \<noteq> 2 \<longrightarrow> V b = fs_image b" using v(2) by (auto simp: wp_iff fs_image_super fs_sample_sel)
  moreover have "length (V b) = 512" for b using s(2,7) fs_image_super(5) by (cases "b = 2") (simp_all add: log_ok_def)
  ultimately show thesis using that by blast
qed


lemma fs_used: "b < 200 \<Longrightarrow> V 35 = fs_image 35 \<Longrightarrow> used fs_super V b \<longleftrightarrow> b < 36"
proof -
  assume b: "b < 200" and V: "V 35 = fs_image 35"
  have u: "unat b < 200" using b by (simp add: word_less_nat_alt)
  then have "b div 4096 = 0" "unat b mod 4096 = unat b" by (simp_all add: word_arith_nat_div)
  then have "used fs_super V b = bit_used (fs_image 35) (unat b)" using V by (simp add: used_def BBLOCK_def BPB_def BSIZE_def fs_super_def)
  moreover have "\<forall>n\<in>set [0..<200]. bit_used (fs_image 35) n = (n < 36)"
    unfolding fs_image_def bit_used_def bit_mask_def by code_simp
  ultimately show ?thesis using u by (simp add: word_less_nat_alt)
qed

lemma fs_layout:
  assumes "\<And>b. b \<noteq> 2 \<Longrightarrow> V b = fs_image b"
  shows "layout 2 fs_super V"
proof -
  have "used fs_super V b" if "b \<le> 35" for b
  proof -
    have "unat b \<le> 35" using that by (simp add: word_le_nat_alt)
    then show ?thesis using fs_used [of b V] assms by (simp add: word_less_nat_alt)
  qed
  then show ?thesis using assms fs_image_super(1) by (simp add: layout_def fs_super_def LOGSIZE_def MAXOPBLOCKS_def FSSIZE_def)
qed

lemma fs_file_blk: "file_blk V fs_inode n = 0" "owned V fs_inode = {}" "file_bytes V fs_inode = []"
  by (auto simp: file_blk_def fs_inode_def NDIRECT_def owned_def file_bytes_def)

lemma fs_inode_ok: "inode_ok fs_super V fs_inode"
  using fs_file_blk by (simp add: inode_ok_def file_ok_def no_holes_def fs_inode_def fs_super_def NDIRECT_def)

lemma fs_in_transaction:
  obtains s0 s1 V where "initlog 1 (binit fs_sample) = Ok s0" "begin_op s0 = Begun s1"
    "intx (s1\<lparr>sb := fs_super, inodes := \<lambda>_. fs_inode\<rparr>) {35, 32} V Map.empty (\<lambda>_. fs_inode) (s1\<lparr>sb := fs_super, inodes := \<lambda>_. fs_inode\<rparr>)"
    "layout 2 fs_super V" "l_start s1 = 2" "writable (s1\<lparr>sb := fs_super, inodes := \<lambda>_. fs_inode\<rparr>) {35, 32} V fs_inode 1"
    "lh_n s1 = 0" "l_outstanding s1 = 1" "\<not> l_committing s1" "on_disk fs_super V fs_inode"
proof -
  obtain s0 V where s: "initlog 1 (binit fs_sample) = Ok s0" "log_ok 2 V V Map.empty s0" "lh_n s0 = 0" "l_size s0 = 30" "l_outstanding s0 = 0"
    "\<not> l_committing s0" "\<And>b. b \<noteq> 2 \<Longrightarrow> V b = fs_image b" "\<And>b. length (V b) = 512" by (rule fs_started) blast
  let ?s1 = "s0\<lparr>l_outstanding := 1\<rparr>" and ?s = "s0\<lparr>l_outstanding := 1, sb := fs_super, inodes := \<lambda>_. fs_inode\<rparr>"
  have b: "begin_op s0 = Begun ?s1" using s by (simp add: begin_op_def LOGSIZE_def MAXOPBLOCKS_def)
  have l: "layout 2 fs_super V" by (rule fs_layout [OF s(7)])
  have st: "l_start s0 = 2" "disk s0 1 = V" using s(2) bcD(4) by (auto simp: log_ok_def log_at_def)
  have bc: "bc ?s V D H Y = bc s0 V D H Y" for V D H Y by (rule bc_fields) simp_all
  have ok: "log_ok 2 V V Map.empty ?s" using s(2) by (simp add: log_ok_def log_at_def no_err_def bc)
  have rm: "room ?s {35, 32}" using s(4) st by (simp add: room_def LOGSIZE_def MAXOPBLOCKS_def FSSIZE_def in_log_def)
  have x: "intx ?s {35, 32} V Map.empty (\<lambda>_. fs_inode) ?s"
    using ok rm s(3,8) st by (simp add: intx_def tx_same_def logged_def NBUF_def BSIZE_def)
  have "{100, 101} \<subseteq> free_blks fs_super V" using fs_used [of _ V] s(7) by (simp add: free_blks_def) (simp add: fs_super_def)
  then have "card {100 :: uint, 101} \<le> card (free_blks fs_super V)" by (intro card_mono) (simp add: free_blks_def)
  then have "writable ?s {35, 32} V fs_inode 1"
    using s(4) by (simp add: writable_def ind_cost_def fs_inode_def fs_super_def NDIRECT_def)
  moreover have "V 32 = store_dinode fs_inode 128 (replicate 512 0)" using s(7) [of 32] by (simp add: fs_image_def)
  then have "on_disk fs_super V fs_inode"
    using load_store_dinode [of fs_inode 128 "replicate 512 0" fs_inode]
    by (simp add: on_disk_def IBLOCK_def IPB_def dinode_at_def fs_super_def) (simp add: fs_inode_def)
  ultimately show thesis using that [OF s(1) b] x l st s(3,6) by simp
qed

theorem writei_then_readi_witness:
  "\<exists>s0 s1 t u. initlog 1 (binit fs_sample) = Ok s0 \<and> begin_op s0 = Begun s1 \<and>
    writei \<lparr>dv_read = \<lambda>_. None, dv_write = \<lambda>_. None\<rparr> 0 [104, 105] 0 (s1\<lparr>sb := fs_super, inodes := \<lambda>_. fs_inode\<rparr>) = Ok (2, t) \<and>
    readi \<lparr>dv_read = \<lambda>_. None, dv_write = \<lambda>_. None\<rparr> 0 0 2 t = Ok (2, [104, 105], u)"
proof -
  obtain s0 s1 V where s: "initlog 1 (binit fs_sample) = Ok s0" "begin_op s0 = Begun s1"
    "intx (s1\<lparr>sb := fs_super, inodes := \<lambda>_. fs_inode\<rparr>) {35, 32} V Map.empty (\<lambda>_. fs_inode) (s1\<lparr>sb := fs_super, inodes := \<lambda>_. fs_inode\<rparr>)"
    "layout 2 fs_super V" "l_start s1 = 2" "writable (s1\<lparr>sb := fs_super, inodes := \<lambda>_. fs_inode\<rparr>) {35, 32} V fs_inode 1"
    by (rule fs_in_transaction) blast
  let ?s = "s1\<lparr>sb := fs_super, inodes := \<lambda>_. fs_inode\<rparr>" and ?dv = "\<lparr>dv_read = \<lambda>_. None, dv_write = \<lambda>_. None\<rparr>"
  have n: "nblks (unat (0 :: uint)) (length [104 :: uchar, 105]) = 1" by (simp add: nblks_def BSIZE_def)
  have "iblk fs_super fs_inode = 32" by (simp add: fs_inode_def fs_super_def IBLOCK_def IPB_def)
  then have h: "layout (l_start ?s) (sb ?s) V" "inode_ok (sb ?s) V fs_inode" "i_type fs_inode \<noteq> T_DEV" "0 \<le> i_size fs_inode"
    "unat (0 :: uint) + length [104 :: uchar, 105] \<le> MAXFILE * BSIZE" "writable ?s {35, 32} V fs_inode (nblks (unat (0 :: uint)) (length [104 :: uchar, 105]))"
    "iblk (sb ?s) fs_inode \<in> {35, 32}"
    using s(4-6) fs_inode_ok unfolding n by (simp_all, simp_all add: fs_inode_def T_FILE_def T_DEV_def MAXFILE_def NDIRECT_def BSIZE_def)
  obtain t u where "writei ?dv 0 [104, 105] 0 ?s = Ok (int (length [104 :: uchar, 105]), t)"
    "readi ?dv 0 0 (of_nat (length [104 :: uchar, 105])) t = Ok (int (length [104 :: uchar, 105]), [104, 105], u)"
    using writei_then_readi [where ip = 0 and off = 0 and src = "[104, 105]" and dv = ?dv, OF s(3) h] by blast
  then show ?thesis using s(1,2) by auto
qed

end
