(* ===== verification/Spec2Isabelle.thy ===== *)
theory Spec2Isabelle
  imports Pipe Proc_P3 Ulib Log Grep Syscall Fs_Data
begin

text \<open>
  The kernel of XV6PDX (an x86 teaching kernel with multi-level feedback scheduling).
\<close>

section \<open>Files across a crash\<close>

text \<open>Two views that agree outside the log hold the same files.\<close>

lemma same_files:
  assumes l: "layout st sp V" and k: "inode_ok sp V k" and e: "\<And>b. \<not> in_log st b \<Longrightarrow> V' b = V b"
  shows "file_bytes V' k = file_bytes V k" "on_disk sp V' k = on_disk sp V k"
proof -
  have i: "i_inum k < sb_ninodes sp" "file_ok sp V k" "no_holes V k" using k by (simp_all add: inode_ok_def)
  have o: "V' b = V b" if "b \<in> owned V k" for b using e data_blkD(5) [OF l file_okD(2) [OF i(2) that]] by blast
  have "V' (ind_blk k) = V (ind_blk k)" if "ind_blk k \<noteq> 0" using o ownedI(2) [OF that] by blast
  then have f: "file_blk V' k = file_blk V k" by (auto simp: file_blk_def fun_eq_iff)
  have "byte_at V' k p = byte_at V k p" if "p < MAXFILE * BSIZE" for p
    using o ownedI(1) [of "p div BSIZE" V k] that by (auto simp: byte_at_def Let_def f less_mult_imp_div_less)
  then show "file_bytes V' k = file_bytes V k" using no_holesD(1) [OF i(3)] by (simp add: file_bytes_def)
  show "on_disk sp V' k = on_disk sp V k" using e [OF iblk_facts(3) [OF l i(1)]] by (simp add: on_disk_def)
qed

text \<open>
  Property C3. A write to a file is atomic. Let an operation be alone in the log, and write \<open>src\<close> into a file at \<open>off\<close>: then
  \<open>writei\<close> and \<open>end_op\<close> return. Wherever a crash cuts the disk writes of \<open>end_op\<close> off, booting from what is on the disk then
  gives the file as it was, if the crash came before the header of the log was written, and otherwise the file with all of
  \<open>src\<close> in it, each with the inode on disk that belongs to it.
\<close>

theorem file_write_crash_safe:
  fixes r :: "'a fs_state_scheme"
  assumes x: "intx r W V Map.empty I r" and l: "layout (l_start r) (sb r) V" and k: "inode_ok (sb r) V (I ip)" "on_disk (sb r) V (I ip)" "i_type (I ip) \<noteq> T_DEV"
    and n: "off \<le> i_size (I ip)" "unat off + length src \<le> MAXFILE * BSIZE" and W: "writable r W V (I ip) (nblks (unat off) (length src))" "iblk (sb r) (I ip) \<in> W"
    and b: "lh_n r = 0" "l_outstanding r = 1" "\<not> l_committing r" "sb_logstart (sb r) = l_start r" "1 \<notin> W"
  shows "\<exists>t e k'. writei dv ip src off r = Ok (int (length src), t) \<and> end_op t = Ok e \<and> i_inum k' = i_inum (I ip) \<and>
    (\<forall>m (c :: 'a fs_state_scheme). zeroed c \<and> havedisk1 c \<and> no_err c \<and>
       disk c = replay (take m (drop (length (diskwrites r)) (diskwrites e))) (disk r) \<longrightarrow>
       (\<exists>u. initlog 1 (binit c) = Ok u \<and>
         (if m \<le> nat (lh_n t) then on_disk (sb r) (disk u 1) (I ip) \<and> file_bytes (disk u 1) (I ip) = file_bytes V (I ip)
          else on_disk (sb r) (disk u 1) k' \<and> file_bytes (disk u 1) k' = overwrite (unat off) src (file_bytes V (I ip)))))"
proof -
  let ?D = "disk r 1"
  have VD: "V = ?D" using intxD(7) [OF x] b(1) by (auto simp: logged_def)
  obtain t W' V' k' where t: "writei dv ip src off r = Ok (int (length src), t)" "intx r W' V' Map.empty (I(ip := k')) t"
    "layout (l_start r) (sb r) V'" "written (sb r) V (I ip) (unat off) src V' k'" "W' \<subseteq> W \<union> owned V' k'"
    using writei_spec [OF x l k(1,3) n W, of dv] by (auto simp: wp_iff)
  note D = writtenD [OF t(4)]
  have "1 \<notin> owned V' k'" using D(1) data_blkD(2) [OF t(3) file_okD(2)] by (fastforce simp: inode_ok_def)
  then have t1: "1 \<notin> logged t" using t(5) intxD(5) [OF t(2)] b(5) by blast
  have ts: "l_outstanding t = 1" "\<not> l_committing t" "diskwrites t = diskwrites r" using intxD(2) [OF t(2)] b(2,3) by (simp_all add: tx_same_def)
  have dt: "disk t 1 = ?D" using bcD(4) [OF intxD(9) [OF t(2)]] .
  have "sb_logstart (super_of (V 1)) = get32 (V 1) 16" by (simp add: super_of_def)
  moreover have "super_of (V 1) = sb r" using l by (simp add: layout_def)
  ultimately have s1: "get32 (?D 1) 16 = l_start r" "\<not> in_log (l_start r) 1" using b(4) layoutD(8) [OF l] VD by simp_all
  obtain e where e: "end_op t = Ok e" "\<And>m (c :: 'a fs_state_scheme). zeroed c \<Longrightarrow> havedisk1 c \<Longrightarrow> no_err c \<Longrightarrow>
      disk c 1 = replay (take m (drop (length (diskwrites t)) (diskwrites e))) (disk t) 1 \<Longrightarrow>
      \<exists>u. initlog 1 (binit c) = Ok u \<and> (\<forall>b. \<not> in_log (l_start r) b \<longrightarrow> disk u 1 b = (if m \<le> nat (lh_n t) then ?D b else V' b))"
    using end_op_crash [OF intxD(1) [OF t(2)] ts(1,2) s1] t1 unfolding logged_def by blast
  have "\<exists>u. initlog 1 (binit c) = Ok u \<and> (if m \<le> nat (lh_n t) then on_disk (sb r) (disk u 1) (I ip) \<and> file_bytes (disk u 1) (I ip) = file_bytes V (I ip)
      else on_disk (sb r) (disk u 1) k' \<and> file_bytes (disk u 1) k' = overwrite (unat off) src (file_bytes V (I ip)))"
    if c: "zeroed c \<and> havedisk1 c \<and> no_err c \<and> disk c = replay (take m (drop (length (diskwrites r)) (diskwrites e))) (disk r)"
    for m and c :: "'a fs_state_scheme"
  proof -
    have "disk c 1 = replay (take m (drop (length (diskwrites t)) (diskwrites e))) (disk t) 1" using c ts(3) replay_cong [of "disk t" 1 "disk r"] dt by simp
    then obtain u where u: "initlog 1 (binit c) = Ok u" "\<And>b. \<not> in_log (l_start r) b \<Longrightarrow> disk u 1 b = (if m \<le> nat (lh_n t) then ?D b else V' b)"
      using e(2) c by blast
    show ?thesis
      using u same_files [OF l k(1), of "disk u 1"] same_files [OF t(3) D(1), of "disk u 1"] k(2) D(3,4) VD by (cases "m \<le> nat (lh_n t)") auto
  qed
  moreover have "i_inum k' = i_inum (I ip)" using D(2) by auto
  ultimately show ?thesis using t(1) e(1) by blast
qed


theorem file_write_crash_safe_witness:
  "\<exists>s0 s1 t e m c u c' u' k'. initlog 1 (binit fs_sample) = Ok s0 \<and> begin_op s0 = Begun s1 \<and>
    writei \<lparr>dv_read = \<lambda>_. None, dv_write = \<lambda>_. None\<rparr> 0 [104, 105] 0 (s1\<lparr>sb := fs_super, inodes := \<lambda>_. fs_inode\<rparr>) = Ok (2, t) \<and> end_op t = Ok e \<and>
    c = fs_sample\<lparr>disk := replay (take 0 (drop (length (diskwrites s1)) (diskwrites e))) (disk s1)\<rparr> \<and>
    initlog 1 (binit c) = Ok u \<and> file_bytes (disk u 1) fs_inode = [] \<and>
    c' = fs_sample\<lparr>disk := replay (take m (drop (length (diskwrites s1)) (diskwrites e))) (disk s1)\<rparr> \<and>
    initlog 1 (binit c') = Ok u' \<and> on_disk fs_super (disk u' 1) k' \<and> file_bytes (disk u' 1) k' = [104, 105]"
proof -
  obtain s0 s1 V where s: "initlog 1 (binit fs_sample) = Ok s0" "begin_op s0 = Begun s1"
    "intx (s1\<lparr>sb := fs_super, inodes := \<lambda>_. fs_inode\<rparr>) {35, 32} V Map.empty (\<lambda>_. fs_inode) (s1\<lparr>sb := fs_super, inodes := \<lambda>_. fs_inode\<rparr>)"
    "layout 2 fs_super V" "l_start s1 = 2" "writable (s1\<lparr>sb := fs_super, inodes := \<lambda>_. fs_inode\<rparr>) {35, 32} V fs_inode 1"
    "lh_n s1 = 0" "l_outstanding s1 = 1" "\<not> l_committing s1" "on_disk fs_super V fs_inode"
    by (rule fs_in_transaction) blast
  let ?r = "s1\<lparr>sb := fs_super, inodes := \<lambda>_. fs_inode\<rparr>" and ?dv = "\<lparr>dv_read = \<lambda>_. None, dv_write = \<lambda>_. None\<rparr>" and ?x = "[104 :: uchar, 105]"
  have n: "nblks (unat (0 :: uint)) (length ?x) = 1" by (simp add: nblks_def BSIZE_def)
  have "iblk fs_super fs_inode = 32" by (simp add: fs_inode_def fs_super_def IBLOCK_def IPB_def)
  then have h: "layout (l_start ?r) (sb ?r) V" "inode_ok (sb ?r) V fs_inode" "on_disk (sb ?r) V fs_inode" "i_type fs_inode \<noteq> T_DEV" "0 \<le> i_size fs_inode"
    "unat (0 :: uint) + length ?x \<le> MAXFILE * BSIZE" "writable ?r {35, 32} V fs_inode (nblks (unat (0 :: uint)) (length ?x))"
    "iblk (sb ?r) fs_inode \<in> {35, 32}" "lh_n ?r = 0" "l_outstanding ?r = 1" "\<not> l_committing ?r" "sb_logstart (sb ?r) = l_start ?r" "(1 :: uint) \<notin> {35, 32}"
    using s(4-10) fs_inode_ok unfolding n
    by (simp_all, simp_all add: fs_inode_def fs_super_def T_FILE_def T_DEV_def MAXFILE_def NDIRECT_def BSIZE_def)
  obtain t e k' where t: "writei ?dv 0 ?x 0 ?r = Ok (int (length ?x), t)" "end_op t = Ok e" and c: "\<And>m c. zeroed (c :: fs_state) \<and> havedisk1 c \<and> no_err c \<and>
       disk c = replay (take m (drop (length (diskwrites ?r)) (diskwrites e))) (disk ?r) \<Longrightarrow>
       \<exists>u. initlog 1 (binit c) = Ok u \<and> (if m \<le> nat (lh_n t) then on_disk (sb ?r) (disk u 1) fs_inode \<and> file_bytes (disk u 1) fs_inode = file_bytes V fs_inode
          else on_disk (sb ?r) (disk u 1) k' \<and> file_bytes (disk u 1) k' = overwrite (unat (0 :: uint)) ?x (file_bytes V fs_inode))"
    using file_write_crash_safe [where ip = 0 and off = 0 and src = ?x and dv = ?dv, OF s(3) h] by blast
  let ?c = "\<lambda>m. fs_sample\<lparr>disk := replay (take m (drop (length (diskwrites s1)) (diskwrites e))) (disk s1)\<rparr>" and ?m = "nat (lh_n t) + 1"
  have z: "zeroed (?c m) \<and> havedisk1 (?c m) \<and> no_err (?c m) \<and> disk (?c m) = replay (take m (drop (length (diskwrites ?r)) (diskwrites e))) (disk ?r)" for m
    by (simp add: zeroed_def no_err_def fs_sample_sel sample_buf_def)
  obtain u where u: "initlog 1 (binit (?c 0)) = Ok u" "file_bytes (disk u 1) fs_inode = []" using c [OF z, of 0] fs_file_blk(3) by auto
  obtain u' where u': "initlog 1 (binit (?c ?m)) = Ok u'" "on_disk fs_super (disk u' 1) k'" "file_bytes (disk u' 1) k' = ?x"
    using c [OF z, of ?m] fs_file_blk(3) by (auto simp: overwrite_def)
  show ?thesis
    by (rule exI [of _ s0], rule exI [of _ s1], rule exI [of _ t], rule exI [of _ e], rule exI [of _ ?m], rule exI [of _ "?c 0"], rule exI [of _ u],
        rule exI [of _ "?c ?m"], rule exI [of _ u'], rule exI [of _ k']) (use s(1,2) t u u' in simp)
qed

end
